(* ===== verification/Kernel_Prelude.thy ===== *)
theory Kernel_Prelude
  imports Main "HOL-Library.Word"
begin

text \<open>
  Shared vocabulary of the development: the machine integer types of the 32-bit ARM
  target, the kernel's error numbers, the convention for code that has no defined
  behaviour, and the generic list and word lemmas the components use.

  Conventions. \<open>unsigned int\<close>, \<open>unsigned long\<close> and \<open>u32\<close> are 32-bit words
  (\<open>BITS_PER_LONG = 32\<close>). An operation that can dereference a bad pointer, hit a
  \<open>BUG_ON\<close> or fail to return yields \<open>None\<close>; an operation that returns a negative
  \<open>errno\<close> yields \<open>Inl e\<close>. Isabelle identifiers do not start with an underscore,
  so a C name \<open>__f\<close> is written \<open>uu_f\<close>.
\<close>

unbundle bit_operations_syntax

section \<open>Machine integers\<close>

type_synonym u8 = "8 word"
type_synonym u16 = "16 word"
type_synonym u32 = "32 word"
type_synonym u64 = "64 word"

section \<open>Error numbers\<close>

datatype errno =
    EPERM | ENOENT | ESRCH | EINTR | E2BIG | EAGAIN | ENOMEM | EACCES | EFAULT
  | EBUSY | EEXIST | EINVAL | ENOSPC | EFBIG | ERANGE | EOVERFLOW | EIDRM
  | ENAMETOOLONG | ENOEXEC | ENOTBLK

section \<open>Generic lemmas\<close>

named_theorems kernel_simps \<open>rewrite rules shared by the component proofs\<close>

lemma remove1_Cons_same [kernel_simps]: "remove1 x (x # xs) = xs"
  by simp

lemma takeWhile_append_dropWhile_set:
  "set xs = set (takeWhile P xs) \<union> set (dropWhile P xs)"
  by (metis set_append takeWhile_dropWhile_id)

lemma dropWhile_hd_neg: "dropWhile P xs \<noteq> [] \<Longrightarrow> \<not> P (hd (dropWhile P xs))"
  by (rule hd_dropWhile)

lemma distinct_takeWhile_dropWhile:
  "distinct xs \<Longrightarrow> set (takeWhile P xs) \<inter> set (dropWhile P xs) = {}"
  by (metis distinct_append takeWhile_dropWhile_id)

lemma sum_lessThan_add:
  fixes f :: "nat \<Rightarrow> 'a::comm_monoid_add"
  shows "(\<Sum>i<m + n. f i) = (\<Sum>i<m. f i) + (\<Sum>i<n. f (m + i))"
  by (induction n) (simp_all add: add.assoc)

subsection \<open>Words and powers of two\<close>

lemma unat_bound: "unat (x :: 'a::len word) < 2 ^ LENGTH('a)"
  by (rule unsigned_less)

lemma unat_pow2: "k < LENGTH('a) \<Longrightarrow> unat (2 ^ k :: 'a::len word) = 2 ^ k"
  using unat_of_nat [of "2 ^ k", where 'a = 'a] by simp

lemma unat_and_pow2_minus_1:
  fixes x :: "'a::len word"
  assumes "k < LENGTH('a)"
  shows "unat (x AND (2 ^ k - 1)) = unat x mod 2 ^ k"
proof -
  have "x AND (2 ^ k - 1) = take_bit k x"
    by (simp add: take_bit_eq_mask mask_eq_decr_exp)
  then show ?thesis by (simp only: unsigned_take_bit_eq) (simp add: take_bit_eq_mod)
qed

lemma pow2_dvd_word: "k \<le> n \<Longrightarrow> (2::nat) ^ k dvd 2 ^ n"
  by (rule le_imp_power_dvd)

text \<open>Two offsets below the size of a ring never meet modulo that size.\<close>

lemma ring_offset_inj:
  assumes "i < n" "j < n" "(b + i) mod n = (b + j) mod (n::nat)"
  shows "i = j"
proof -
  have "(int b + int i) mod int n = (int b + int j) mod int n"
    using assms(3) by (metis of_nat_add zmod_int)
  then have "int n dvd int i - int j"
    by (simp add: mod_eq_dvd_iff)
  have "int i - int j = 0"
  proof (rule ccontr)
    assume "int i - int j \<noteq> 0"
    with \<open>int n dvd int i - int j\<close> have "\<bar>int n\<bar> \<le> \<bar>int i - int j\<bar>"
      by (rule dvd_imp_le_int [rotated])
    with assms(1,2) show False by linarith
  qed
  then show ?thesis by simp
qed

lemma sint_neg_iff: "sint (x::'a::len word) < 0 \<longleftrightarrow> 2 ^ (LENGTH('a) - 1) \<le> unat x"
proof -
  have "unat x < 2 ^ LENGTH('a)" by (rule unat_bound)
  then have u: "unat x < 2 * 2 ^ (LENGTH('a) - 1)" by (metis len_gt_0 power_eq_if less_not_refl2 mult.commute)
  have "sint x < 0 \<longleftrightarrow> bit (unat x) (LENGTH('a) - 1)"
    by (simp add: bit_last_iff [symmetric] bit_unsigned_iff)
  also have "\<dots> \<longleftrightarrow> 2 ^ (LENGTH('a) - 1) \<le> unat x"
  proof (cases "2 ^ (LENGTH('a) - 1) \<le> unat x")
    case True
    then have "unat x div 2 ^ (LENGTH('a) - 1) = 1" using u by (simp add: div_nat_eqI)
    with True show ?thesis by (simp add: bit_iff_odd)
  next
    case False
    then show ?thesis by (simp add: bit_iff_odd)
  qed
  finally show ?thesis .
qed
end
