(* ===== verification/Rwsem.thy ===== *)
theory Rwsem
  imports Kernel_Prelude
begin

text \<open>
  The spinlock-based read/write semaphore of \<open>lib/rwsem-spinlock.c\<close>. The semaphore
  itself is a signed activity count and a FIFO of waiters; a waiter lives on the stack of
  the task that sleeps on it, so the model names a waiter by that task. Each section the
  source runs under \<open>wait_lock\<close> is one atomic operation; the sleep loop that follows
  it outside the lock is split into its own steps, so that wake-ups interleave with it.
\<close>

section \<open>Data\<close>

type_synonym tid = nat

datatype task_state = TASK_RUNNING | TASK_UNINTERRUPTIBLE

record task_struct =
  t_state :: task_state
  t_usage :: int

record rwsem_waiter =
  w_task :: "tid option"
  w_flags :: u32

definition RWSEM_WAITING_FOR_READ :: u32 where
  "RWSEM_WAITING_FOR_READ = 0x00000001"

definition RWSEM_WAITING_FOR_WRITE :: u32 where
  "RWSEM_WAITING_FOR_WRITE = 0x00000002"

record compat_rw_semaphore =
  activity :: int
  wait_list :: "tid list"

text \<open>
  Where a task stands with respect to the semaphore: outside it, holding it, or at one of
  the three points of the sleep loop (about to test \<open>waiter.task\<close>, inside
  \<open>schedule()\<close>, or back from it and about to set its state again).
\<close>

datatype rw_mode = Rd | Wr

datatype rw_pc = Outside | Holding rw_mode | Checking rw_mode | Scheduling rw_mode | Resuming rw_mode

record rwsem_sys =
  sem :: compat_rw_semaphore
  waiters :: "tid \<Rightarrow> rwsem_waiter"
  tasks :: "tid \<Rightarrow> task_struct"
  pcs :: "tid \<Rightarrow> rw_pc"

section \<open>Operations\<close>

definition compat_init_rwsem :: compat_rw_semaphore where
  "compat_init_rwsem = \<lparr>activity = 0, wait_list = []\<rparr>"

definition set_task_state :: "tid \<Rightarrow> task_state \<Rightarrow> rwsem_sys \<Rightarrow> rwsem_sys" where
  "set_task_state t st s = s\<lparr>tasks := (tasks s)(t := (tasks s t)\<lparr>t_state := st\<rparr>)\<rparr>"

definition get_task_struct :: "tid \<Rightarrow> rwsem_sys \<Rightarrow> rwsem_sys" where
  "get_task_struct t s = s\<lparr>tasks := (tasks s)(t := (tasks s t)\<lparr>t_usage := t_usage (tasks s t) + 1\<rparr>)\<rparr>"

definition put_task_struct :: "tid \<Rightarrow> rwsem_sys \<Rightarrow> rwsem_sys" where
  "put_task_struct t s = s\<lparr>tasks := (tasks s)(t := (tasks s t)\<lparr>t_usage := t_usage (tasks s t) - 1\<rparr>)\<rparr>"

definition set_activity :: "int \<Rightarrow> rwsem_sys \<Rightarrow> rwsem_sys" where
  "set_activity a s = s\<lparr>sem := (sem s)\<lparr>activity := a\<rparr>\<rparr>"

definition set_pc :: "tid \<Rightarrow> rw_pc \<Rightarrow> rwsem_sys \<Rightarrow> rwsem_sys" where
  "set_pc t p s = s\<lparr>pcs := (pcs s)(t := p)\<rparr>"

text \<open>
  Handing the lock to the waiter \<open>w\<close>: unlink it, read its task, clear
  \<open>waiter->task\<close>, wake the task and drop the reference. A waiter whose task is
  already cleared would make \<open>wake_up_process\<close> dereference a null pointer.
\<close>

definition wake_waiter :: "tid \<Rightarrow> rwsem_sys \<Rightarrow> rwsem_sys option" where
  "wake_waiter w s =
     (case w_task (waiters s w) of
        None \<Rightarrow> None
      | Some tsk \<Rightarrow>
          (let s1 = s\<lparr>sem := (sem s)\<lparr>wait_list := remove1 w (wait_list (sem s))\<rparr>\<rparr>;
               s2 = s1\<lparr>waiters := (waiters s1)(w := (waiters s1 w)\<lparr>w_task := None\<rparr>)\<rparr>;
               s3 = set_task_state tsk TASK_RUNNING s2
           in Some (put_task_struct tsk s3)))"

text \<open>
  The loop that grants a read lock to every reader at the front of the queue. Its list
  argument is the queue from the current waiter on.
\<close>

fun rwsem_wake_readers :: "tid list \<Rightarrow> int \<Rightarrow> rwsem_sys \<Rightarrow> (int \<times> rwsem_sys) option" where
  "rwsem_wake_readers [] woken s = Some (woken, s)"
| "rwsem_wake_readers (waiter # nxt) woken s =
     (if w_flags (waiters s waiter) AND RWSEM_WAITING_FOR_READ \<noteq> 0
      then (case wake_waiter waiter s of
              None \<Rightarrow> None
            | Some s' \<Rightarrow>
                if wait_list (sem s') = [] then Some (woken + 1, s')
                else rwsem_wake_readers nxt (woken + 1) s')
      else Some (woken, s))"

definition uu_rwsem_do_wake :: "bool \<Rightarrow> rwsem_sys \<Rightarrow> rwsem_sys option" where
  "uu_rwsem_do_wake wakewrite s =
     (case wait_list (sem s) of
        [] \<Rightarrow> None
      | waiter # nxt \<Rightarrow>
          (let is_writer = w_flags (waiters s waiter) AND RWSEM_WAITING_FOR_WRITE \<noteq> 0;
               wake_rd = (case rwsem_wake_readers (waiter # nxt) 0 s of
                            None \<Rightarrow> None
                          | Some (woken, s') \<Rightarrow> Some (set_activity (activity (sem s') + woken) s'))
           in if \<not> wakewrite then (if is_writer then Some s else wake_rd)
              else if is_writer then wake_waiter waiter (set_activity (- 1) s)
              else wake_rd))"

definition uu_rwsem_wake_one_writer :: "rwsem_sys \<Rightarrow> rwsem_sys option" where
  "uu_rwsem_wake_one_writer s =
     (let s1 = set_activity (- 1) s
      in case wait_list (sem s1) of [] \<Rightarrow> None | waiter # _ \<Rightarrow> wake_waiter waiter s1)"

text \<open>The slow path shared by both down operations: queue the caller's own waiter and sleep.\<close>

definition rwsem_enqueue :: "tid \<Rightarrow> rw_mode \<Rightarrow> rwsem_sys \<Rightarrow> rwsem_sys" where
  "rwsem_enqueue tsk m s =
     (let s1 = set_task_state tsk TASK_UNINTERRUPTIBLE s;
          fl = (case m of Rd \<Rightarrow> RWSEM_WAITING_FOR_READ | Wr \<Rightarrow> RWSEM_WAITING_FOR_WRITE);
          s2 = s1\<lparr>waiters := (waiters s1)(tsk := \<lparr>w_task = Some tsk, w_flags = fl\<rparr>)\<rparr>;
          s3 = get_task_struct tsk s2;
          s4 = s3\<lparr>sem := (sem s3)\<lparr>wait_list := wait_list (sem s3) @ [tsk]\<rparr>\<rparr>
      in set_pc tsk (Checking m) s4)"

definition uu_down_read :: "tid \<Rightarrow> rwsem_sys \<Rightarrow> rwsem_sys" where
  "uu_down_read tsk s =
     (if activity (sem s) \<ge> 0 \<and> wait_list (sem s) = []
      then set_pc tsk (Holding Rd) (set_activity (activity (sem s) + 1) s)
      else rwsem_enqueue tsk Rd s)"

definition uu_down_read_trylock :: "tid \<Rightarrow> rwsem_sys \<Rightarrow> bool \<times> rwsem_sys" where
  "uu_down_read_trylock tsk s =
     (if activity (sem s) \<ge> 0 \<and> wait_list (sem s) = []
      then (True, set_pc tsk (Holding Rd) (set_activity (activity (sem s) + 1) s))
      else (False, s))"

definition uu_down_write :: "tid \<Rightarrow> rwsem_sys \<Rightarrow> rwsem_sys" where
  "uu_down_write tsk s =
     (if activity (sem s) = 0 \<and> wait_list (sem s) = []
      then set_pc tsk (Holding Wr) (set_activity (- 1) s)
      else rwsem_enqueue tsk Wr s)"

definition uu_down_write_trylock :: "tid \<Rightarrow> rwsem_sys \<Rightarrow> bool \<times> rwsem_sys" where
  "uu_down_write_trylock tsk s =
     (if activity (sem s) = 0 \<and> wait_list (sem s) = []
      then (True, set_pc tsk (Holding Wr) (set_activity (- 1) s))
      else (False, s))"

definition uu_up_read :: "tid \<Rightarrow> rwsem_sys \<Rightarrow> rwsem_sys option" where
  "uu_up_read tsk s =
     (let s1 = set_pc tsk Outside (set_activity (activity (sem s) - 1) s)
      in if activity (sem s1) = 0 \<and> wait_list (sem s1) \<noteq> []
         then uu_rwsem_wake_one_writer s1 else Some s1)"

definition uu_up_write :: "tid \<Rightarrow> rwsem_sys \<Rightarrow> rwsem_sys option" where
  "uu_up_write tsk s =
     (let s1 = set_pc tsk Outside (set_activity 0 s)
      in if wait_list (sem s1) \<noteq> [] then uu_rwsem_do_wake True s1 else Some s1)"

definition uu_downgrade_write :: "tid \<Rightarrow> rwsem_sys \<Rightarrow> rwsem_sys option" where
  "uu_downgrade_write tsk s =
     (let s1 = set_pc tsk (Holding Rd) (set_activity 1 s)
      in if wait_list (sem s1) \<noteq> [] then uu_rwsem_do_wake False s1 else Some s1)"

text \<open>
  The sleep loop \<open>for (;;) { if (!waiter.task) break; schedule(); set_task_state(...); }\<close>
  and the assignment \<open>tsk->state = TASK_RUNNING\<close> behind it, one step per statement.
\<close>

definition sleep_check :: "tid \<Rightarrow> rw_mode \<Rightarrow> rwsem_sys \<Rightarrow> rwsem_sys" where
  "sleep_check tsk m s =
     (if w_task (waiters s tsk) = None
      then set_pc tsk (Holding m) (set_task_state tsk TASK_RUNNING s)
      else set_pc tsk (Scheduling m) s)"

definition sleep_resume :: "tid \<Rightarrow> rw_mode \<Rightarrow> rwsem_sys \<Rightarrow> rwsem_sys" where
  "sleep_resume tsk m s = set_pc tsk (Checking m) (set_task_state tsk TASK_UNINTERRUPTIBLE s)"

section \<open>The system of tasks using one semaphore\<close>

inductive rwsem_step :: "rwsem_sys \<Rightarrow> rwsem_sys \<Rightarrow> bool" where
  down_read: "pcs s t = Outside \<Longrightarrow> rwsem_step s (uu_down_read t s)"
| down_read_trylock: "pcs s t = Outside \<Longrightarrow> uu_down_read_trylock t s = (r, s') \<Longrightarrow> rwsem_step s s'"
| down_write: "pcs s t = Outside \<Longrightarrow> rwsem_step s (uu_down_write t s)"
| down_write_trylock: "pcs s t = Outside \<Longrightarrow> uu_down_write_trylock t s = (r, s') \<Longrightarrow> rwsem_step s s'"
| up_read: "pcs s t = Holding Rd \<Longrightarrow> uu_up_read t s = Some s' \<Longrightarrow> rwsem_step s s'"
| up_write: "pcs s t = Holding Wr \<Longrightarrow> uu_up_write t s = Some s' \<Longrightarrow> rwsem_step s s'"
| downgrade_write: "pcs s t = Holding Wr \<Longrightarrow> uu_downgrade_write t s = Some s' \<Longrightarrow> rwsem_step s s'"
| check: "pcs s t = Checking m \<Longrightarrow> rwsem_step s (sleep_check t m s)"
| schedule: "pcs s t = Scheduling m \<Longrightarrow> t_state (tasks s t) = TASK_RUNNING \<Longrightarrow>
     rwsem_step s (set_pc t (Resuming m) s)"
| resume: "pcs s t = Resuming m \<Longrightarrow> rwsem_step s (sleep_resume t m s)"

definition rwsem_start :: "(tid \<Rightarrow> int) \<Rightarrow> rwsem_sys" where
  "rwsem_start u0 = \<lparr>sem = compat_init_rwsem, waiters = (\<lambda>_. \<lparr>w_task = None, w_flags = 0\<rparr>),
     tasks = (\<lambda>t. \<lparr>t_state = TASK_RUNNING, t_usage = u0 t\<rparr>), pcs = (\<lambda>_. Outside)\<rparr>"

inductive rwsem_reachable :: "(tid \<Rightarrow> int) \<Rightarrow> rwsem_sys \<Rightarrow> bool" for u0 where
  start: "rwsem_reachable u0 (rwsem_start u0)"
| step: "rwsem_reachable u0 s \<Longrightarrow> rwsem_step s s' \<Longrightarrow> rwsem_reachable u0 s'"


section \<open>Invariant\<close>

fun sleep_mode :: "rw_pc \<Rightarrow> rw_mode option" where
  "sleep_mode (Checking m) = Some m"
| "sleep_mode (Scheduling m) = Some m"
| "sleep_mode (Resuming m) = Some m"
| "sleep_mode _ = None"

definition flag_of :: "rw_mode \<Rightarrow> u32" where
  "flag_of m = (case m of Rd \<Rightarrow> RWSEM_WAITING_FOR_READ | Wr \<Rightarrow> RWSEM_WAITING_FOR_WRITE)"

text \<open>The tasks that own the lock in mode \<open>m\<close>: the holders, and the sleepers it was handed to.\<close>

definition owners :: "rw_mode \<Rightarrow> rwsem_sys \<Rightarrow> tid set" where
  "owners m s = {t. pcs s t = Holding m \<or> (sleep_mode (pcs s t) = Some m \<and> w_task (waiters s t) = None)}"

definition rw_core :: "(tid \<Rightarrow> int) \<Rightarrow> rwsem_sys \<Rightarrow> bool" where
  "rw_core u0 s \<longleftrightarrow>
     finite {t. pcs s t \<noteq> Outside} \<and> distinct (wait_list (sem s)) \<and>
     (\<forall>t \<in> set (wait_list (sem s)). w_task (waiters s t) = Some t \<and>
        (\<exists>m. sleep_mode (pcs s t) = Some m \<and> w_flags (waiters s t) = flag_of m)) \<and>
     (\<forall>t m. sleep_mode (pcs s t) = Some m \<and> t \<notin> set (wait_list (sem s)) \<longrightarrow> w_task (waiters s t) = None) \<and>
     (\<forall>t. t_usage (tasks s t) = u0 t + (if t \<in> set (wait_list (sem s)) then 1 else 0)) \<and>
     (\<forall>t m. pcs s t = Scheduling m \<and> w_task (waiters s t) = None \<longrightarrow> t_state (tasks s t) = TASK_RUNNING)"

definition rw_count :: "rwsem_sys \<Rightarrow> bool" where
  "rw_count s \<longleftrightarrow>
     (owners Wr s = {} \<and> activity (sem s) = int (card (owners Rd s)) \<or>
      activity (sem s) = - 1 \<and> owners Rd s = {} \<and> (\<exists>t. owners Wr s = {t}))"

definition front_writer :: "rwsem_sys \<Rightarrow> bool" where
  "front_writer s \<longleftrightarrow>
     (activity (sem s) = 0 \<longrightarrow> wait_list (sem s) = []) \<and>
     (activity (sem s) > 0 \<and> wait_list (sem s) \<noteq> [] \<longrightarrow>
        w_flags (waiters s (hd (wait_list (sem s)))) = flag_of Wr)"

definition rw_inv :: "(tid \<Rightarrow> int) \<Rightarrow> rwsem_sys \<Rightarrow> bool" where
  "rw_inv u0 s \<longleftrightarrow> rw_core u0 s \<and> rw_count s \<and> front_writer s"

lemmas rw_step_defs = set_task_state_def get_task_struct_def put_task_struct_def
  set_activity_def set_pc_def

lemma flag_of_simps:
  "flag_of Rd = RWSEM_WAITING_FOR_READ" "flag_of Wr = RWSEM_WAITING_FOR_WRITE"
  by (simp_all add: flag_of_def)

lemma flag_tests [simp]:
  "flag_of m AND RWSEM_WAITING_FOR_READ \<noteq> 0 \<longleftrightarrow> m = Rd"
  "flag_of m AND RWSEM_WAITING_FOR_WRITE \<noteq> 0 \<longleftrightarrow> m = Wr"
  "flag_of m AND RWSEM_WAITING_FOR_READ = 0 \<longleftrightarrow> m = Wr"
  "flag_of m AND RWSEM_WAITING_FOR_WRITE = 0 \<longleftrightarrow> m = Rd"
  by (cases m; simp add: flag_of_def RWSEM_WAITING_FOR_READ_def RWSEM_WAITING_FOR_WRITE_def)+

lemma flag_of_inj [simp]: "flag_of m = flag_of m' \<longleftrightarrow> m = m'"
  by (cases m; cases m'; simp add: flag_of_def RWSEM_WAITING_FOR_READ_def RWSEM_WAITING_FOR_WRITE_def)

lemma owners_finite: "rw_core u0 s \<Longrightarrow> finite (owners m s)"
  by (rule finite_subset [of _ "{t. pcs s t \<noteq> Outside}"]) (auto simp: owners_def rw_core_def)

lemma rw_core_activity [simp]: "rw_core u0 (set_activity a s) = rw_core u0 s"
  by (simp add: rw_core_def set_activity_def)

lemma owners_activity [simp]: "owners m (set_activity a s) = owners m s"
  by (simp add: owners_def set_activity_def)

lemma set_activity_simps [simp]:
  "wait_list (sem (set_activity a s)) = wait_list (sem s)" "waiters (set_activity a s) = waiters s"
  "tasks (set_activity a s) = tasks s" "pcs (set_activity a s) = pcs s"
  "activity (sem (set_activity a s)) = a"
  by (simp_all add: set_activity_def)

lemma wake_waiter_core:
  assumes core: "rw_core u0 s" and w: "w \<in> set (wait_list (sem s))"
    and m: "w_flags (waiters s w) = flag_of m"
  obtains s' where "wake_waiter w s = Some s'" "rw_core u0 s'"
    "owners m s' = insert w (owners m s)" "\<And>m'. m' \<noteq> m \<Longrightarrow> owners m' s' = owners m' s"
    "wait_list (sem s') = remove1 w (wait_list (sem s))" "activity (sem s') = activity (sem s)"
    "\<And>t. w_flags (waiters s' t) = w_flags (waiters s t)" "w \<notin> owners m s"
proof -
  from core w have tk: "w_task (waiters s w) = Some w"
    by (auto simp: rw_core_def)
  from core w m have sm: "sleep_mode (pcs s w) = Some m"
    by (auto simp: rw_core_def)
  let ?s' = "the (wake_waiter w s)"
  have eq: "wake_waiter w s = Some ?s'" using tk by (simp add: wake_waiter_def Let_def)
  have d: "distinct (wait_list (sem s))" using core by (simp add: rw_core_def)
  have c': "rw_core u0 ?s'"
    using core w tk sm d by (auto simp: rw_core_def wake_waiter_def Let_def rw_step_defs)
  have o1: "owners m ?s' = insert w (owners m s)"
    using tk sm by (auto simp: owners_def wake_waiter_def Let_def rw_step_defs)
  have o2: "\<And>m'. m' \<noteq> m \<Longrightarrow> owners m' ?s' = owners m' s"
    using tk sm by (auto simp: owners_def wake_waiter_def Let_def rw_step_defs)
  have rest: "wait_list (sem ?s') = remove1 w (wait_list (sem s))" "activity (sem ?s') = activity (sem s)"
    "\<And>t. w_flags (waiters ?s' t) = w_flags (waiters s t)"
    using tk by (auto simp: wake_waiter_def Let_def rw_step_defs)
  have "w \<notin> owners m s" using tk sm by (auto simp: owners_def)
  with that eq c' o1 o2 rest show thesis by blast
qed

lemma wake_readers_core:
  assumes "rw_core u0 s" "wait_list (sem s) = ws"
  shows "\<exists>s'. rwsem_wake_readers ws n s =
        Some (n + int (length (takeWhile (\<lambda>t. w_flags (waiters s t) = flag_of Rd) ws)), s') \<and>
      rw_core u0 s' \<and> activity (sem s') = activity (sem s) \<and>
      wait_list (sem s') = dropWhile (\<lambda>t. w_flags (waiters s t) = flag_of Rd) ws \<and>
      owners Rd s' = owners Rd s \<union> set (takeWhile (\<lambda>t. w_flags (waiters s t) = flag_of Rd) ws) \<and>
      owners Wr s' = owners Wr s \<and> (\<forall>t. w_flags (waiters s' t) = w_flags (waiters s t)) \<and>
      owners Rd s \<inter> set ws = {}"
  using assms
proof (induction ws arbitrary: n s)
  case Nil
  then show ?case by auto
next
  case (Cons w ws)
  from Cons.prems have tk: "w_task (waiters s w) = Some w"
    by (auto simp: rw_core_def)
  from Cons.prems obtain m where m: "sleep_mode (pcs s w) = Some m" "w_flags (waiters s w) = flag_of m"
    by (auto simp: rw_core_def)
  have disj: "owners Rd s \<inter> set (w # ws) = {}"
  proof -
    from Cons.prems have "\<forall>t \<in> set (w # ws). w_task (waiters s t) = Some t \<and> sleep_mode (pcs s t) \<noteq> None"
      by (auto simp: rw_core_def)
    then show ?thesis by (fastforce simp: owners_def)
  qed
  show ?case
  proof (cases m)
    case Wr
    with m Cons.prems disj show ?thesis by auto
  next
    case Rd
    obtain s' where s': "wake_waiter w s = Some s'" "rw_core u0 s'"
      "owners Rd s' = insert w (owners Rd s)" "owners Wr s' = owners Wr s"
      "wait_list (sem s') = ws" "activity (sem s') = activity (sem s)"
      "\<And>t. w_flags (waiters s' t) = w_flags (waiters s t)"
      by (rule wake_waiter_core [of u0 s w Rd]) (use Cons.prems m Rd in auto)
    have fl: "w_flags (waiters s w) AND RWSEM_WAITING_FOR_READ \<noteq> 0"
      using m Rd flag_tests(1) [of Rd] by simp
    show ?thesis
    proof (cases "ws = []")
      case True
      with s' fl Cons.prems disj m Rd show ?thesis by auto
    next
      case False
      with Cons.IH [OF s'(2,5), of "n + 1"] s' fl m Rd disj show ?thesis by auto
    qed
  qed
qed

lemma rw_core_front:
  "rw_core u0 s \<Longrightarrow> wait_list (sem s) \<noteq> [] \<Longrightarrow>
     \<exists>m. w_flags (waiters s (hd (wait_list (sem s)))) = flag_of m"
  by (auto simp: rw_core_def dest!: hd_in_set)

lemma wake_rd_inv:
  assumes core: "rw_core u0 s" and wr: "owners Wr s = {}"
    and act: "activity (sem s) = int (card (owners Rd s))" and wl: "wait_list (sem s) = w # ws"
    and pos: "w_flags (waiters s w) = flag_of Rd \<or> activity (sem s) > 0"
  shows "\<exists>n s'. rwsem_wake_readers (w # ws) 0 s = Some (n, s') \<and>
           rw_inv u0 (set_activity (activity (sem s') + n) s')"
proof -
  let ?P = "\<lambda>t. w_flags (waiters s t) = flag_of Rd"
  let ?rs = "takeWhile ?P (w # ws)"
  obtain s' where s': "rwsem_wake_readers (w # ws) 0 s = Some (int (length ?rs), s')"
    "rw_core u0 s'" "activity (sem s') = activity (sem s)" "wait_list (sem s') = dropWhile ?P (w # ws)"
    "owners Rd s' = owners Rd s \<union> set ?rs" "owners Wr s' = owners Wr s"
    "\<forall>t. w_flags (waiters s' t) = w_flags (waiters s t)" "owners Rd s \<inter> set (w # ws) = {}"
    using wake_readers_core [OF core wl, of 0] by auto
  have dist: "distinct (w # ws)" using core wl by (auto simp: rw_core_def)
  have "owners Rd s \<inter> set ?rs = {}" using s'(8) set_takeWhileD [of _ ?P "w # ws"] by blast
  then have "card (owners Rd s') = card (owners Rd s) + card (set ?rs)"
    unfolding s'(5) by (rule card_Un_disjoint [OF owners_finite [OF core] finite_set])
  also have "card (set ?rs) = length ?rs"
    by (intro distinct_card distinct_takeWhile dist)
  finally have cnt: "rw_count (set_activity (activity (sem s') + int (length ?rs)) s')"
    using s'(3,6) wr act by (simp add: rw_count_def)
  have "front_writer (set_activity (activity (sem s') + int (length ?rs)) s')"
  proof (cases "wait_list (sem s') = []")
    case True
    then show ?thesis by (simp add: front_writer_def)
  next
    case False
    then obtain m where m: "w_flags (waiters s' (hd (wait_list (sem s')))) = flag_of m"
      using rw_core_front [OF s'(2)] by blast
    with False have "m = Wr"
      using dropWhile_hd_neg [of ?P "w # ws"] s'(4,7) by (cases m) auto
    with m pos s'(3) act show ?thesis by (auto simp: front_writer_def)
  qed
  with cnt s'(1,2) show ?thesis by (auto simp: rw_inv_def)
qed

lemma wake_writer_inv:
  assumes core: "rw_core u0 s" and own: "owners Wr s = {}" "owners Rd s = {}"
    and wl: "wait_list (sem s) = w # ws" and wr: "w_flags (waiters s w) = flag_of Wr"
  shows "\<exists>s'. wake_waiter w (set_activity (- 1) s) = Some s' \<and> rw_inv u0 s' \<and>
           owners Wr s' = {w} \<and> wait_list (sem s') = ws"
proof -
  obtain s' where s': "wake_waiter w (set_activity (- 1) s) = Some s'" "rw_core u0 s'"
    "owners Wr s' = insert w (owners Wr s)" "owners Rd s' = owners Rd s"
    "activity (sem s') = - 1" "wait_list (sem s') = ws"
    by (rule wake_waiter_core [of u0 "set_activity (- 1) s" w Wr]) (use core wl wr in auto)
  with own show ?thesis by (auto simp: rw_inv_def rw_count_def front_writer_def)
qed

lemma do_wake_inv:
  assumes core: "rw_core u0 s" and wr: "owners Wr s = {}"
    and act: "activity (sem s) = int (card (owners Rd s))" and wl: "wait_list (sem s) \<noteq> []"
    and ww: "if ww then activity (sem s) = 0 else activity (sem s) > 0"
  shows "\<exists>s'. uu_rwsem_do_wake ww s = Some s' \<and> rw_inv u0 s'"
proof -
  obtain w ws where w: "wait_list (sem s) = w # ws" using wl by (cases "wait_list (sem s)") auto
  obtain m where m: "w_flags (waiters s w) = flag_of m" using rw_core_front [OF core wl] w by auto
  show ?thesis
  proof (cases "m = Wr")
    case True
    show ?thesis
    proof (cases ww)
      case True
      with ww act owners_finite [OF core] have "owners Rd s = {}" by simp
      with wake_writer_inv [OF core wr _ w] m \<open>m = Wr\<close> True w show ?thesis
        by (auto simp: uu_rwsem_do_wake_def)
    next
      case False
      with True w m core wr act ww show ?thesis
        by (auto simp: uu_rwsem_do_wake_def rw_inv_def rw_count_def front_writer_def)
    qed
  next
    case False
    then have "m = Rd" by (cases m) auto
    with wake_rd_inv [OF core wr act w] m w show ?thesis
      by (fastforce simp: uu_rwsem_do_wake_def Let_def)
  qed
qed

lemma rw_core_set_pc_awake:
  assumes "rw_core u0 s" "sleep_mode (pcs s t) = None" "sleep_mode p = None"
  shows "rw_core u0 (set_pc t p s)"
proof -
  have "{t'. pcs (set_pc t p s) t' \<noteq> Outside} \<subseteq> insert t {t'. pcs s t' \<noteq> Outside}"
    by (auto simp: set_pc_def)
  then have "finite {t'. pcs (set_pc t p s) t' \<noteq> Outside}"
    using assms(1) by (auto simp: rw_core_def intro: finite_subset)
  then show ?thesis using assms unfolding rw_core_def set_pc_def
    by (auto split: if_splits)
qed

lemma set_pc_simps [simp]:
  "sem (set_pc t p s) = sem s" "waiters (set_pc t p s) = waiters s" "tasks (set_pc t p s) = tasks s"
  by (simp_all add: set_pc_def)

lemma owners_set_pc:
  "sleep_mode (pcs s t) = None \<Longrightarrow> sleep_mode p = None \<Longrightarrow>
     owners m (set_pc t p s) = (if p = Holding m then insert t (owners m s) else owners m s - {t})"
  by (auto simp: owners_def set_pc_def)

lemma owner_iff_holding: "sleep_mode (pcs s t) = None \<Longrightarrow> t \<in> owners m s \<longleftrightarrow> pcs s t = Holding m"
  by (auto simp: owners_def)

lemma grant_inv:
  assumes inv: "rw_inv u0 s" and out: "pcs s t = Outside" and wl: "wait_list (sem s) = []"
  shows "activity (sem s) \<ge> 0 \<Longrightarrow> rw_inv u0 (set_pc t (Holding Rd) (set_activity (activity (sem s) + 1) s))"
    and "activity (sem s) = 0 \<Longrightarrow> rw_inv u0 (set_pc t (Holding Wr) (set_activity (- 1) s))"
proof -
  have core: "rw_core u0 s" using inv by (simp add: rw_inv_def)
  have nt: "t \<notin> owners Rd s" "t \<notin> owners Wr s" using out by (simp_all add: owner_iff_holding)
  have fin: "finite (owners Rd s)" by (rule owners_finite [OF core])
  { assume "activity (sem s) \<ge> 0"
    with inv nt fin wl out show "rw_inv u0 (set_pc t (Holding Rd) (set_activity (activity (sem s) + 1) s))"
      by (auto simp: rw_inv_def rw_count_def front_writer_def owners_set_pc rw_core_set_pc_awake) }
  { assume "activity (sem s) = 0"
    with inv nt fin wl out show "rw_inv u0 (set_pc t (Holding Wr) (set_activity (- 1) s))"
      by (auto simp: rw_inv_def rw_count_def front_writer_def owners_set_pc rw_core_set_pc_awake) }
qed

lemma enqueue_inv:
  assumes inv: "rw_inv u0 s" and out: "pcs s t = Outside"
    and busy: "wait_list (sem s) \<noteq> [] \<or> activity (sem s) < 0 \<or> activity (sem s) \<noteq> 0 \<and> m = Wr"
  shows "rw_inv u0 (rwsem_enqueue t m s)"
proof -
  let ?s' = "rwsem_enqueue t m s"
  have core: "rw_core u0 s" using inv by (simp add: rw_inv_def)
  have nin: "t \<notin> set (wait_list (sem s))" using core out by (auto simp: rw_core_def)
  have wl': "wait_list (sem ?s') = wait_list (sem s) @ [t]" and ac': "activity (sem ?s') = activity (sem s)"
    and fl': "w_flags (waiters ?s' t') = (if t' = t then flag_of m else w_flags (waiters s t'))" for t'
    by (simp_all add: rwsem_enqueue_def Let_def rw_step_defs flag_of_def)
  have fin: "finite {t'. pcs ?s' t' \<noteq> Outside}"
    by (rule finite_subset [of _ "insert t {t'. pcs s t' \<noteq> Outside}"])
      (use core in \<open>auto simp: rw_core_def rwsem_enqueue_def Let_def rw_step_defs\<close>)
  then have core': "rw_core u0 ?s'"
    using core nin unfolding rw_core_def
    by (auto simp: rwsem_enqueue_def Let_def rw_step_defs flag_of_def split: if_splits)
  have own: "owners m' ?s' = owners m' s" for m'
    using out by (auto simp: owners_def rwsem_enqueue_def Let_def rw_step_defs)
  have nonzero: "activity (sem s) \<noteq> 0" using inv busy by (auto simp: rw_inv_def front_writer_def)
  have "front_writer ?s'"
    using inv busy nonzero nin
    by (cases "wait_list (sem s)") (auto simp: rw_inv_def front_writer_def wl' ac' fl')
  moreover have "rw_count ?s'" using inv by (simp add: rw_inv_def rw_count_def own ac')
  ultimately show ?thesis using core' by (simp add: rw_inv_def)
qed

lemma down_inv:
  assumes inv: "rw_inv u0 s" and out: "pcs s t = Outside"
  shows "rw_inv u0 (uu_down_read t s)" "rw_inv u0 (uu_down_write t s)"
    "rw_inv u0 (snd (uu_down_read_trylock t s))" "rw_inv u0 (snd (uu_down_write_trylock t s))"
proof -
  have "activity (sem s) = 0 \<Longrightarrow> wait_list (sem s) = []" using inv by (auto simp: rw_inv_def front_writer_def)
  then show "rw_inv u0 (uu_down_read t s)" "rw_inv u0 (uu_down_write t s)"
    "rw_inv u0 (snd (uu_down_read_trylock t s))" "rw_inv u0 (snd (uu_down_write_trylock t s))"
    using inv out grant_inv [OF inv out] enqueue_inv [OF inv out]
    by (auto simp: uu_down_read_def uu_down_write_def uu_down_read_trylock_def uu_down_write_trylock_def)
qed

lemma holding_reader:
  assumes inv: "rw_inv u0 s" and h: "pcs s t = Holding Rd"
  shows "owners Wr s = {}" "activity (sem s) = int (card (owners Rd s))" "activity (sem s) > 0"
    "card (owners Rd s - {t}) = card (owners Rd s) - 1"
proof -
  have t: "t \<in> owners Rd s" using h by (simp add: owners_def)
  have fin: "finite (owners Rd s)" using inv owners_finite by (auto simp: rw_inv_def)
  show a: "owners Wr s = {}" "activity (sem s) = int (card (owners Rd s))"
    using inv t by (auto simp: rw_inv_def rw_count_def)
  show "activity (sem s) > 0" using a t fin by (auto simp: card_gt_0_iff)
  show "card (owners Rd s - {t}) = card (owners Rd s) - 1" using t fin by (simp add: card_Diff_singleton)
qed

lemma holding_writer:
  assumes inv: "rw_inv u0 s" and h: "pcs s t = Holding Wr"
  shows "owners Wr s = {t}" "owners Rd s = {}" "activity (sem s) = - 1"
proof -
  have "t \<in> owners Wr s" using h by (simp add: owners_def)
  then show "owners Wr s = {t}" "owners Rd s = {}" "activity (sem s) = - 1"
    using inv by (auto simp: rw_inv_def rw_count_def)
qed

lemma up_read_inv:
  assumes inv: "rw_inv u0 s" and h: "pcs s t = Holding Rd"
  shows "\<exists>s'. uu_up_read t s = Some s' \<and> rw_inv u0 s'"
proof -
  note r = holding_reader [OF inv h]
  let ?s1 = "set_pc t Outside (set_activity (activity (sem s) - 1) s)"
  have core: "rw_core u0 ?s1" using inv h by (auto simp: rw_inv_def intro!: rw_core_set_pc_awake)
  have own: "owners Rd ?s1 = owners Rd s - {t}" "owners Wr ?s1 = {}"
    using h r by (simp_all add: owners_set_pc)
  show ?thesis
  proof (cases "activity (sem s) = 1 \<and> wait_list (sem s) \<noteq> []")
    case True
    then obtain w ws where w: "wait_list (sem s) = w # ws" by (cases "wait_list (sem s)") auto
    have fl: "w_flags (waiters s w) = flag_of Wr" using inv True w by (auto simp: rw_inv_def front_writer_def)
    have "owners Rd s - {t} = {}"
      using r True inv owners_finite [of u0 s Rd] by (simp add: rw_inv_def)
    then have "\<exists>s'. wake_waiter w (set_activity (- 1) ?s1) = Some s' \<and> rw_inv u0 s'"
      using wake_writer_inv [of u0 ?s1 w ws] core own w fl by auto
    with True w show ?thesis
      by (auto simp: uu_up_read_def uu_rwsem_wake_one_writer_def Let_def)
  next
    case False
    have "rw_inv u0 ?s1"
      using inv core own r False by (auto simp: rw_inv_def rw_count_def front_writer_def)
    with False show ?thesis by (auto simp: uu_up_read_def Let_def)
  qed
qed

lemma release_writer:
  assumes inv: "rw_inv u0 s" and h: "pcs s t = Holding Wr" and p: "p \<in> {Outside, Holding Rd}"
    and a: "a = (if p = Outside then 0 else 1)"
  shows "rw_core u0 (set_pc t p (set_activity a s))" "owners Wr (set_pc t p (set_activity a s)) = {}"
    "a = int (card (owners Rd (set_pc t p (set_activity a s))))"
proof -
  note w = holding_writer [OF inv h]
  show "rw_core u0 (set_pc t p (set_activity a s))"
    using inv h p by (auto simp: rw_inv_def intro!: rw_core_set_pc_awake)
  show "owners Wr (set_pc t p (set_activity a s)) = {}"
    "a = int (card (owners Rd (set_pc t p (set_activity a s))))"
    using h p a w by (auto simp: owners_set_pc)
qed

lemma up_write_inv:
  assumes inv: "rw_inv u0 s" and h: "pcs s t = Holding Wr"
  shows "\<exists>s'. uu_up_write t s = Some s' \<and> rw_inv u0 s'"
proof -
  note r = release_writer [OF inv h, of Outside 0, simplified]
  show ?thesis
  proof (cases "wait_list (sem s) = []")
    case True
    with r show ?thesis by (simp add: uu_up_write_def Let_def rw_inv_def rw_count_def front_writer_def)
  next
    case False
    with do_wake_inv [OF r(1,2), of True] r(3) show ?thesis by (auto simp: uu_up_write_def Let_def)
  qed
qed

lemma downgrade_inv:
  assumes inv: "rw_inv u0 s" and h: "pcs s t = Holding Wr"
  shows "\<exists>s'. uu_downgrade_write t s = Some s' \<and> rw_inv u0 s'"
proof -
  note r = release_writer [OF inv h, of "Holding Rd" 1, simplified]
  show ?thesis
  proof (cases "wait_list (sem s) = []")
    case True
    with r show ?thesis by (simp add: uu_downgrade_write_def Let_def rw_inv_def rw_count_def front_writer_def)
  next
    case False
    with do_wake_inv [OF r(1,2), of False] r(3) show ?thesis by (auto simp: uu_downgrade_write_def Let_def)
  qed
qed

lemma sleep_inv_aux:
  assumes inv: "rw_inv u0 s" and core: "rw_core u0 s'" and eq: "sem s' = sem s" "waiters s' = waiters s"
    and own: "\<And>m. owners m s' = owners m s"
  shows "rw_inv u0 s'"
  using inv core by (simp add: rw_inv_def rw_count_def front_writer_def eq own)

lemma sleep_inv:
  assumes inv: "rw_inv u0 s"
  shows "pcs s t = Checking m \<Longrightarrow> rw_inv u0 (sleep_check t m s)"
    and "pcs s t = Scheduling m \<Longrightarrow> rw_inv u0 (set_pc t (Resuming m) s)"
    and "pcs s t = Resuming m \<Longrightarrow> rw_inv u0 (sleep_resume t m s)"
proof -
  have core: "rw_core u0 s" using inv by (simp add: rw_inv_def)
  have fin: "finite {t'. (if t' = t then p else pcs s t') \<noteq> Outside}" for p
    by (rule finite_subset [of _ "insert t {t'. pcs s t' \<noteq> Outside}"]) (use core in \<open>auto simp: rw_core_def\<close>)
  { assume p: "pcs s t = Checking m"
    have "rw_core u0 (sleep_check t m s)"
      using core p fin [of "Holding m"] fin [of "Scheduling m"]
      by (auto simp: rw_core_def sleep_check_def rw_step_defs)
    then show "rw_inv u0 (sleep_check t m s)"
      by (rule sleep_inv_aux [OF inv]) (use p in \<open>auto simp: sleep_check_def rw_step_defs owners_def\<close>) }
  { assume p: "pcs s t = Scheduling m"
    have "rw_core u0 (set_pc t (Resuming m) s)"
      using core p fin [of "Resuming m"] by (auto simp: rw_core_def rw_step_defs)
    then show "rw_inv u0 (set_pc t (Resuming m) s)"
      by (rule sleep_inv_aux [OF inv]) (use p in \<open>auto simp: rw_step_defs owners_def\<close>) }
  { assume p: "pcs s t = Resuming m"
    have "rw_core u0 (sleep_resume t m s)"
      using core p fin [of "Checking m"] by (auto simp: rw_core_def sleep_resume_def rw_step_defs)
    then show "rw_inv u0 (sleep_resume t m s)"
      by (rule sleep_inv_aux [OF inv]) (use p in \<open>auto simp: sleep_resume_def rw_step_defs owners_def\<close>) }
qed

lemma rw_inv_step: "rwsem_step s s' \<Longrightarrow> rw_inv u0 s \<Longrightarrow> rw_inv u0 s'"
proof (induction rule: rwsem_step.induct)
  case (down_read_trylock s t r s')
  then show ?case using down_inv(3) [of u0 s t] by simp
next
  case (down_write_trylock s t r s')
  then show ?case using down_inv(4) [of u0 s t] by simp
next
  case (up_read s t s')
  then show ?case using up_read_inv [of u0 s t] by auto
next
  case (up_write s t s')
  then show ?case using up_write_inv [of u0 s t] by auto
next
  case (downgrade_write s t s')
  then show ?case using downgrade_inv [of u0 s t] by auto
qed (simp_all add: down_inv sleep_inv)

lemma rw_inv_start: "rw_inv u0 (rwsem_start u0)"
  by (simp add: rw_inv_def rw_core_def rw_count_def front_writer_def rwsem_start_def
      compat_init_rwsem_def owners_def)

lemma reachable_rw_inv: "rwsem_reachable u0 s \<Longrightarrow> rw_inv u0 s"
  by (induction rule: rwsem_reachable.induct) (auto intro: rw_inv_start rw_inv_step)


text \<open>What the release of a write lock does to the queue: its front waiter gets the semaphore.\<close>

lemma do_wake_serves_front:
  assumes core: "rw_core u0 s" and wl: "wait_list (sem s) = w # ws"
    and s': "uu_rwsem_do_wake True s = Some s'"
  shows "w \<in> owners Rd s' \<union> owners Wr s' \<and> (\<exists>k\<ge>1. wait_list (sem s') = drop k (w # ws))"
proof -
  let ?P = "\<lambda>t. w_flags (waiters s t) = flag_of Rd"
  obtain m where m: "w_flags (waiters s w) = flag_of m" using rw_core_front [OF core] wl by auto
  show ?thesis
  proof (cases m)
    case Wr
    obtain s'' where "wake_waiter w (set_activity (- 1) s) = Some s''"
      "owners Wr s'' = insert w (owners Wr s)" "wait_list (sem s'') = ws"
      by (rule wake_waiter_core [of u0 "set_activity (- 1) s" w Wr]) (use core wl m Wr in auto)
    with s' wl m Wr show ?thesis by (auto simp: uu_rwsem_do_wake_def intro!: exI [of _ 1])
  next
    case Rd
    have *: "dropWhile ?P ws = drop (length (takeWhile ?P ws)) ws"
      by (rule dropWhile_eq_drop)
    from wake_readers_core [OF core wl, of 0] s' wl m Rd show ?thesis
      by (auto simp: uu_rwsem_do_wake_def Let_def *
          intro!: exI [of _ "length (takeWhile ?P (w # ws))"])
  qed
qed

section \<open>Properties\<close>

text \<open>
  C1. Mutual exclusion. In every reachable state of any number of tasks using the
  semaphore, a task that holds it for writing is alone: no other task holds it in any mode.
\<close>

theorem rwsem_writer_exclusive:
  assumes "rwsem_reachable u0 s" and "pcs s t = Holding Wr" and "t' \<noteq> t"
  shows "pcs s t' \<noteq> Holding m"
proof
  assume h: "pcs s t' = Holding m"
  have inv: "rw_inv u0 s" using assms(1) by (rule reachable_rw_inv)
  from holding_writer [OF inv assms(2)] h assms(3) show False
    by (cases m) (auto simp: owners_def)
qed

text \<open>
  C2. No release can oops, and the last reader hands over correctly. A task that holds the
  semaphore can always release or downgrade it without dereferencing a bad pointer, although
  \<open>__up_read\<close> calls \<open>__rwsem_wake_one_writer\<close> without looking at the waiter's
  flags: whenever readers are active, the waiter at the front of the queue is a writer.
\<close>

theorem rwsem_release_safe:
  assumes "rwsem_reachable u0 s"
  shows "(pcs s t = Holding Rd \<longrightarrow> (\<exists>s'. uu_up_read t s = Some s')) \<and>
    (pcs s t = Holding Wr \<longrightarrow> (\<exists>s'. uu_up_write t s = Some s') \<and> (\<exists>s'. uu_downgrade_write t s = Some s')) \<and>
    (activity (sem s) > 0 \<and> wait_list (sem s) \<noteq> [] \<longrightarrow>
       w_flags (waiters s (hd (wait_list (sem s)))) = RWSEM_WAITING_FOR_WRITE)"
proof -
  have inv: "rw_inv u0 s" using assms by (rule reachable_rw_inv)
  then have "front_writer s" by (simp add: rw_inv_def)
  moreover have "pcs s t = Holding Rd \<Longrightarrow> \<exists>s'. uu_up_read t s = Some s'"
    using up_read_inv [OF inv] by blast
  moreover have "pcs s t = Holding Wr \<Longrightarrow> (\<exists>s'. uu_up_write t s = Some s') \<and> (\<exists>s'. uu_downgrade_write t s = Some s')"
    using up_write_inv [OF inv] downgrade_inv [OF inv] by blast
  ultimately show ?thesis by (simp add: front_writer_def flag_of_simps)
qed

text \<open>
  C3. No lost wake-up. A sleeping task is either still queued, and then some task owns the
  semaphore and will serve the queue, or it has been handed the semaphore, and then it is
  never stuck in \<open>schedule()\<close>: it has a step that takes it on. Its reference count is
  the initial one, plus one exactly while it is queued.
\<close>

theorem rwsem_no_lost_wakeup:
  assumes "rwsem_reachable u0 s" and "sleep_mode (pcs s t) = Some m"
  shows "if t \<in> set (wait_list (sem s))
         then owners Rd s \<union> owners Wr s \<noteq> {} \<and> t_usage (tasks s t) = u0 t + 1
         else t \<in> owners m s \<and> (\<exists>s'. rwsem_step s s' \<and> pcs s' t \<noteq> pcs s t) \<and> t_usage (tasks s t) = u0 t"
proof -
  have inv: "rw_inv u0 s" using assms(1) by (rule reachable_rw_inv)
  then have core: "rw_core u0 s" by (simp add: rw_inv_def)
  have "t \<in> owners m s \<and> (\<exists>s'. rwsem_step s s' \<and> pcs s' t \<noteq> pcs s t)" if nin: "t \<notin> set (wait_list (sem s))"
  proof
    have nul: "w_task (waiters s t) = None" using core assms(2) nin by (auto simp: rw_core_def)
    then show "t \<in> owners m s" using assms(2) by (simp add: owners_def)
    have run: "pcs s t = Scheduling m' \<Longrightarrow> t_state (tasks s t) = TASK_RUNNING" for m'
      using core nul by (auto simp: rw_core_def)
    from assms(2) show "\<exists>s'. rwsem_step s s' \<and> pcs s' t \<noteq> pcs s t"
    proof (cases "pcs s t")
      case (Checking m')
      from rwsem_step.check [OF Checking] Checking nul show ?thesis
        by (intro exI conjI) (assumption, simp add: sleep_check_def rw_step_defs)
    next
      case (Scheduling m')
      from rwsem_step.schedule [OF Scheduling run [OF Scheduling]] Scheduling show ?thesis
        by (intro exI conjI) (assumption, simp add: rw_step_defs)
    next
      case (Resuming m')
      from rwsem_step.resume [OF Resuming] Resuming show ?thesis
        by (intro exI conjI) (assumption, simp add: sleep_resume_def rw_step_defs)
    qed auto
  qed
  moreover have "owners Rd s \<union> owners Wr s \<noteq> {}" if "t \<in> set (wait_list (sem s))"
    using inv that by (auto simp: rw_inv_def rw_count_def front_writer_def)
  moreover have "t_usage (tasks s t) = u0 t + (if t \<in> set (wait_list (sem s)) then 1 else 0)"
    using core by (simp add: rw_core_def)
  ultimately show ?thesis by simp
qed

text \<open>
  C4. A releasing writer serves the queue in order: the waiter at the front owns the
  semaphore afterwards, and the queue that remains is a proper suffix of the old one.
\<close>

theorem rwsem_up_write_fifo:
  assumes "rwsem_reachable u0 s" and "pcs s t = Holding Wr" and "wait_list (sem s) = w # ws"
  shows "\<exists>s'. uu_up_write t s = Some s' \<and> w \<in> owners Rd s' \<union> owners Wr s' \<and>
           (\<exists>k\<ge>1. wait_list (sem s') = drop k (w # ws))"
proof -
  have inv: "rw_inv u0 s" using assms(1) by (rule reachable_rw_inv)
  obtain s' where s': "uu_up_write t s = Some s'" using up_write_inv [OF inv assms(2)] by blast
  have core: "rw_core u0 (set_pc t Outside (set_activity 0 s))"
    by (rule release_writer [OF inv assms(2)]) simp_all
  have "uu_rwsem_do_wake True (set_pc t Outside (set_activity 0 s)) = Some s'"
    using s' assms(3) by (simp add: uu_up_write_def Let_def)
  with do_wake_serves_front [OF core _ this] assms(3) s' show ?thesis by auto
qed

section \<open>Witnesses\<close>

text \<open>
  A run of three tasks: task 1 takes the write lock, task 2 queues as a reader and task 3 as
  a writer; task 2 goes to sleep.
\<close>

definition rw_run :: rwsem_sys where
  "rw_run = sleep_check 2 Rd (uu_down_write 3 (uu_down_read 2 (uu_down_write 1 (rwsem_start (\<lambda>_. 1)))))"

lemmas rw_eval = rw_run_def sleep_check_def uu_down_write_def uu_down_read_def rwsem_start_def
  compat_init_rwsem_def rwsem_enqueue_def Let_def set_task_state_def get_task_struct_def set_activity_def
  set_pc_def

lemma rw_run_reachable: "rwsem_reachable (\<lambda>_. 1) rw_run"
proof -
  let ?s1 = "uu_down_write 1 (rwsem_start (\<lambda>_. 1))"
  let ?s2 = "uu_down_read 2 ?s1"
  let ?s3 = "uu_down_write 3 ?s2"
  have "rwsem_reachable (\<lambda>_. 1) ?s1"
    by (rule rwsem_reachable.step [OF rwsem_reachable.start rwsem_step.down_write]) (simp add: rw_eval)
  then have "rwsem_reachable (\<lambda>_. 1) ?s2"
    by (rule rwsem_reachable.step [OF _ rwsem_step.down_read]) (simp add: rw_eval)
  then have "rwsem_reachable (\<lambda>_. 1) ?s3"
    by (rule rwsem_reachable.step [OF _ rwsem_step.down_write]) (simp add: rw_eval)
  then show ?thesis
    unfolding rw_run_def
    by (rule rwsem_reachable.step [OF _ rwsem_step.check]) (simp add: rw_eval)
qed

theorem rwsem_writer_exclusive_witness: "pcs rw_run 1 = Holding Wr \<and> pcs rw_run 2 \<noteq> Holding Rd"
proof -
  have h: "pcs rw_run 1 = Holding Wr" by (simp add: rw_eval)
  show ?thesis using h rwsem_writer_exclusive [OF rw_run_reachable h, of 2 Rd] by simp
qed

theorem rwsem_release_safe_witness: "pcs rw_run 1 = Holding Wr \<and> (\<exists>s'. uu_up_write 1 rw_run = Some s')"
proof -
  have h: "pcs rw_run 1 = Holding Wr" by (simp add: rw_eval)
  show ?thesis using h rwsem_release_safe [OF rw_run_reachable, of 1] by simp
qed

theorem rwsem_no_lost_wakeup_witness:
  "pcs rw_run 2 = Scheduling Rd \<and> owners Rd rw_run \<union> owners Wr rw_run \<noteq> {} \<and> t_usage (tasks rw_run 2) = 2"
proof -
  have h: "pcs rw_run 2 = Scheduling Rd" "2 \<in> set (wait_list (sem rw_run))" by (simp_all add: rw_eval)
  show ?thesis using h rwsem_no_lost_wakeup [OF rw_run_reachable, of 2 Rd] by simp
qed

theorem rwsem_up_write_fifo_witness:
  "\<exists>s'. uu_up_write 1 rw_run = Some s' \<and> 2 \<in> owners Rd s' \<union> owners Wr s'"
proof -
  have h: "pcs rw_run 1 = Holding Wr" "wait_list (sem rw_run) = 2 # [3]" by (simp_all add: rw_eval)
  show ?thesis using rwsem_up_write_fifo [OF rw_run_reachable h] by blast
qed

end
