(* ===== verification/Bitops.thy ===== *)
theory Bitops
  imports Kernel_Prelude
begin

text \<open>
  The bit searches and population counts of \<open>include/linux/bitops.h\<close> and
  \<open>include/asm-arm/bitops.h\<close>, and \<open>roundup_pow_of_two\<close> of
  \<open>include/linux/kernel.h\<close>. The C code narrows a window by testing masks and shifting;
  the lemmas relate it to the position of the lowest or highest set bit and to the number
  of set bits. A signed right shift is \<open>signed_drop_bit\<close>.
\<close>

section \<open>Definitions\<close>

text \<open>One \<open>if (!(x & m)) { x >>= h; r += h; }\<close> of the search for the first bit.\<close>

definition ffs_step :: "u32 \<Rightarrow> nat \<Rightarrow> u32 \<times> nat \<Rightarrow> u32 \<times> nat" where
  "ffs_step m h = (\<lambda>(x, r). if x AND m = 0 then (signed_drop_bit h x, r + h) else (x, r))"

definition generic_ffs :: "u32 \<Rightarrow> nat" where
  "generic_ffs x =
     (if x = 0 then 0
      else snd (ffs_step 1 1 (ffs_step 3 2 (ffs_step 0xf 4 (ffs_step 0xff 8 (ffs_step 0xffff 16 (x, 1)))))))"

text \<open>One \<open>if (!(x & m)) { x <<= h; r -= h; }\<close> of the search for the last bit.\<close>

definition fls_step :: "u32 \<Rightarrow> nat \<Rightarrow> u32 \<times> nat \<Rightarrow> u32 \<times> nat" where
  "fls_step m h = (\<lambda>(x, r). if x AND m = 0 then (push_bit h x, r - h) else (x, r))"

definition generic_fls :: "u32 \<Rightarrow> nat" where
  "generic_fls x =
     (if x = 0 then 0
      else snd (fls_step 0x80000000 1 (fls_step 0xc0000000 2 (fls_step 0xf0000000 4
             (fls_step 0xff000000 8 (fls_step 0xffff0000 16 (x, 32)))))))"

definition get_bitmask_order :: "u32 \<Rightarrow> nat" where
  "get_bitmask_order count = generic_fls count"

definition roundup_pow_of_two :: "u32 \<Rightarrow> u32" where
  "roundup_pow_of_two x = push_bit (generic_fls (x - 1)) 1"

text \<open>One \<open>if (word & m) { k -= h; word <<= h; }\<close>; the last test of the source does
  not shift the word any more, which nothing reads afterwards.\<close>

definition arm_ffs_step :: "u32 \<Rightarrow> nat \<Rightarrow> u32 \<times> nat \<Rightarrow> u32 \<times> nat" where
  "arm_ffs_step m h = (\<lambda>(word, k). if word AND m \<noteq> 0 then (push_bit h word, k - h) else (word, k))"

definition arm_ffs :: "u32 \<Rightarrow> nat" where
  "arm_ffs word =
     (let (word, k) = arm_ffs_step 0x30000000 2 (arm_ffs_step 0x0f000000 4
                        (arm_ffs_step 0x00ff0000 8 (arm_ffs_step 0x0000ffff 16 (word, 31))))
      in if word AND 0x40000000 \<noteq> 0 then k - 1 else k)"

fun sched_find_word :: "(nat \<Rightarrow> u32) \<Rightarrow> nat \<Rightarrow> nat \<Rightarrow> nat" where
  "sched_find_word b off 0 = off"
| "sched_find_word b off (Suc n) = (if b off \<noteq> 0 then off else sched_find_word b (off + 1) n)"

definition sched_find_first_bit :: "(nat \<Rightarrow> u32) \<Rightarrow> nat" where
  "sched_find_first_bit b = (let off = sched_find_word b 0 4 in arm_ffs (b off) + off * 32)"

definition generic_hweight32 :: "u32 \<Rightarrow> u32" where
  "generic_hweight32 w =
     (let res = (w AND 0x55555555) + (drop_bit 1 w AND 0x55555555);
          res = (res AND 0x33333333) + (drop_bit 2 res AND 0x33333333);
          res = (res AND 0x0F0F0F0F) + (drop_bit 4 res AND 0x0F0F0F0F);
          res = (res AND 0x00FF00FF) + (drop_bit 8 res AND 0x00FF00FF)
      in (res AND 0x0000FFFF) + (drop_bit 16 res AND 0x0000FFFF))"

definition generic_hweight16 :: "u32 \<Rightarrow> u32" where
  "generic_hweight16 w =
     (let res = (w AND 0x5555) + (drop_bit 1 w AND 0x5555);
          res = (res AND 0x3333) + (drop_bit 2 res AND 0x3333);
          res = (res AND 0x0F0F) + (drop_bit 4 res AND 0x0F0F)
      in (res AND 0x00FF) + (drop_bit 8 res AND 0x00FF))"

definition generic_hweight8 :: "u32 \<Rightarrow> u32" where
  "generic_hweight8 w =
     (let res = (w AND 0x55) + (drop_bit 1 w AND 0x55);
          res = (res AND 0x33) + (drop_bit 2 res AND 0x33)
      in (res AND 0x0F) + (drop_bit 4 res AND 0x0F))"

definition generic_hweight64 :: "u64 \<Rightarrow> u32" where
  "generic_hweight64 w = generic_hweight32 (ucast (drop_bit 32 w)) + generic_hweight32 (ucast w)"

definition hweight_long :: "u32 \<Rightarrow> u32" where
  "hweight_long w = generic_hweight32 w"

section \<open>Lowest set bit\<close>

text \<open>
  The state of a search for the lowest set bit: \<open>x\<close> shows, in its low \<open>m\<close> bits, the
  bits of \<open>x0\<close> from position \<open>s\<close> on; one of them is set and none below \<open>s\<close> is.
\<close>

definition low_window :: "u32 \<Rightarrow> u32 \<Rightarrow> nat \<Rightarrow> nat \<Rightarrow> bool" where
  "low_window x0 x s m \<longleftrightarrow> s + m \<le> 32 \<and> (\<forall>i<m. bit x i = bit x0 (i + s)) \<and>
     (\<forall>i < s. \<not> bit x0 i) \<and> (\<exists>i<m. bit x i)"

lemma and_mask_zero: "(x::'a::len word) AND mask h = 0 \<longleftrightarrow> (\<forall>i<h. i < LENGTH('a) \<longrightarrow> \<not> bit x i)"
  by (auto simp: bit_eq_iff bit_simps)

lemma low_window_step:
  assumes w: "low_window x0 x s (2 * h)" and h: "0 < h"
  shows "low_window x0 (if x AND mask h = 0 then signed_drop_bit h x else x)
           (if x AND mask h = 0 then s + h else s) h"
proof (cases "x AND mask h = 0")
  case True
  have nb: "\<not> bit x i" if "i < h" for i
    using True that w by (auto simp: and_mask_zero low_window_def)
  have b: "bit (signed_drop_bit h x) i = bit x (i + h)" if "i < h" for i
    using that w by (auto simp: low_window_def bit_signed_drop_bit_iff add.commute)
  obtain i where i: "i < 2 * h" "bit x i" using w by (auto simp: low_window_def)
  with nb have "i - h < h" "bit x (i - h + h)" by (cases "i < h"; auto)+
  moreover have "\<not> bit x0 i" if "i < s + h" for i
    using that nb [of "i - s"] w by (cases "i < s") (auto simp: low_window_def)
  ultimately show ?thesis
    using True w b by (auto simp: low_window_def ac_simps intro!: exI [of _ "i - h"])
next
  case False
  then obtain i where "i < h" "bit x i" by (auto simp: and_mask_zero)
  with False w show ?thesis by (auto simp: low_window_def)
qed

lemma low_window_start: "x \<noteq> 0 \<Longrightarrow> low_window x x 0 32"
  by (auto simp: low_window_def bit_eq_iff)

lemma low_window_end: "low_window x0 x s 1 \<Longrightarrow> bit x0 s \<and> (\<forall>i < s. \<not> bit x0 i)"
  by (auto simp: low_window_def)

lemma ffs_masks:
  "(0xffff :: u32) = mask 16" "(0xff :: u32) = mask 8" "(0xf :: u32) = mask 4" "(3 :: u32) = mask 2"
  by (simp_all add: mask_numeral)

lemma ffs_step_window:
  "low_window x0 x s (2 * h) \<Longrightarrow> 0 < h \<Longrightarrow>
     \<exists>x' s'. ffs_step (mask h) h (x, s + 1) = (x', s' + 1) \<and> low_window x0 x' s' h"
  using low_window_step [of x0 x s h] by (auto simp: ffs_step_def split: if_splits)

lemma generic_ffs_correct:
  assumes "x \<noteq> 0"
  shows "0 < generic_ffs x \<and> bit x (generic_ffs x - 1) \<and> (\<forall>i < generic_ffs x - 1. \<not> bit x i)"
proof -
  obtain x1 s1 where 1: "ffs_step 0xffff 16 (x, 0 + 1) = (x1, s1 + 1)" "low_window x x1 s1 16"
    using ffs_step_window [of x x 0 16] low_window_start [OF assms] unfolding ffs_masks by auto
  obtain x2 s2 where 2: "ffs_step 0xff 8 (x1, s1 + 1) = (x2, s2 + 1)" "low_window x x2 s2 8"
    using ffs_step_window [of x x1 s1 8] 1 unfolding ffs_masks by auto
  obtain x3 s3 where 3: "ffs_step 0xf 4 (x2, s2 + 1) = (x3, s3 + 1)" "low_window x x3 s3 4"
    using ffs_step_window [of x x2 s2 4] 2 unfolding ffs_masks by auto
  obtain x4 s4 where 4: "ffs_step 3 2 (x3, s3 + 1) = (x4, s4 + 1)" "low_window x x4 s4 2"
    using ffs_step_window [of x x3 s3 2] 3 unfolding ffs_masks by auto
  obtain x5 s5 where 5: "ffs_step (mask 1) 1 (x4, s4 + 1) = (x5, s5 + 1)" "low_window x x5 s5 1"
    using ffs_step_window [of x x4 s4 1] 4 by auto
  have "generic_ffs x = s5 + 1"
    using assms 1(1) 2(1) 3(1) 4(1) 5(1) by (simp add: generic_ffs_def)
  with low_window_end [OF 5(2)] show ?thesis by simp
qed

section \<open>Highest set bit\<close>

definition high_window :: "u32 \<Rightarrow> u32 \<Rightarrow> nat \<Rightarrow> nat \<Rightarrow> bool" where
  "high_window x0 x s m \<longleftrightarrow> s + m \<le> 32 \<and> (\<forall>i. 32 - m \<le> i \<and> i < 32 \<longrightarrow> bit x i = bit x0 (i - s)) \<and>
     (\<forall>i. 32 - s \<le> i \<longrightarrow> \<not> bit x0 i) \<and> (\<exists>i. 32 - m \<le> i \<and> i < 32 \<and> bit x i)"

lemma and_top_zero:
  "h \<le> 32 \<Longrightarrow> (x::u32) AND push_bit (32 - h) (mask h) = 0 \<longleftrightarrow> (\<forall>i. 32 - h \<le> i \<and> i < 32 \<longrightarrow> \<not> bit x i)"
  by (auto simp: bit_eq_iff bit_simps)

lemma high_window_step:
  assumes w: "high_window x0 x s (2 * h)" and h: "0 < h"
  shows "high_window x0 (if x AND push_bit (32 - h) (mask h) = 0 then push_bit h x else x)
           (if x AND push_bit (32 - h) (mask h) = 0 then s + h else s) h"
proof (cases "x AND push_bit (32 - h) (mask h) = 0")
  case True
  have h32: "2 * h + s \<le> 32" using w by (simp add: high_window_def)
  have nb: "\<not> bit x i" if "32 - h \<le> i" "i < 32" for i
    using True that h32 by (auto simp: and_top_zero)
  have b: "bit (push_bit h x) i = bit x (i - h)" if "32 - h \<le> i" "i < 32" for i
    using that h32 by (auto simp: bit_push_bit_iff)
  have x0: "bit x i = bit x0 (i - s)" if "32 - 2 * h \<le> i" "i < 32" for i
    using that w by (auto simp: high_window_def)
  obtain i where i: "32 - 2 * h \<le> i" "i < 32" "bit x i" using w by (auto simp: high_window_def)
  with nb have ih: "i < 32 - h" by (meson not_le)
  have "\<not> bit x0 i" if "32 - (s + h) \<le> i" for i
  proof (cases "32 - s \<le> i")
    case True
    with w show ?thesis by (auto simp: high_window_def)
  next
    case False
    with that h32 have "32 - h \<le> i + s" "i + s < 32" by auto
    with nb x0 [of "i + s"] h32 show ?thesis by auto
  qed
  moreover have "32 - h \<le> i + h \<and> i + h < 32 \<and> bit (push_bit h x) (i + h)"
    using i ih h32 b [of "i + h"] by auto
  moreover have "bit (push_bit h x) j = bit x0 (j - (s + h))" if "32 - h \<le> j" "j < 32" for j
    using that b [of j] x0 [of "j - h"] h32 by (auto simp: add.commute)
  ultimately show ?thesis using True h32 by (auto simp: high_window_def)
next
  case False
  have h32: "2 * h + s \<le> 32" using w by (simp add: high_window_def)
  with False obtain i where "32 - h \<le> i" "i < 32" "bit x i" by (auto simp: and_top_zero)
  with False w h32 show ?thesis by (auto simp: high_window_def)
qed

lemma high_window_start: "x \<noteq> 0 \<Longrightarrow> high_window x x 0 32"
  using low_window_start [of x] bit_imp_le_length [of x]
  by (fastforce simp: high_window_def low_window_def)

lemma fls_masks:
  "(0xffff0000 :: u32) = push_bit (32 - 16) (mask 16)" "(0xff000000 :: u32) = push_bit (32 - 8) (mask 8)"
  "(0xf0000000 :: u32) = push_bit (32 - 4) (mask 4)" "(0xc0000000 :: u32) = push_bit (32 - 2) (mask 2)"
  "(0x80000000 :: u32) = push_bit (32 - 1) (mask 1)"
  by (simp_all add: mask_numeral)

lemma fls_step_window:
  "high_window x0 x s (2 * h) \<Longrightarrow> 0 < h \<Longrightarrow>
     \<exists>x' s'. fls_step (push_bit (32 - h) (mask h)) h (x, 32 - s) = (x', 32 - s') \<and> high_window x0 x' s' h"
  using high_window_step [of x0 x s h] by (auto simp: fls_step_def split: if_splits)

lemma high_window_end: "high_window x0 x s 1 \<Longrightarrow> s \<le> 31 \<and> bit x0 (31 - s) \<and> (\<forall>i \<ge> 32 - s. \<not> bit x0 i)"
proof -
  assume w: "high_window x0 x s 1"
  then obtain i where i: "31 \<le> i" "i < 32" "bit x0 (i - s)" by (auto simp: high_window_def)
  then have "i = 31" by simp
  with i w show ?thesis by (auto simp: high_window_def)
qed

lemma generic_fls_correct:
  assumes "x \<noteq> 0"
  shows "0 < generic_fls x \<and> generic_fls x \<le> 32 \<and> bit x (generic_fls x - 1) \<and> (\<forall>i \<ge> generic_fls x. \<not> bit x i)"
proof -
  obtain x1 s1 where 1: "fls_step 0xffff0000 16 (x, 32 - 0) = (x1, 32 - s1)" "high_window x x1 s1 16"
    using fls_step_window [of x x 0 16] high_window_start [OF assms] unfolding fls_masks by auto
  obtain x2 s2 where 2: "fls_step 0xff000000 8 (x1, 32 - s1) = (x2, 32 - s2)" "high_window x x2 s2 8"
    using fls_step_window [of x x1 s1 8] 1 unfolding fls_masks by auto
  obtain x3 s3 where 3: "fls_step 0xf0000000 4 (x2, 32 - s2) = (x3, 32 - s3)" "high_window x x3 s3 4"
    using fls_step_window [of x x2 s2 4] 2 unfolding fls_masks by auto
  obtain x4 s4 where 4: "fls_step 0xc0000000 2 (x3, 32 - s3) = (x4, 32 - s4)" "high_window x x4 s4 2"
    using fls_step_window [of x x3 s3 2] 3 unfolding fls_masks by auto
  obtain x5 s5 where 5: "fls_step 0x80000000 1 (x4, 32 - s4) = (x5, 32 - s5)" "high_window x x5 s5 1"
    using fls_step_window [of x x4 s4 1] 4 unfolding fls_masks by auto
  have "generic_fls x = 32 - s5"
    using assms 1(1) 2(1) 3(1) 4(1) 5(1) by (simp add: generic_fls_def)
  with high_window_end [OF 5(2)] show ?thesis by auto
qed

text \<open>The value of the highest set bit bounds the word.\<close>

lemma generic_fls_bounds:
  fixes x :: u32
  assumes "x \<noteq> 0"
  shows "unat x < 2 ^ generic_fls x" "2 ^ (generic_fls x - 1) \<le> unat x"
proof -
  note f = generic_fls_correct [OF assms]
  have "x = take_bit (generic_fls x) x"
    using f by (auto simp: bit_eq_iff bit_simps) (meson not_le)
  then have "unat x = take_bit (generic_fls x) (unat x)"
    by (metis unsigned_take_bit_eq)
  then show "unat x < 2 ^ generic_fls x"
    by (metis take_bit_nat_less_exp)
  have "bit (unat x) (generic_fls x - 1)" using f by (simp add: bit_unsigned_iff)
  then have "odd (unat x div 2 ^ (generic_fls x - 1))" by (simp add: bit_iff_odd)
  then have "unat x div 2 ^ (generic_fls x - 1) \<noteq> 0" by (metis even_zero)
  then show "2 ^ (generic_fls x - 1) \<le> unat x" by (metis div_less not_le)
qed

lemma and_minus_1_pow2: "(2 ^ k :: u32) AND (2 ^ k - 1) = 0"
proof -
  have "(2 ^ k :: u32) AND mask k = 0"
    by (rule bit_word_eqI) (auto simp: bit_simps)
  then show ?thesis by (simp add: mask_eq_decr_exp)
qed

text \<open>The test \<open>size & (size - 1)\<close> accepts exactly the powers of two (and zero).\<close>

lemma and_minus_1_zero:
  fixes x :: u32
  assumes "x \<noteq> 0" "x AND (x - 1) = 0"
  shows "\<exists>k<32. x = 2 ^ k"
proof -
  let ?k = "generic_fls x - 1"
  note f = generic_fls_correct [OF assms(1)] and b = generic_fls_bounds [OF assms(1)]
  have kk: "generic_fls x = Suc ?k" "?k < 32" using f by auto
  have "x = 2 ^ ?k"
  proof (rule ccontr)
    assume "x \<noteq> 2 ^ ?k"
    then have "unat x \<noteq> unat (2 ^ ?k :: u32)" by (simp only: word_unat_eq_iff not_False_eq_True)
    then have "unat x \<noteq> 2 ^ ?k" using unat_pow2 [where 'a = 32, of ?k] kk(2) by simp
    with b have "2 ^ ?k \<le> unat x - 1" by linarith
    moreover have "unat (x - 1) = unat x - 1" using assms(1) by (simp add: unat_minus_one)
    ultimately have lo: "2 ^ ?k \<le> unat (x - 1)" by simp
    have "2 ^ generic_fls x = 2 * (2::nat) ^ ?k" using kk(1) by (metis power_Suc)
    then have "unat (x - 1) < 2 ^ ?k * Suc 1" using b(1) \<open>unat (x - 1) = unat x - 1\<close>
      by (simp only: mult_Suc_right mult_1_right)
    with lo have "unat (x - 1) div 2 ^ ?k = 1" by (intro div_nat_eqI) simp_all
    then have "bit (unat (x - 1)) ?k" by (simp add: bit_iff_odd)
    then have "bit (x - 1) ?k" by (simp add: bit_unsigned_iff)
    with f have "bit (x AND (x - 1)) ?k" by (simp only: bit_and_iff)
    with assms(2) show False by simp
  qed
  with kk show ?thesis by blast
qed

lemma roundup_pow_of_two_correct:
  assumes "1 < x" "x \<le> 0x80000000"
  shows "\<exists>k<32. roundup_pow_of_two x = 2 ^ k \<and> x \<le> 2 ^ k \<and> (\<forall>j<k. 2 ^ j < x)"
proof -
  let ?k = "generic_fls (x - 1)"
  have nz: "x - 1 \<noteq> 0" using assms(1) by auto
  have ux: "unat (x - 1) = unat x - 1" "unat x \<le> 2 ^ 31" "1 < unat x"
    using assms by (simp_all add: unat_sub word_le_nat_alt word_less_nat_alt)
  note f = generic_fls_correct [OF nz] and hi = generic_fls_bounds(1) [OF nz] and lo = generic_fls_bounds(2) [OF nz]
  have k: "?k < 32"
  proof (rule ccontr)
    assume "\<not> ?k < 32"
    with f have "?k = 32" by simp
    with lo ux show False by simp
  qed
  have "roundup_pow_of_two x = 2 ^ ?k" by (simp add: roundup_pow_of_two_def push_bit_eq_mult)
  moreover have "x \<le> 2 ^ ?k" using hi ux k by (simp add: word_le_nat_alt unat_pow2)
  moreover have "2 ^ j < x" if "j < ?k" for j
  proof -
    have "(2::nat) ^ j \<le> 2 ^ (?k - 1)" using that by (intro power_increasing) auto
    with lo ux(1,3) have "2 ^ j < unat x" by linarith
    then show ?thesis using k that by (simp add: word_less_nat_alt unat_pow2)
  qed
  ultimately show ?thesis using k by blast
qed

section \<open>The ARM search and the scheduler's bitmap\<close>

definition top_window :: "u32 \<Rightarrow> u32 \<Rightarrow> nat \<Rightarrow> nat \<Rightarrow> bool" where
  "top_window x0 x s m \<longleftrightarrow> s + m \<le> 32 \<and> x = push_bit s x0 \<and> (\<forall>i<32 - m. \<not> bit x i) \<and>
     (\<exists>i. 32 - m \<le> i \<and> i < 32 \<and> bit x i)"

lemma top_window_step:
  assumes w: "top_window x0 x s (2 * h)" and h: "0 < h"
  shows "top_window x0 (if x AND push_bit (32 - 2 * h) (mask h) \<noteq> 0 then push_bit h x else x)
           (if x AND push_bit (32 - 2 * h) (mask h) \<noteq> 0 then s + h else s) h"
proof -
  have h32: "2 * h + s \<le> 32" using w by (simp add: top_window_def)
  have t: "x AND push_bit (32 - 2 * h) (mask h) \<noteq> 0 \<longleftrightarrow> (\<exists>i. 32 - 2 * h \<le> i \<and> i < 32 - h \<and> bit x i)"
  proof
    assume "x AND push_bit (32 - 2 * h) (mask h) \<noteq> 0"
    then show "\<exists>i. 32 - 2 * h \<le> i \<and> i < 32 - h \<and> bit x i"
      using h32 by (auto simp: bit_eq_iff bit_simps)
  next
    assume "\<exists>i. 32 - 2 * h \<le> i \<and> i < 32 - h \<and> bit x i"
    then obtain i where i: "32 - 2 * h \<le> i" "i < 32 - h" "bit x i" by blast
    then have "bit (x AND push_bit (32 - 2 * h) (mask h)) i" using h32 by (auto simp: bit_simps)
    then show "x AND push_bit (32 - 2 * h) (mask h) \<noteq> 0" by (metis bit_0_eq bot_apply bot_bool_def)
  qed
  show ?thesis
  proof (cases "x AND push_bit (32 - 2 * h) (mask h) \<noteq> 0")
    case True
    with t obtain i where i: "32 - 2 * h \<le> i" "i < 32 - h" "bit x i" by auto
    have "bit (push_bit h x) (i + h)" using i h32 by (auto simp: bit_push_bit_iff)
    moreover have "\<not> bit (push_bit h x) j" if "j < 32 - h" for j
    proof -
      have "h \<le> j \<Longrightarrow> \<not> bit x (j - h)" using w that h32 by (auto simp: top_window_def)
      then show ?thesis by (simp add: bit_push_bit_iff)
    qed
    ultimately show ?thesis
      using True i h32 w by (auto simp: top_window_def push_bit_push_bit add.commute intro!: exI [of _ "i + h"])
  next
    case False
    with t have nb: "\<And>i. 32 - 2 * h \<le> i \<Longrightarrow> i < 32 - h \<Longrightarrow> \<not> bit x i" by auto
    have "\<not> bit x i" if "i < 32 - h" for i
      using w nb [of i] that by (cases "i < 32 - 2 * h") (auto simp: top_window_def)
    moreover obtain i where "32 - 2 * h \<le> i" "i < 32" "bit x i" using w by (auto simp: top_window_def)
    ultimately show ?thesis using False w h32 by (auto simp: top_window_def) (metis not_le)
  qed
qed

lemma arm_masks:
  "(0x0000ffff :: u32) = push_bit (32 - 2 * 16) (mask 16)" "(0x00ff0000 :: u32) = push_bit (32 - 2 * 8) (mask 8)"
  "(0x0f000000 :: u32) = push_bit (32 - 2 * 4) (mask 4)" "(0x30000000 :: u32) = push_bit (32 - 2 * 2) (mask 2)"
  "(0x40000000 :: u32) = push_bit (32 - 2 * 1) (mask 1)"
  by (simp_all add: mask_numeral)

lemma arm_step_window:
  "top_window x0 x s (2 * h) \<Longrightarrow> 0 < h \<Longrightarrow>
     \<exists>x' s'. arm_ffs_step (push_bit (32 - 2 * h) (mask h)) h (x, 31 - s) = (x', 31 - s') \<and> top_window x0 x' s' h"
  using top_window_step [of x0 x s h] by (auto simp: arm_ffs_step_def split: if_splits)

lemma top_window_end: "top_window x0 x s 1 \<Longrightarrow> bit x0 (31 - s) \<and> (\<forall>i < 31 - s. \<not> bit x0 i)"
proof -
  assume w: "top_window x0 x s 1"
  then obtain i where "31 \<le> i" "i < 32" "bit x i" by (auto simp: top_window_def)
  moreover from this have "i = 31" by simp
  ultimately have b: "bit x 31" by simp
  have s: "s \<le> 31" "x = push_bit s x0" "\<forall>i<31. \<not> bit x i" using w by (auto simp: top_window_def)
  have "bit x0 (31 - s)" using b s by (auto simp: bit_push_bit_iff)
  moreover have "\<not> bit x0 i" if "i < 31 - s" for i
    using s(3) [rule_format, of "i + s"] that s(1,2) by (auto simp: bit_push_bit_iff)
  ultimately show ?thesis by blast
qed

lemma arm_ffs_correct:
  assumes "x \<noteq> 0"
  shows "arm_ffs x < 32 \<and> bit x (arm_ffs x) \<and> (\<forall>i < arm_ffs x. \<not> bit x i)"
proof -
  have "top_window x x 0 32"
    using low_window_start [OF assms] by (auto simp: top_window_def low_window_def)
  then obtain x1 s1 where 1: "arm_ffs_step 0x0000ffff 16 (x, 31 - 0) = (x1, 31 - s1)" "top_window x x1 s1 16"
    using arm_step_window [of x x 0 16] unfolding arm_masks by auto
  obtain x2 s2 where 2: "arm_ffs_step 0x00ff0000 8 (x1, 31 - s1) = (x2, 31 - s2)" "top_window x x2 s2 8"
    using arm_step_window [of x x1 s1 8] 1 unfolding arm_masks by auto
  obtain x3 s3 where 3: "arm_ffs_step 0x0f000000 4 (x2, 31 - s2) = (x3, 31 - s3)" "top_window x x3 s3 4"
    using arm_step_window [of x x2 s2 4] 2 unfolding arm_masks by auto
  obtain x4 s4 where 4: "arm_ffs_step 0x30000000 2 (x3, 31 - s3) = (x4, 31 - s4)" "top_window x x4 s4 2"
    using arm_step_window [of x x3 s3 2] 3 unfolding arm_masks by auto
  obtain x5 s5 where 5: "arm_ffs_step 0x40000000 1 (x4, 31 - s4) = (x5, 31 - s5)" "top_window x x5 s5 1"
    using arm_step_window [of x x4 s4 1] 4 unfolding arm_masks by auto
  have "(if x4 AND 0x40000000 \<noteq> 0 then 31 - s4 - 1 else 31 - s4) = 31 - s5"
    using 5(1) by (simp add: arm_ffs_step_def split: if_splits)
  then have "arm_ffs x = 31 - s5"
    using 1(1) 2(1) 3(1) 4(1) by (simp add: arm_ffs_def)
  with top_window_end [OF 5(2)] show ?thesis by auto
qed

lemma sched_find_word_correct:
  "sched_find_word b off n \<le> off + n \<and> off \<le> sched_find_word b off n \<and>
   (\<forall>k. off \<le> k \<and> k < sched_find_word b off n \<longrightarrow> b k = 0) \<and>
   (sched_find_word b off n < off + n \<longrightarrow> b (sched_find_word b off n) \<noteq> 0)"
proof (induction b off n rule: sched_find_word.induct)
  case (2 b off n)
  show ?case
  proof (cases "b off = 0")
    case True
    note IH = "2.IH" [OF iffD2 [OF not_not True]]
    have "b k = 0" if "off \<le> k" "k < sched_find_word b (off + 1) n" for k
      using True IH that by (cases "k = off") auto
    with True IH show ?thesis by auto
  qed auto
qed auto

text \<open>A bitmap in memory and the bit at a position of it.\<close>

definition test_bit_at :: "(nat \<Rightarrow> u32) \<Rightarrow> nat \<Rightarrow> bool" where
  "test_bit_at b i = bit (b (i div 32)) (i mod 32)"

lemma sched_find_first_bit_correct:
  assumes "test_bit_at b j" "j < 160"
  shows "sched_find_first_bit b \<le> j \<and> test_bit_at b (sched_find_first_bit b) \<and>
         (\<forall>i < sched_find_first_bit b. \<not> test_bit_at b i)"
proof -
  let ?off = "sched_find_word b 0 4"
  note w = sched_find_word_correct [of b 0 4]
  have "b ?off \<noteq> 0"
  proof (cases "?off < 4")
    case False
    then have off: "?off = 4" using w by simp
    have "j div 32 = 4"
    proof (rule ccontr)
      assume "j div 32 \<noteq> 4"
      then have "j div 32 < ?off" using assms(2) off by linarith
      with w have "b (j div 32) = 0" by simp
      with assms(1) show False by (simp add: test_bit_at_def)
    qed
    with assms(1) off show ?thesis by (auto simp: test_bit_at_def)
  qed (use w in simp)
  note f = arm_ffs_correct [OF this]
  let ?r = "sched_find_first_bit b"
  have r: "?r div 32 = ?off" "?r mod 32 = arm_ffs (b ?off)" using f by (simp_all add: sched_find_first_bit_def Let_def)
  have set: "test_bit_at b ?r" using f r by (simp add: test_bit_at_def)
  have below: "\<not> test_bit_at b i" if "i < ?r" for i
  proof (cases "i div 32 < ?off")
    case True
    with w show ?thesis by (simp add: test_bit_at_def)
  next
    case False
    with that r(1) have "i div 32 = ?off" by (metis div_le_mono le_antisym less_imp_le_nat not_less)
    moreover from this that r have "i mod 32 < arm_ffs (b ?off)"
      by (metis add_less_cancel_left mult_div_mod_eq)
    ultimately show ?thesis using f by (simp add: test_bit_at_def)
  qed
  have "?r \<le> j" using below [of j] assms(1) by (meson not_le)
  with set below show ?thesis by blast
qed

section \<open>Population count\<close>

definition pop_count :: "'a::len word \<Rightarrow> nat" where
  "pop_count w = (\<Sum>i<LENGTH('a). of_bool (bit w i))"

text \<open>Numbers as digit lists in base \<open>2 ^ k\<close>, least digit first.\<close>

primrec digits :: "nat \<Rightarrow> nat list \<Rightarrow> nat" where
  "digits k [] = 0"
| "digits k (d # ds) = d + 2 ^ k * digits k ds"

lemma horner_digits: "horner_sum of_bool 2 bs = digits 1 (map of_bool bs)"
  by (induction bs) simp_all

lemma and_digit:
  fixes d m x y :: nat
  assumes "d < 2 ^ k" "m < 2 ^ k"
  shows "(d + 2 ^ k * x) AND (m + 2 ^ k * y) = (d AND m) + 2 ^ k * (x AND y)"
proof -
  have "take_bit k (d + 2 ^ k * x) = d" "drop_bit k (d + 2 ^ k * x) = x"
    "take_bit k (m + 2 ^ k * y) = m" "drop_bit k (m + 2 ^ k * y) = y"
    using assms by (simp_all add: take_bit_eq_mod drop_bit_eq_div)
  then have "take_bit k ((d + 2 ^ k * x) AND (m + 2 ^ k * y)) = d AND m"
    "drop_bit k ((d + 2 ^ k * x) AND (m + 2 ^ k * y)) = x AND y"
    by (simp_all add: take_bit_and drop_bit_and)
  then show ?thesis
    by (metis add.commute bits_ident mult.commute push_bit_eq_mult)
qed

text \<open>The mask of one counting step and what the step does to a list of fields.\<close>

fun swar_mask :: "nat \<Rightarrow> nat \<Rightarrow> nat" where
  "swar_mask k 0 = 0"
| "swar_mask k (Suc n) = (2 ^ k - 1) + 2 ^ (2 * k) * swar_mask k n"

lemma swar_mask_numeral:
  "swar_mask k (numeral n) = (2 ^ k - 1) + 2 ^ (2 * k) * swar_mask k (pred_numeral n)"
  by (simp add: numeral_eq_Suc)

lemma swar_mask_1: "swar_mask k 1 = 2 ^ k - 1" "swar_mask k (Suc 0) = 2 ^ k - 1"
  by (simp_all add: One_nat_def)

fun pair_sums :: "nat list \<Rightarrow> nat list" where
  "pair_sums (a # b # ds) = (a + b) # pair_sums ds"
| "pair_sums ds = ds"

lemma and_low_field:
  fixes a b k :: nat
  assumes "a < 2 ^ k"
  shows "(a + 2 ^ k * b) AND (2 ^ k - 1) = a"
proof -
  have "(a + 2 ^ k * b) AND mask k = take_bit k (a + 2 ^ k * b)" by (simp add: take_bit_eq_mask)
  then show ?thesis using assms by (simp add: mask_eq_exp_minus_1 take_bit_eq_mod)
qed

lemma div_field:
  fixes a b B N :: nat
  assumes "a < B"
  shows "(a + B * b + B * B * N) div B = b + B * (N mod B) + B * B * (N div B)"
proof -
  have e: "a + B * b + B * B * N = a + B * (b + B * N)" by (simp add: algebra_simps)
  have "(a + B * b + B * B * N) div B = b + B * N" unfolding e using assms by simp
  also have "\<dots> = b + B * (N mod B + B * (N div B))" by simp
  finally show ?thesis by (simp only: distrib_left mult.assoc add.assoc)
qed

lemma swar_step:
  fixes r :: nat
  assumes "length ds = 2 * n" "\<forall>d \<in> set ds. d < 2 ^ k"
  shows "(digits k ds + 2 ^ (2 * k * n) * r AND swar_mask k n) +
         ((digits k ds + 2 ^ (2 * k * n) * r) div 2 ^ k AND swar_mask k n) = digits (2 * k) (pair_sums ds)"
  using assms
proof (induction n arbitrary: ds)
  case 0
  then show ?case by simp
next
  case (Suc n)
  obtain a b ds' where ds: "ds = a # b # ds'"
    using Suc.prems(1) by (cases ds; cases "tl ds") auto
  have ab: "a < 2 ^ k" "b < 2 ^ k" and len: "length ds' = 2 * n" and ds': "\<forall>d \<in> set ds'. d < 2 ^ k"
    using Suc.prems ds by auto
  let ?N = "digits k ds' + 2 ^ (2 * k * n) * r" and ?M = "swar_mask k n"
  have sq: "(2::nat) ^ (2 * k) = 2 ^ k * 2 ^ k" by (simp add: mult_2 power_add)
  have N: "digits k ds + 2 ^ (2 * k * Suc n) * r = a + 2 ^ k * b + 2 ^ (2 * k) * ?N"
  proof -
    have "(2::nat) ^ (2 * k * Suc n) = 2 ^ (2 * k) * 2 ^ (2 * k * n)" by (simp add: power_add)
    moreover have "digits k ds = a + 2 ^ k * b + 2 ^ k * 2 ^ k * digits k ds'" by (simp add: ds distrib_left)
    ultimately show ?thesis by (simp only: sq distrib_left mult.assoc add.assoc)
  qed
  have div: "(a + 2 ^ k * b + 2 ^ (2 * k) * ?N) div 2 ^ k = b + 2 ^ k * (?N mod 2 ^ k) + 2 ^ (2 * k) * (?N div 2 ^ k)"
    unfolding sq by (rule div_field [OF ab(1)])
  have small: "x + 2 ^ k * y < 2 ^ (2 * k)" if "x < 2 ^ k" "y < 2 ^ k" for x y :: nat
  proof -
    have "x + 2 ^ k * y < 2 ^ k * (y + 1)" using that by simp
    also have "\<dots> \<le> 2 ^ k * 2 ^ k" using that by (intro mult_le_mono2) simp
    finally show ?thesis by (simp add: sq)
  qed
  have m: "(2::nat) ^ k - 1 < 2 ^ (2 * k)"
    by (rule order.strict_trans2 [of _ "2 ^ k"]) (auto intro: power_increasing)
  have "(a + 2 ^ k * b + 2 ^ (2 * k) * ?N AND swar_mask k (Suc n)) = a + 2 ^ (2 * k) * (?N AND ?M)"
    using and_digit [OF small [OF ab] m, of ?N ?M] and_low_field [OF ab(1)] by simp
  moreover have "(b + 2 ^ k * (?N mod 2 ^ k) + 2 ^ (2 * k) * (?N div 2 ^ k) AND swar_mask k (Suc n)) =
      b + 2 ^ (2 * k) * (?N div 2 ^ k AND ?M)"
    using and_digit [OF small [OF ab(2), of "?N mod 2 ^ k"] m, of "?N div 2 ^ k" ?M] and_low_field [OF ab(2)] by simp
  ultimately have "(digits k ds + 2 ^ (2 * k * Suc n) * r AND swar_mask k (Suc n)) +
      ((digits k ds + 2 ^ (2 * k * Suc n) * r) div 2 ^ k AND swar_mask k (Suc n)) =
      a + b + 2 ^ (2 * k) * ((?N AND ?M) + (?N div 2 ^ k AND ?M))"
    unfolding N div by (simp only: distrib_left ac_simps)
  also have "\<dots> = digits (2 * k) (pair_sums ds)"
    using Suc.IH [OF len ds'] by (simp add: ds)
  finally show ?case .
qed

lemma pair_sums_props:
  "length ds = 2 * n \<Longrightarrow> length (pair_sums ds) = n \<and> sum_list (pair_sums ds) = sum_list ds \<and>
     ((\<forall>d \<in> set ds. d \<le> c) \<longrightarrow> (\<forall>d \<in> set (pair_sums ds). d \<le> 2 * c))"
proof (induction n arbitrary: ds)
  case (Suc n)
  then obtain a b ds' where "ds = a # b # ds'" by (cases ds; cases "tl ds") auto
  with Suc.IH [of ds'] Suc.prems show ?case by auto
qed simp

lemma unat_swar_step:
  fixes x M :: u32
  assumes "2 * unat M < 2 ^ 32"
  shows "unat ((x AND M) + (drop_bit k x AND M)) = (unat x AND unat M) + (unat x div 2 ^ k AND unat M)"
proof -
  have "unat (x AND M) \<le> unat M" "unat (drop_bit k x AND M) \<le> unat M"
    by (metis word_and_le1 word_le_nat_alt)+
  with assms have "unat (x AND M) + unat (drop_bit k x AND M) < 2 ^ LENGTH(32)" by simp
  then have "unat ((x AND M) + (drop_bit k x AND M)) = unat (x AND M) + unat (drop_bit k x AND M)"
    by (rule unat_add_lem [THEN iffD1])
  then show ?thesis by (simp only: unsigned_and_eq unat_drop_bit_eq) (simp add: drop_bit_eq_div)
qed

text \<open>One step on a word whose low part is the field list \<open>ds\<close>.\<close>

lemma hweight_step:
  fixes x M :: u32
  assumes "unat x = digits k ds + 2 ^ (2 * k * n) * r" "length ds = 2 * n" "\<forall>d \<in> set ds. d \<le> c"
    "c < 2 ^ k" "unat M = swar_mask k n" "2 * unat M < 2 ^ 32"
  shows "unat ((x AND M) + (drop_bit k x AND M)) = digits (2 * k) (pair_sums ds)"
    "length (pair_sums ds) = n" "sum_list (pair_sums ds) = sum_list ds" "\<forall>d \<in> set (pair_sums ds). d \<le> 2 * c"
proof -
  have "\<forall>d \<in> set ds. d < 2 ^ k" using assms(3,4) by auto
  from swar_step [OF assms(2) this, of r] unat_swar_step [OF assms(6), of x k] assms(1,5)
  show "unat ((x AND M) + (drop_bit k x AND M)) = digits (2 * k) (pair_sums ds)" by simp
qed (use pair_sums_props [OF assms(2), of c] assms(3) in auto)

lemma unat_low_bits: "unat (w::u32) = digits 1 (map (\<lambda>i. of_bool (bit w i)) [0..<n]) + 2 ^ n * (unat w div 2 ^ n)"
proof -
  have "digits 1 (map of_bool (map (bit (unat w)) [0..<n])) = take_bit n (unat w)"
    using horner_sum_bit_eq_take_bit [of "unat w" n] by (simp only: horner_digits)
  moreover have "bit (unat w) = bit w" by (rule ext) (simp add: bit_unsigned_iff)
  ultimately have "digits 1 (map (\<lambda>i. of_bool (bit w i)) [0..<n]) = unat w mod 2 ^ n"
    by (simp only: map_map comp_def take_bit_eq_mod)
  then show ?thesis by simp
qed

lemma unat_bits: "unat (w::u32) = digits 1 (map (\<lambda>i. of_bool (bit w i)) [0..<32])"
  using unat_low_bits [of w 32] unat_bound [of w] by (simp del: upt_rec_numeral)

lemma sum_list_bits: "sum_list (map (\<lambda>i. of_bool (bit (w::u32) i)) [0..<n]) = (\<Sum>i<n. of_bool (bit w i) :: nat)"
  by (simp add: sum_list_sum_nth atLeast0LessThan)

lemma generic_hweight32_correct: "unat (generic_hweight32 w) = pop_count w"
proof -
  define ds where "ds = map (\<lambda>i. of_bool (bit w i) :: nat) [0..<32]"
  define r1 where "r1 = (w AND 0x55555555) + (drop_bit 1 w AND 0x55555555)"
  define r2 where "r2 = (r1 AND 0x33333333) + (drop_bit 2 r1 AND 0x33333333)"
  define r3 where "r3 = (r2 AND 0x0F0F0F0F) + (drop_bit 4 r2 AND 0x0F0F0F0F)"
  define r4 where "r4 = (r3 AND 0x00FF00FF) + (drop_bit 8 r3 AND 0x00FF00FF)"
  define r5 where "r5 = (r4 AND 0x0000FFFF) + (drop_bit 16 r4 AND 0x0000FFFF)"
  have m: "swar_mask 1 16 = 0x55555555" "swar_mask 2 8 = 0x33333333" "swar_mask 4 4 = 0x0F0F0F0F"
    "swar_mask 8 2 = 0x00FF00FF" "swar_mask 16 (Suc 0) = 0x0000FFFF" "swar_mask (Suc 0) 16 = 0x55555555"
    by (simp_all add: swar_mask_numeral swar_mask_1)
  have 0: "unat w = digits 1 ds + 2 ^ (2 * 1 * 16) * 0" "length ds = 2 * 16" "\<forall>d \<in> set ds. d \<le> 1"
    using unat_bits [of w] by (auto simp: ds_def)
  have 1: "unat r1 = digits 2 (pair_sums ds)" "length (pair_sums ds) = 16"
    "sum_list (pair_sums ds) = sum_list ds" "\<forall>d \<in> set (pair_sums ds). d \<le> 2"
    using hweight_step [OF 0, of "0x55555555"] by (simp_all add: r1_def m)
  have 2: "unat r2 = digits 4 (pair_sums (pair_sums ds))" "length (pair_sums (pair_sums ds)) = 8"
    "sum_list (pair_sums (pair_sums ds)) = sum_list ds" "\<forall>d \<in> set (pair_sums (pair_sums ds)). d \<le> 4"
    using hweight_step [of r1 2 "pair_sums ds" 8 0 2 "0x33333333"] 1 by (simp_all add: r2_def m)
  have 3: "unat r3 = digits 8 (pair_sums (pair_sums (pair_sums ds)))" "length (pair_sums (pair_sums (pair_sums ds))) = 4"
    "sum_list (pair_sums (pair_sums (pair_sums ds))) = sum_list ds"
    "\<forall>d \<in> set (pair_sums (pair_sums (pair_sums ds))). d \<le> 8"
    using hweight_step [of r2 4 "pair_sums (pair_sums ds)" 4 0 4 "0x0F0F0F0F"] 2 by (simp_all add: r3_def m)
  define d3 where "d3 = pair_sums (pair_sums (pair_sums ds))"
  note 3 = 3 [folded d3_def]
  have 4: "unat r4 = digits 16 (pair_sums d3)" "length (pair_sums d3) = 2"
    "sum_list (pair_sums d3) = sum_list ds" "\<forall>d \<in> set (pair_sums d3). d \<le> 16"
    using hweight_step [of r3 8 d3 2 0 8 "0x00FF00FF"] 3 by (simp_all add: r4_def m)
  have 5: "unat r5 = digits 32 (pair_sums (pair_sums d3))" "length (pair_sums (pair_sums d3)) = 1"
    "sum_list (pair_sums (pair_sums d3)) = sum_list ds"
    using hweight_step [of r4 16 "pair_sums d3" 1 0 16 "0x0000FFFF"] 4 by (simp_all add: r5_def m)
  then have "unat r5 = sum_list ds"
    by (cases "pair_sums (pair_sums d3)") auto
  moreover have "sum_list ds = pop_count w"
    using sum_list_bits [of w 32] by (simp add: ds_def pop_count_def del: upt_rec_numeral)
  moreover have "generic_hweight32 w = r5"
    by (simp add: generic_hweight32_def Let_def r1_def r2_def r3_def r4_def r5_def)
  ultimately show ?thesis by simp
qed

lemma generic_hweight16_correct: "unat (generic_hweight16 w) = (\<Sum>i<16. of_bool (bit w i))"
proof -
  define ds where "ds = map (\<lambda>i. of_bool (bit w i) :: nat) [0..<16]"
  define r1 where "r1 = (w AND 0x5555) + (drop_bit 1 w AND 0x5555)"
  define r2 where "r2 = (r1 AND 0x3333) + (drop_bit 2 r1 AND 0x3333)"
  define r3 where "r3 = (r2 AND 0x0F0F) + (drop_bit 4 r2 AND 0x0F0F)"
  define r4 where "r4 = (r3 AND 0x00FF) + (drop_bit 8 r3 AND 0x00FF)"
  have m: "swar_mask 1 8 = 0x5555" "swar_mask 2 4 = 0x3333" "swar_mask 4 2 = 0x0F0F"
    "swar_mask 8 (Suc 0) = 0x00FF" "swar_mask (Suc 0) 8 = 0x5555"
    by (simp_all add: swar_mask_numeral swar_mask_1)
  have 0: "unat w = digits 1 ds + 2 ^ (2 * 1 * 8) * (unat w div 2 ^ 16)" "length ds = 2 * 8" "\<forall>d \<in> set ds. d \<le> 1"
    using unat_low_bits [of w 16] by (auto simp: ds_def simp del: upt_rec_numeral)
  have 1: "unat r1 = digits 2 (pair_sums ds)" "length (pair_sums ds) = 8"
    "sum_list (pair_sums ds) = sum_list ds" "\<forall>d \<in> set (pair_sums ds). d \<le> 2"
    using hweight_step [OF 0, of "0x5555"] by (simp_all add: r1_def m)
  define d1 where "d1 = pair_sums ds"
  note 1 = 1 [folded d1_def]
  have 2: "unat r2 = digits 4 (pair_sums d1)" "length (pair_sums d1) = 4"
    "sum_list (pair_sums d1) = sum_list ds" "\<forall>d \<in> set (pair_sums d1). d \<le> 4"
    using hweight_step [of r1 2 d1 4 0 2 "0x3333"] 1 by (simp_all add: r2_def m)
  define d2 where "d2 = pair_sums d1"
  note 2 = 2 [folded d2_def]
  have 3: "unat r3 = digits 8 (pair_sums d2)" "length (pair_sums d2) = 2"
    "sum_list (pair_sums d2) = sum_list ds" "\<forall>d \<in> set (pair_sums d2). d \<le> 8"
    using hweight_step [of r2 4 d2 2 0 4 "0x0F0F"] 2 by (simp_all add: r3_def m)
  have 4: "unat r4 = digits 16 (pair_sums (pair_sums d2))" "length (pair_sums (pair_sums d2)) = 1"
    "sum_list (pair_sums (pair_sums d2)) = sum_list ds"
    using hweight_step [of r3 8 "pair_sums d2" 1 0 8 "0x00FF"] 3 by (simp_all add: r4_def m)
  then have "unat r4 = sum_list ds" by (cases "pair_sums (pair_sums d2)") auto
  moreover have "sum_list ds = (\<Sum>i<16. of_bool (bit w i))"
    using sum_list_bits [of w 16] by (simp add: ds_def del: upt_rec_numeral)
  moreover have "generic_hweight16 w = r4"
    by (simp add: generic_hweight16_def Let_def r1_def r2_def r3_def r4_def)
  ultimately show ?thesis by simp
qed

lemma generic_hweight8_correct: "unat (generic_hweight8 w) = (\<Sum>i<8. of_bool (bit w i))"
proof -
  define ds where "ds = map (\<lambda>i. of_bool (bit w i) :: nat) [0..<8]"
  define r1 where "r1 = (w AND 0x55) + (drop_bit 1 w AND 0x55)"
  define r2 where "r2 = (r1 AND 0x33) + (drop_bit 2 r1 AND 0x33)"
  define r3 where "r3 = (r2 AND 0x0F) + (drop_bit 4 r2 AND 0x0F)"
  have m: "swar_mask 1 4 = 0x55" "swar_mask 2 2 = 0x33" "swar_mask 4 (Suc 0) = 0x0F" "swar_mask (Suc 0) 4 = 0x55"
    by (simp_all add: swar_mask_numeral swar_mask_1)
  have 0: "unat w = digits 1 ds + 2 ^ (2 * 1 * 4) * (unat w div 2 ^ 8)" "length ds = 2 * 4" "\<forall>d \<in> set ds. d \<le> 1"
    using unat_low_bits [of w 8] by (auto simp: ds_def simp del: upt_rec_numeral)
  have 1: "unat r1 = digits 2 (pair_sums ds)" "length (pair_sums ds) = 4"
    "sum_list (pair_sums ds) = sum_list ds" "\<forall>d \<in> set (pair_sums ds). d \<le> 2"
    using hweight_step [OF 0, of "0x55"] by (simp_all add: r1_def m)
  define d1 where "d1 = pair_sums ds"
  note 1 = 1 [folded d1_def]
  have 2: "unat r2 = digits 4 (pair_sums d1)" "length (pair_sums d1) = 2"
    "sum_list (pair_sums d1) = sum_list ds" "\<forall>d \<in> set (pair_sums d1). d \<le> 4"
    using hweight_step [of r1 2 d1 2 0 2 "0x33"] 1 by (simp_all add: r2_def m)
  have 3: "unat r3 = digits 8 (pair_sums (pair_sums d1))" "length (pair_sums (pair_sums d1)) = 1"
    "sum_list (pair_sums (pair_sums d1)) = sum_list ds"
    using hweight_step [of r2 4 "pair_sums d1" 1 0 4 "0x0F"] 2 by (simp_all add: r3_def m)
  then have "unat r3 = sum_list ds" by (cases "pair_sums (pair_sums d1)") auto
  moreover have "sum_list ds = (\<Sum>i<8. of_bool (bit w i))"
    using sum_list_bits [of w 8] by (simp add: ds_def del: upt_rec_numeral)
  moreover have "generic_hweight8 w = r3"
    by (simp add: generic_hweight8_def Let_def r1_def r2_def r3_def)
  ultimately show ?thesis by simp
qed

lemma pop_count_le: "pop_count (w :: 'a::len word) \<le> LENGTH('a)"
  unfolding pop_count_def using sum_bounded_above [of "{..<LENGTH('a)}" "\<lambda>i. of_bool (bit w i)" "1::nat"] by simp

lemma generic_hweight64_correct: "unat (generic_hweight64 w) = pop_count w"
proof -
  let ?h = "ucast (drop_bit 32 w) :: u32" and ?l = "ucast w :: u32"
  have "pop_count w = (\<Sum>i<32+32. of_bool (bit w i))" by (simp add: pop_count_def)
  also have "\<dots> = (\<Sum>i<32. of_bool (bit w i)) + (\<Sum>i<32. of_bool (bit w (32 + i)))"
    by (rule sum_lessThan_add)
  also have "\<dots> = pop_count ?l + pop_count ?h"
    by (simp add: pop_count_def bit_simps)
  finally have p: "pop_count w = pop_count ?h + pop_count ?l" by simp
  have "pop_count ?h + pop_count ?l < 2 ^ LENGTH(32)" using pop_count_le [of ?h] pop_count_le [of ?l] by simp
  then have "unat (generic_hweight32 ?h + generic_hweight32 ?l) = pop_count ?h + pop_count ?l"
    using unat_add_lem [of "generic_hweight32 ?h" "generic_hweight32 ?l"] by (simp add: generic_hweight32_correct)
  then show ?thesis by (simp add: generic_hweight64_def p)
qed

section \<open>Properties\<close>

text \<open>
  C8. The bit searches. For a non-zero word the generic \<open>ffs\<close> returns one plus the position
  of the lowest set bit, the generic \<open>fls\<close> one plus the position of the highest, and the
  ARM \<open>__ffs\<close> the position of the lowest; \<open>ffs\<close> and \<open>fls\<close> of zero are zero.
\<close>

theorem bit_searches_correct:
  assumes "x \<noteq> 0"
  shows "(0 < generic_ffs x \<and> bit x (generic_ffs x - 1) \<and> (\<forall>i < generic_ffs x - 1. \<not> bit x i)) \<and>
    (0 < generic_fls x \<and> bit x (generic_fls x - 1) \<and> (\<forall>i \<ge> generic_fls x. \<not> bit x i)) \<and>
    arm_ffs x = generic_ffs x - 1 \<and> generic_ffs 0 = 0 \<and> generic_fls 0 = 0"
proof -
  note a = arm_ffs_correct [OF assms] and f = generic_ffs_correct [OF assms]
  have "arm_ffs x = generic_ffs x - 1" using a f by (meson linorder_neqE_nat)
  with f generic_fls_correct [OF assms] show ?thesis by (simp add: generic_ffs_def generic_fls_def)
qed

text \<open>
  C9. The scheduler's bitmap search: when one of the first 160 bits is set, the index
  \<open>sched_find_first_bit\<close> returns is set and no smaller one is.
\<close>

theorem sched_find_first_bit_least:
  assumes "test_bit_at b j" and "j < 160"
  shows "sched_find_first_bit b \<le> j \<and> test_bit_at b (sched_find_first_bit b) \<and>
         (\<forall>i < sched_find_first_bit b. \<not> test_bit_at b i)"
  using assms by (rule sched_find_first_bit_correct)

text \<open>
  C10. The parallel population counts equal the number of set bits, for every width: of the
  whole word for 32 and 64 bits, of the low half and the low byte for 16 and 8.
\<close>

theorem hweight_correct:
  "unat (generic_hweight32 w) = (\<Sum>i<32. of_bool (bit w i)) \<and>
   unat (generic_hweight16 w) = (\<Sum>i<16. of_bool (bit w i)) \<and>
   unat (generic_hweight8 w) = (\<Sum>i<8. of_bool (bit w i)) \<and>
   unat (generic_hweight64 v) = (\<Sum>i<64. of_bool (bit v i))"
  using generic_hweight32_correct [of w] generic_hweight16_correct [of w] generic_hweight8_correct [of w]
    generic_hweight64_correct [of v] by (simp add: pop_count_def)

section \<open>Witnesses\<close>

theorem bit_searches_correct_witness:
  "bit (0x80010 :: u32) (arm_ffs 0x80010) \<and> generic_fls 0x80010 = 20"
proof -
  have nz: "(0x80010 :: u32) \<noteq> 0" by simp
  have e: "generic_fls 0x80010 = 20" by (simp add: generic_fls_def fls_step_def)
  from bit_searches_correct [OF nz] e show ?thesis by metis
qed

theorem sched_find_first_bit_least_witness:
  "sched_find_first_bit (\<lambda>k. if k = 4 then 0x1000 else 0) \<le> 140"
proof -
  have b: "test_bit_at (\<lambda>k. if k = 4 then 0x1000 else 0) 140"
    by (simp add: test_bit_at_def)
  from sched_find_first_bit_least [OF b] show ?thesis by simp
qed

end
