(* ===== verification/Kfifo.thy ===== *)
theory Kfifo
  imports Bitops
begin

text \<open>
  The byte FIFO of \<open>kernel/kfifo.c\<close> and \<open>include/linux/kfifo.h\<close>: a ring buffer
  whose size is a power of two and whose \<open>in\<close> and \<open>out\<close> indices run freely and wrap
  at \<open>2 ^ 32\<close>. A buffer is a function from offsets to bytes, so a write past its end
  is visible in the model. The caller's buffer is another object than the FIFO's own.
  \<open>kmalloc\<close> is a parameter: \<open>ok\<close> says whether the allocation succeeds, and
  \<open>live\<close> counts the blocks that are allocated.
\<close>

section \<open>Data and operations\<close>

record kfifo =
  buffer :: "nat \<Rightarrow> u8"
  kf_size :: u32
  kf_in :: u32
  kf_out :: u32

definition memcpy_at :: "(nat \<Rightarrow> u8) \<Rightarrow> nat \<Rightarrow> (nat \<Rightarrow> u8) \<Rightarrow> nat \<Rightarrow> nat \<Rightarrow> nat \<Rightarrow> u8" where
  "memcpy_at dst d src s n = (\<lambda>i. if d \<le> i \<and> i < d + n then src (s + (i - d)) else dst i)"

definition kfifo_init :: "nat \<Rightarrow> (nat \<Rightarrow> u8) \<Rightarrow> u32 \<Rightarrow> bool \<Rightarrow> ((errno + kfifo) \<times> nat) option" where
  "kfifo_init live buf sz ok =
     (if sz AND (sz - 1) \<noteq> 0 then None
      else if \<not> ok then Some (Inl ENOMEM, live)
      else Some (Inr \<lparr>buffer = buf, kf_size = sz, kf_in = 0, kf_out = 0\<rparr>, live + 1))"

definition kfifo_alloc :: "nat \<Rightarrow> (nat \<Rightarrow> u8) \<Rightarrow> u32 \<Rightarrow> bool \<Rightarrow> bool \<Rightarrow> ((errno + kfifo) \<times> nat) option" where
  "kfifo_alloc live buf sz ok_buf ok_fifo =
     (let alloc = (\<lambda>sz.
        if \<not> ok_buf then Some (Inl ENOMEM, live)
        else case kfifo_init (live + 1) buf sz ok_fifo of
               None \<Rightarrow> None
             | Some (Inl e, live') \<Rightarrow> Some (Inl e, live' - 1)
             | Some (Inr f, live') \<Rightarrow> Some (Inr f, live'))
      in if sz AND (sz - 1) \<noteq> 0
         then (if sz > 0x80000000 then None else alloc (roundup_pow_of_two sz))
         else alloc sz)"

definition kfifo_free :: "nat \<Rightarrow> kfifo \<Rightarrow> nat" where
  "kfifo_free live f = live - 1 - 1"

definition uu_kfifo_put :: "kfifo \<Rightarrow> (nat \<Rightarrow> u8) \<Rightarrow> u32 \<Rightarrow> u32 \<times> kfifo" where
  "uu_kfifo_put fifo buf len0 =
     (let len = min len0 (kf_size fifo - kf_in fifo + kf_out fifo);
          off = kf_in fifo AND (kf_size fifo - 1);
          l = min len (kf_size fifo - off);
          b1 = memcpy_at (buffer fifo) (unat off) buf 0 (unat l);
          b2 = memcpy_at b1 0 buf (unat l) (unat (len - l))
      in (len, fifo\<lparr>buffer := b2, kf_in := kf_in fifo + len\<rparr>))"

definition uu_kfifo_get :: "kfifo \<Rightarrow> (nat \<Rightarrow> u8) \<Rightarrow> u32 \<Rightarrow> u32 \<times> (nat \<Rightarrow> u8) \<times> kfifo" where
  "uu_kfifo_get fifo buf len0 =
     (let len = min len0 (kf_in fifo - kf_out fifo);
          off = kf_out fifo AND (kf_size fifo - 1);
          l = min len (kf_size fifo - off);
          b1 = memcpy_at buf 0 (buffer fifo) (unat off) (unat l);
          b2 = memcpy_at b1 (unat l) (buffer fifo) 0 (unat (len - l))
      in (len, b2, fifo\<lparr>kf_out := kf_out fifo + len\<rparr>))"

definition uu_kfifo_reset :: "kfifo \<Rightarrow> kfifo" where
  "uu_kfifo_reset fifo = fifo\<lparr>kf_in := 0, kf_out := 0\<rparr>"

definition uu_kfifo_len :: "kfifo \<Rightarrow> u32" where
  "uu_kfifo_len fifo = kf_in fifo - kf_out fifo"

text \<open>The locked wrappers; the lock makes each of them one atomic step.\<close>

definition kfifo_reset :: "kfifo \<Rightarrow> kfifo" where
  "kfifo_reset fifo = uu_kfifo_reset fifo"

definition kfifo_put :: "kfifo \<Rightarrow> (nat \<Rightarrow> u8) \<Rightarrow> u32 \<Rightarrow> u32 \<times> kfifo" where
  "kfifo_put fifo buf len = uu_kfifo_put fifo buf len"

definition kfifo_get :: "kfifo \<Rightarrow> (nat \<Rightarrow> u8) \<Rightarrow> u32 \<Rightarrow> u32 \<times> (nat \<Rightarrow> u8) \<times> kfifo" where
  "kfifo_get fifo buf len =
     (case uu_kfifo_get fifo buf len of
        (ret, b, f) \<Rightarrow> if kf_in f = kf_out f then (ret, b, f\<lparr>kf_in := 0, kf_out := 0\<rparr>) else (ret, b, f))"

definition kfifo_len :: "kfifo \<Rightarrow> u32" where
  "kfifo_len fifo = uu_kfifo_len fifo"

section \<open>Abstraction to a queue of bytes\<close>

definition kfifo_ok :: "kfifo \<Rightarrow> bool" where
  "kfifo_ok f \<longleftrightarrow> (\<exists>k<32. kf_size f = 2 ^ k) \<and> kf_in f - kf_out f \<le> kf_size f"

definition kfifo_contents :: "kfifo \<Rightarrow> u8 list" where
  "kfifo_contents f =
     map (\<lambda>j. buffer f ((unat (kf_out f) + j) mod unat (kf_size f))) [0..<unat (kf_in f - kf_out f)]"

section \<open>The interface of a bounded byte queue\<close>

text \<open>
  What a client of a bounded FIFO relies on: how many items a put accepts and a get
  delivers, and that the abstract contents grow at one end and shrink at the other.
\<close>

datatype ('a, 'n) fifo_op = Put "nat \<Rightarrow> 'a" 'n | Get "nat \<Rightarrow> 'a" 'n

fun fifo_run :: "('q \<Rightarrow> (nat \<Rightarrow> 'a) \<Rightarrow> 'n \<Rightarrow> 'n \<times> 'q) \<Rightarrow> ('q \<Rightarrow> (nat \<Rightarrow> 'a) \<Rightarrow> 'n \<Rightarrow> 'n \<times> (nat \<Rightarrow> 'a) \<times> 'q) \<Rightarrow>
    ('n \<Rightarrow> nat) \<Rightarrow> ('a, 'n) fifo_op list \<Rightarrow> 'q \<Rightarrow> 'a list \<times> 'a list \<times> 'q" where
  "fifo_run put get val [] q = ([], [], q)"
| "fifo_run put get val (Put d n # ops) q =
     (case put q d n of (k, q') \<Rightarrow>
        (case fifo_run put get val ops q' of
           (ins, outs, q'') \<Rightarrow> (map d [0..<val k] @ ins, outs, q'')))"
| "fifo_run put get val (Get d n # ops) q =
     (case get q d n of (k, d', q') \<Rightarrow>
        (case fifo_run put get val ops q' of
           (ins, outs, q'') \<Rightarrow> (ins, map d' [0..<val k] @ outs, q'')))"

locale bounded_fifo =
  fixes put :: "'q \<Rightarrow> (nat \<Rightarrow> 'a) \<Rightarrow> 'n \<Rightarrow> 'n \<times> 'q"
    and get :: "'q \<Rightarrow> (nat \<Rightarrow> 'a) \<Rightarrow> 'n \<Rightarrow> 'n \<times> (nat \<Rightarrow> 'a) \<times> 'q"
    and val :: "'n \<Rightarrow> nat"
    and contents :: "'q \<Rightarrow> 'a list"
    and capacity :: "'q \<Rightarrow> nat"
    and ok :: "'q \<Rightarrow> bool"
  assumes put_law: "ok q \<Longrightarrow> put q d n = (k, q') \<Longrightarrow>
      ok q' \<and> capacity q' = capacity q \<and> val k = min (val n) (capacity q - length (contents q)) \<and>
      contents q' = contents q @ map d [0..<val k]"
    and get_law: "ok q \<Longrightarrow> get q d n = (k, d', q') \<Longrightarrow>
      ok q' \<and> capacity q' = capacity q \<and> val k = min (val n) (length (contents q)) \<and>
      map d' [0..<val k] = take (val k) (contents q) \<and> contents q' = drop (val k) (contents q)"
    and bounded: "ok q \<Longrightarrow> length (contents q) \<le> capacity q"
begin

lemma run_stream:
  "ok q \<Longrightarrow> fifo_run put get val ops q = (ins, outs, q') \<Longrightarrow>
     ok q' \<and> contents q @ ins = outs @ contents q'"
proof (induction ops arbitrary: q ins outs)
  case Nil
  then show ?case by simp
next
  case (Cons op ops)
  show ?case
  proof (cases op)
    case (Put d n)
    obtain k q1 where 1: "put q d n = (k, q1)" by fastforce
    obtain ins' outs' q2 where 2: "fifo_run put get val ops q1 = (ins', outs', q2)" by (metis prod_cases3)
    from put_law [OF Cons.prems(1) 1] Cons.IH [of q1 ins' outs'] Cons.prems(2) 1 2 Put
    show ?thesis by auto
  next
    case (Get d n)
    obtain k d' q1 where 1: "get q d n = (k, d', q1)" by (metis prod_cases3)
    obtain ins' outs' q2 where 2: "fifo_run put get val ops q1 = (ins', outs', q2)" by (metis prod_cases3)
    from get_law [OF Cons.prems(1) 1] Cons.IH [of q1 ins' outs'] Cons.prems(2) 1 2 Get
    have ih: "ok q'" "drop (val k) (contents q) @ ins = outs' @ contents q'" by auto
    have "contents q @ ins = take (val k) (contents q) @ drop (val k) (contents q) @ ins"
      by (metis append.assoc append_take_drop_id)
    moreover have "outs = take (val k) (contents q) @ outs'"
      using get_law [OF Cons.prems(1) 1] Cons.prems(2) 1 2 Get by auto
    ultimately show ?thesis using ih by simp
  qed
qed

end

section \<open>Ring arithmetic\<close>

lemma kfifo_fill:
  assumes "kfifo_ok f"
  shows "unat (kf_size f - kf_in f + kf_out f) = unat (kf_size f) - unat (kf_in f - kf_out f)"
proof -
  have "kf_size f - kf_in f + kf_out f = kf_size f - (kf_in f - kf_out f)" by simp
  with assms show ?thesis by (simp only: kfifo_ok_def unat_sub)
qed

lemma kfifo_in_mod:
  assumes "kfifo_ok f"
  shows "unat (kf_in f) mod unat (kf_size f) =
     (unat (kf_out f) + unat (kf_in f - kf_out f)) mod unat (kf_size f)"
proof -
  obtain k where k: "k < 32" "unat (kf_size f) = 2 ^ k"
    using assms unat_pow2 [where 'a = 32] by (auto simp: kfifo_ok_def)
  have "kf_in f = kf_out f + (kf_in f - kf_out f)" by simp
  then have "unat (kf_in f) = (unat (kf_out f) + unat (kf_in f - kf_out f)) mod 2 ^ 32"
    using unat_word_ariths(1) [of "kf_out f" "kf_in f - kf_out f"] by simp
  then show ?thesis using k pow2_dvd_word [of k 32] by (simp add: mod_mod_cancel)
qed

lemma ring_write:
  fixes b d :: "nat \<Rightarrow> u8"
  assumes a: "a < S" and K: "K \<le> S" and L: "L = min K (S - a)"
  defines "b2 \<equiv> memcpy_at (memcpy_at b a d 0 L) 0 d L (K - L)"
  shows "j < K \<Longrightarrow> b2 ((a + j) mod S) = d j"
    and "(\<And>j. j < K \<Longrightarrow> i \<noteq> (a + j) mod S) \<Longrightarrow> b2 i = b i"
proof -
  { assume j: "j < K"
    show "b2 ((a + j) mod S) = d j"
    proof (cases "a + j < S")
      case True
      with a K L j show ?thesis by (auto simp: b2_def memcpy_at_def)
    next
      case False
      with a K j have "(a + j) mod S = a + j - S"
        by (simp add: mod_if)
      with a K L j False show ?thesis by (auto simp: b2_def memcpy_at_def)
    qed }
  { assume no: "\<And>j. j < K \<Longrightarrow> i \<noteq> (a + j) mod S"
    have "\<not> (a \<le> i \<and> i < a + L)"
    proof
      assume i: "a \<le> i \<and> i < a + L"
      with L K a have "i - a < K" "(a + (i - a)) mod S = i" by auto
      with no [of "i - a"] show False by simp
    qed
    moreover have "\<not> i < K - L"
    proof
      assume i: "i < K - L"
      with L K a have "L + i < K" "a + (L + i) = S + i" "i < S" by auto
      with no [of "L + i"] show False by simp
    qed
    ultimately show "b2 i = b i" by (auto simp: b2_def memcpy_at_def) }
qed

lemma ring_read:
  fixes b d :: "nat \<Rightarrow> u8"
  assumes a: "a < S" and K: "K \<le> S" and L: "L = min K (S - a)"
  defines "b2 \<equiv> memcpy_at (memcpy_at d 0 b a L) L b 0 (K - L)"
  shows "j < K \<Longrightarrow> b2 j = b ((a + j) mod S)" and "K \<le> j \<Longrightarrow> b2 j = d j"
proof -
  { assume j: "j < K"
    show "b2 j = b ((a + j) mod S)"
    proof (cases "a + j < S")
      case True
      with a K L j show ?thesis by (auto simp: b2_def memcpy_at_def)
    next
      case False
      with a K j have "(a + j) mod S = a + j - S"
        by (simp add: mod_if)
      with a K L j False show ?thesis by (auto simp: b2_def memcpy_at_def add.commute)
    qed }
  { assume "K \<le> j"
    with L show "b2 j = d j" by (auto simp: b2_def memcpy_at_def) }
qed

lemma kfifo_size_unat:
  assumes "kfifo_ok f"
  obtains k where "k < 32" "unat (kf_size f) = 2 ^ k" "\<And>x. unat (x AND (kf_size f - 1)) = unat x mod 2 ^ k"
proof -
  from assms obtain k where k: "k < 32" "kf_size f = 2 ^ k" by (auto simp: kfifo_ok_def)
  then have "unat (kf_size f) = 2 ^ k" using unat_pow2 [where 'a = 32, of k] by simp
  moreover have "\<And>x. unat (x AND (kf_size f - 1)) = unat x mod 2 ^ k"
    using k unat_and_pow2_minus_1 [where 'a = 32, of k] by simp
  ultimately show thesis using that k by blast
qed

lemma kfifo_contents_length: "length (kfifo_contents f) = unat (kf_in f - kf_out f)"
  by (simp add: kfifo_contents_def)

lemma kfifo_put_spec:
  assumes ok: "kfifo_ok f" and put: "uu_kfifo_put f d n = (k, f')"
  shows "kfifo_ok f'" "kf_size f' = kf_size f"
    "unat k = min (unat n) (unat (kf_size f) - length (kfifo_contents f))"
    "kfifo_contents f' = kfifo_contents f @ map d [0..<unat k]"
    "\<And>i. unat (kf_size f) \<le> i \<Longrightarrow> buffer f' i = buffer f i"
proof -
  let ?S = "unat (kf_size f)" and ?c = "unat (kf_in f - kf_out f)"
  obtain q where q: "q < 32" "?S = 2 ^ q" "\<And>x. unat (x AND (kf_size f - 1)) = unat x mod 2 ^ q"
    using kfifo_size_unat [OF ok] by blast
  let ?off = "kf_in f AND (kf_size f - 1)"
  have off: "unat ?off = unat (kf_in f) mod ?S" using q by simp
  have offlt: "unat ?off < ?S" using off q(2) by simp
  have k: "k = min n (kf_size f - kf_in f + kf_out f)" and
    f': "f' = f\<lparr>buffer := memcpy_at (memcpy_at (buffer f) (unat ?off) d 0 (unat (min k (kf_size f - ?off)))) 0 d
              (unat (min k (kf_size f - ?off))) (unat (k - min k (kf_size f - ?off))), kf_in := kf_in f + k\<rparr>"
    using put by (auto simp: uu_kfifo_put_def Let_def)
  show uk: "unat k = min (unat n) (?S - length (kfifo_contents f))"
    using kfifo_fill [OF ok] by (simp add: k kfifo_contents_length min_def word_le_nat_alt)
  have cS: "?c \<le> ?S" using ok by (simp add: kfifo_ok_def word_le_nat_alt)
  then have kS: "?c + unat k \<le> ?S" using uk by (simp add: kfifo_contents_length)
  have uL: "unat (min k (kf_size f - ?off)) = min (unat k) (?S - unat ?off)"
    using offlt by (simp add: min_def word_le_nat_alt unat_sub)
  have uKL: "unat (k - min k (kf_size f - ?off)) = unat k - unat (min k (kf_size f - ?off))"
    by (simp add: unat_sub)
  have K: "unat k \<le> ?S" using kS by simp
  have Wr: "\<And>j. j < unat k \<Longrightarrow> buffer f' ((unat ?off + j) mod ?S) = d j"
    and Wf: "\<And>i. (\<And>j. j < unat k \<Longrightarrow> i \<noteq> (unat ?off + j) mod ?S) \<Longrightarrow> buffer f' i = buffer f i"
    using ring_write [OF offlt K uL, where b = "buffer f" and d = d] by (simp_all add: f' uKL)
  show "kf_size f' = kf_size f" by (simp add: f')
  show "buffer f' i = buffer f i" if "?S \<le> i" for i
    using that offlt by (intro Wf) (metis mod_less_divisor not_less order.strict_trans1 zero_le)
  have sum: "unat (kf_in f + k - kf_out f) = ?c + unat k"
  proof -
    have e: "kf_in f + k - kf_out f = (kf_in f - kf_out f) + k" by simp
    have "?c + unat k < 2 ^ 32" using kS unat_bound [of "kf_size f"] by simp
    then show ?thesis unfolding e using unat_add_lem [of "kf_in f - kf_out f" k] by simp
  qed
  show "kfifo_ok f'"
    using ok sum kS by (simp add: kfifo_ok_def f' word_le_nat_alt)
  have idx: "(unat ?off + j) mod ?S = (unat (kf_out f) + (?c + j)) mod ?S" for j
    by (metis off kfifo_in_mod [OF ok] mod_add_left_eq add.assoc)
  have old: "buffer f' ((unat (kf_out f) + j) mod ?S) = buffer f ((unat (kf_out f) + j) mod ?S)" if "j < ?c" for j
  proof (rule Wf)
    fix j' assume "j' < unat k"
    with that kS ring_offset_inj [of j ?S "?c + j'" "unat (kf_out f)"]
    show "(unat (kf_out f) + j) mod ?S \<noteq> (unat ?off + j') mod ?S" by (auto simp: idx)
  qed
  have new: "buffer f' ((unat (kf_out f) + (?c + j)) mod ?S) = d j" if "j < unat k" for j
    using Wr [OF that] by (simp add: idx)
  have eqs: "kf_size f' = kf_size f" "kf_out f' = kf_out f" "unat (kf_in f' - kf_out f) = ?c + unat k"
    using sum by (simp_all add: f')
  show "kfifo_contents f' = kfifo_contents f @ map d [0..<unat k]"
  proof (rule nth_equalityI)
    show "length (kfifo_contents f') = length (kfifo_contents f @ map d [0..<unat k])"
      by (simp add: kfifo_contents_def eqs)
    fix i assume "i < length (kfifo_contents f')"
    then have i: "i < ?c + unat k" by (simp add: kfifo_contents_def eqs)
    show "kfifo_contents f' ! i = (kfifo_contents f @ map d [0..<unat k]) ! i"
      using i old [of i] new [of "i - ?c"] by (cases "i < ?c") (simp_all add: kfifo_contents_def eqs nth_append)
  qed
qed

lemma kfifo_get_spec:
  assumes ok: "kfifo_ok f" and get: "uu_kfifo_get f d n = (k, d', f')"
  shows "kfifo_ok f'" "kf_size f' = kf_size f"
    "unat k = min (unat n) (length (kfifo_contents f))"
    "map d' [0..<unat k] = take (unat k) (kfifo_contents f)"
    "kfifo_contents f' = drop (unat k) (kfifo_contents f)"
    "\<And>i. unat k \<le> i \<Longrightarrow> d' i = d i"
proof -
  let ?S = "unat (kf_size f)" and ?c = "unat (kf_in f - kf_out f)"
  obtain q where q: "q < 32" "?S = 2 ^ q" "\<And>x. unat (x AND (kf_size f - 1)) = unat x mod 2 ^ q"
    using kfifo_size_unat [OF ok] by blast
  let ?off = "kf_out f AND (kf_size f - 1)"
  have off: "unat ?off = unat (kf_out f) mod ?S" using q by simp
  have offlt: "unat ?off < ?S" using off q(2) by simp
  have k: "k = min n (kf_in f - kf_out f)" and
    d': "d' = memcpy_at (memcpy_at d 0 (buffer f) (unat ?off) (unat (min k (kf_size f - ?off))))
              (unat (min k (kf_size f - ?off))) (buffer f) 0 (unat (k - min k (kf_size f - ?off)))" and
    f': "f' = f\<lparr>kf_out := kf_out f + k\<rparr>"
    using get by (auto simp: uu_kfifo_get_def Let_def)
  show uk: "unat k = min (unat n) (length (kfifo_contents f))"
    by (simp add: k kfifo_contents_length min_def word_le_nat_alt)
  have cS: "?c \<le> ?S" using ok by (simp add: kfifo_ok_def word_le_nat_alt)
  then have kc: "unat k \<le> ?c" using uk by (simp add: kfifo_contents_length)
  have uL: "unat (min k (kf_size f - ?off)) = min (unat k) (?S - unat ?off)"
    using offlt by (simp add: min_def word_le_nat_alt unat_sub)
  have uKL: "unat (k - min k (kf_size f - ?off)) = unat k - unat (min k (kf_size f - ?off))"
    by (simp add: unat_sub)
  have K: "unat k \<le> ?S" using kc cS by simp
  have R: "\<And>j. j < unat k \<Longrightarrow> d' j = buffer f ((unat (kf_out f) + j) mod ?S)"
    and Rf: "\<And>i. unat k \<le> i \<Longrightarrow> d' i = d i"
    using ring_read [OF offlt K uL, where b = "buffer f" and d = d] by (simp_all add: d' uKL off mod_add_left_eq)
  show "\<And>i. unat k \<le> i \<Longrightarrow> d' i = d i" by (rule Rf)
  show "kf_size f' = kf_size f" by (simp add: f')
  have diff: "unat (kf_in f - (kf_out f + k)) = ?c - unat k"
  proof -
    have "kf_in f - (kf_out f + k) = (kf_in f - kf_out f) - k" by simp
    then show ?thesis using kc by (simp only: unat_sub word_le_nat_alt)
  qed
  show "kfifo_ok f'"
    using ok diff cS by (simp add: kfifo_ok_def f' word_le_nat_alt)
  show "map d' [0..<unat k] = take (unat k) (kfifo_contents f)"
    using kc by (simp add: kfifo_contents_def take_map R)
  have out: "(unat (kf_out f + k) + j) mod ?S = (unat (kf_out f) + (unat k + j)) mod ?S" for j
  proof -
    have "unat (kf_out f + k) = (unat (kf_out f) + unat k) mod 2 ^ 32"
      using unat_word_ariths(1) [of "kf_out f" k] by simp
    then have "unat (kf_out f + k) mod ?S = (unat (kf_out f) + unat k) mod ?S"
      using q pow2_dvd_word [of q 32] by (simp add: mod_mod_cancel)
    from mod_add_cong [OF this refl, of j] show ?thesis by (simp add: add.assoc)
  qed
  have "drop (unat k) (kfifo_contents f) =
      map (\<lambda>j. buffer f ((unat (kf_out f) + (unat k + j)) mod ?S)) [0..<?c - unat k]"
    by (rule nth_equalityI) (simp_all add: kfifo_contents_def less_diff_conv)
  then show "kfifo_contents f' = drop (unat k) (kfifo_contents f)"
    by (simp add: kfifo_contents_def f' diff out)
qed

interpretation kf: bounded_fifo uu_kfifo_put uu_kfifo_get unat kfifo_contents "\<lambda>f. unat (kf_size f)" kfifo_ok
proof
  fix q d n k q' assume "kfifo_ok q" "uu_kfifo_put q d n = (k, q')"
  from kfifo_put_spec(1-4) [OF this]
  show "kfifo_ok q' \<and> unat (kf_size q') = unat (kf_size q) \<and>
      unat k = min (unat n) (unat (kf_size q) - length (kfifo_contents q)) \<and>
      kfifo_contents q' = kfifo_contents q @ map d [0..<unat k]" by simp
next
  fix q d n k d' q' assume "kfifo_ok q" "uu_kfifo_get q d n = (k, d', q')"
  from kfifo_get_spec(1-5) [OF this]
  show "kfifo_ok q' \<and> unat (kf_size q') = unat (kf_size q) \<and>
      unat k = min (unat n) (length (kfifo_contents q)) \<and>
      map d' [0..<unat k] = take (unat k) (kfifo_contents q) \<and>
      kfifo_contents q' = drop (unat k) (kfifo_contents q)" by simp
next
  fix q assume "kfifo_ok q"
  then show "length (kfifo_contents q) \<le> unat (kf_size q)"
    by (simp add: kfifo_contents_length kfifo_ok_def word_le_nat_alt)
qed

text \<open>The locked operations keep the same contract, although \<open>kfifo_get\<close> rewinds an empty FIFO.\<close>

lemma kfifo_rewind:
  assumes "kfifo_ok f" "kf_in f = kf_out f"
  shows "kfifo_ok (f\<lparr>kf_in := 0, kf_out := 0\<rparr>)" "kfifo_contents (f\<lparr>kf_in := 0, kf_out := 0\<rparr>) = kfifo_contents f"
  using assms by (auto simp: kfifo_ok_def kfifo_contents_def)

interpretation lkf: bounded_fifo kfifo_put kfifo_get unat kfifo_contents "\<lambda>f. unat (kf_size f)" kfifo_ok
proof
  fix q d n k q' assume "kfifo_ok q" "kfifo_put q d n = (k, q')"
  then show "kfifo_ok q' \<and> unat (kf_size q') = unat (kf_size q) \<and>
      unat k = min (unat n) (unat (kf_size q) - length (kfifo_contents q)) \<and>
      kfifo_contents q' = kfifo_contents q @ map d [0..<unat k]"
    unfolding kfifo_put_def by (rule kf.put_law)
next
  fix q d n k d' q' assume ok: "kfifo_ok q" and get: "kfifo_get q d n = (k, d', q')"
  obtain f where f: "uu_kfifo_get q d n = (k, d', f)"
      "q' = (if kf_in f = kf_out f then f\<lparr>kf_in := 0, kf_out := 0\<rparr> else f)"
    using get by (auto simp: kfifo_get_def split: prod.splits if_splits)
  from kf.get_law [OF ok f(1)] f(2) kfifo_rewind [of f]
  show "kfifo_ok q' \<and> unat (kf_size q') = unat (kf_size q) \<and>
      unat k = min (unat n) (length (kfifo_contents q)) \<and>
      map d' [0..<unat k] = take (unat k) (kfifo_contents q) \<and>
      kfifo_contents q' = drop (unat k) (kfifo_contents q)" by auto
qed (rule kf.bounded)

section \<open>Properties\<close>

text \<open>
  C5. Put and get of the ring buffer refine appending to and removing from a list of bytes,
  for every value of the free-running 32-bit indices: a put stores as many bytes as there is
  room for at the end, a get delivers as many as there are from the front, the invariant is
  kept, a put writes nothing outside the buffer and a get nothing past the bytes it reports.
\<close>

theorem kfifo_refines_queue:
  assumes "kfifo_ok f"
  shows "(case uu_kfifo_put f d n of (k, f') \<Rightarrow>
       kfifo_ok f' \<and> kfifo_contents f' = kfifo_contents f @ map d [0..<unat k] \<and>
       unat k = min (unat n) (unat (kf_size f) - length (kfifo_contents f)) \<and>
       (\<forall>i. unat (kf_size f) \<le> i \<longrightarrow> buffer f' i = buffer f i)) \<and>
     (case uu_kfifo_get f d n of (k, d', f') \<Rightarrow>
       kfifo_ok f' \<and> map d' [0..<unat k] @ kfifo_contents f' = kfifo_contents f \<and>
       unat k = min (unat n) (length (kfifo_contents f)) \<and> (\<forall>i. unat k \<le> i \<longrightarrow> d' i = d i))"
proof (intro conjI)
  show "case uu_kfifo_put f d n of (k, f') \<Rightarrow>
       kfifo_ok f' \<and> kfifo_contents f' = kfifo_contents f @ map d [0..<unat k] \<and>
       unat k = min (unat n) (unat (kf_size f) - length (kfifo_contents f)) \<and>
       (\<forall>i. unat (kf_size f) \<le> i \<longrightarrow> buffer f' i = buffer f i)"
    using kfifo_put_spec [OF assms, of d n] by (auto split: prod.split)
  show "case uu_kfifo_get f d n of (k, d', f') \<Rightarrow>
       kfifo_ok f' \<and> map d' [0..<unat k] @ kfifo_contents f' = kfifo_contents f \<and>
       unat k = min (unat n) (length (kfifo_contents f)) \<and> (\<forall>i. unat k \<le> i \<longrightarrow> d' i = d i)"
    using kfifo_get_spec [OF assms, of d n] by (auto split: prod.split)
qed

text \<open>
  C6. End to end: over any sequence of locked puts and gets, the bytes delivered followed by
  what is left in the FIFO are exactly its initial contents followed by the bytes accepted.
  Nothing is lost, duplicated or reordered, also across the wrap-around of the indices.
\<close>

theorem kfifo_stream:
  assumes "kfifo_ok f" and "fifo_run kfifo_put kfifo_get unat ops f = (ins, outs, f')"
  shows "kfifo_ok f' \<and> kfifo_contents f @ ins = outs @ kfifo_contents f'"
  using assms by (rule lkf.run_stream)

text \<open>
  C7. Allocation. For a requested size from 1 to \<open>0x80000000\<close> \<open>kfifo_alloc\<close> never
  hits a \<open>BUG_ON\<close>. If it fails it reports \<open>ENOMEM\<close> and leaves nothing allocated;
  otherwise it returns a well-formed empty FIFO whose size is the least power of two that is
  large enough, and \<open>kfifo_free\<close> gives both blocks back.
\<close>

theorem kfifo_alloc_correct:
  assumes "0 < sz" and "sz \<le> 0x80000000"
  shows "\<exists>r live'. kfifo_alloc live buf sz ok_buf ok_fifo = Some (r, live') \<and>
    (case r of
       Inl e \<Rightarrow> \<not> (ok_buf \<and> ok_fifo) \<and> e = ENOMEM \<and> live' = live
     | Inr f \<Rightarrow> kfifo_ok f \<and> kfifo_contents f = [] \<and> sz \<le> kf_size f \<and>
         (\<forall>j<32. sz \<le> 2 ^ j \<longrightarrow> kf_size f \<le> 2 ^ j) \<and> kfifo_free live' f = live)"
proof -
  have init: "kfifo_init live buf (2 ^ k) ok = Some (if ok then (Inr \<lparr>buffer = buf, kf_size = 2 ^ k, kf_in = 0, kf_out = 0\<rparr>, live + 1) else (Inl ENOMEM, live))" for live k ok
    by (simp add: kfifo_init_def and_minus_1_pow2)
  obtain k where k: "k < 32" "sz \<le> 2 ^ k" "\<forall>j<32. sz \<le> 2 ^ j \<longrightarrow> (2::u32) ^ k \<le> 2 ^ j"
    and sz: "(if sz AND (sz - 1) \<noteq> 0 then roundup_pow_of_two sz else sz) = 2 ^ k"
  proof (cases "sz AND (sz - 1) = 0")
    case True
    with assms obtain k where "k < 32" "sz = 2 ^ k" using and_minus_1_zero [of sz] by auto
    with True that show thesis by auto
  next
    case False
    have "1 < sz"
    proof (rule ccontr)
      assume "\<not> 1 < sz"
      with assms(1) have "unat sz = unat (1::u32)" by (simp add: word_less_nat_alt)
      then have "sz = 1" by (simp only: word_unat_eq_iff)
      with False show False by simp
    qed
    from roundup_pow_of_two_correct [OF this assms(2)] obtain k where k: "k < 32" "roundup_pow_of_two sz = 2 ^ k"
      "sz \<le> 2 ^ k" "\<forall>j<k. 2 ^ j < sz" by blast
    have "(2::u32) ^ k \<le> 2 ^ j" if j: "j < 32" "sz \<le> 2 ^ j" for j
    proof -
      have "\<not> j < k" using k(4) j(2) by (meson leD)
      then have "(2::nat) ^ k \<le> 2 ^ j" by (intro power_increasing) auto
      with j k(1) show ?thesis by (simp add: word_le_nat_alt unat_pow2)
    qed
    with k False that show thesis by auto
  qed
  let ?f = "\<lparr>buffer = buf, kf_size = 2 ^ k, kf_in = 0, kf_out = 0\<rparr>"
  have f: "kfifo_ok ?f" "kfifo_contents ?f = []" using k(1) by (auto simp: kfifo_ok_def kfifo_contents_def)
  have "kfifo_alloc live buf sz ok_buf ok_fifo =
      Some (if ok_buf \<and> ok_fifo then (Inr ?f, live + 1 + 1) else (Inl ENOMEM, live))"
    using sz assms(2) by (auto simp: kfifo_alloc_def init Let_def split: if_splits)
  with f k show ?thesis by (auto simp: kfifo_free_def)
qed

section \<open>Witnesses\<close>

theorem kfifo_alloc_correct_witness:
  "\<exists>f live'. kfifo_alloc 0 (\<lambda>_. 0) 5 True True = Some (Inr f, live') \<and> kfifo_ok f \<and> 5 \<le> kf_size f"
proof -
  have h: "(0::u32) < 5" "(5::u32) \<le> 0x80000000" by simp_all
  from kfifo_alloc_correct [OF h, of 0 "\<lambda>_. 0" True True] obtain r live'
    where r: "kfifo_alloc 0 (\<lambda>_. 0) 5 True True = Some (r, live')"
      "case r of Inl e \<Rightarrow> False | Inr f \<Rightarrow> kfifo_ok f \<and> 5 \<le> kf_size f"
    by (fastforce split: sum.splits)
  then show ?thesis by (cases r) auto
qed

definition kfifo_sample :: kfifo where
  "kfifo_sample = \<lparr>buffer = (\<lambda>i. of_nat i), kf_size = 8, kf_in = 2, kf_out = 0xFFFFFFFE\<rparr>"

lemma kfifo_sample_ok: "kfifo_ok kfifo_sample"
  by (auto simp: kfifo_ok_def kfifo_sample_def intro!: exI [of _ 3])

theorem kfifo_refines_queue_witness:
  "kfifo_contents kfifo_sample = [6, 7, 0, 1] \<and>
   (case uu_kfifo_put kfifo_sample (\<lambda>_. 9) 7 of (k, f') \<Rightarrow> kfifo_contents f' = [6, 7, 0, 1, 9, 9, 9, 9])"
proof -
  have c: "kfifo_contents kfifo_sample = [6, 7, 0, 1]"
    by (simp add: kfifo_contents_def kfifo_sample_def upt_rec)
  have k: "fst (uu_kfifo_put kfifo_sample (\<lambda>_. 9) 7) = 4"
    by (simp add: uu_kfifo_put_def kfifo_sample_def Let_def)
  from kfifo_refines_queue [OF kfifo_sample_ok, of "\<lambda>_. 9" 7] c k show ?thesis
    by (auto split: prod.splits simp: upt_rec)
qed

theorem kfifo_stream_witness:
  "case fifo_run kfifo_put kfifo_get unat [Put (\<lambda>_. 9) 3, Get (\<lambda>_. 0) 5] kfifo_sample of
     (ins, outs, f') \<Rightarrow> kfifo_ok f' \<and> [6, 7, 0, 1] @ ins = outs @ kfifo_contents f'"
proof -
  have c: "kfifo_contents kfifo_sample = [6, 7, 0, 1]"
    by (simp add: kfifo_contents_def kfifo_sample_def upt_rec)
  obtain ins outs f' where r: "fifo_run kfifo_put kfifo_get unat [Put (\<lambda>_. 9) 3, Get (\<lambda>_. 0) 5] kfifo_sample
      = (ins, outs, f')" by (metis prod_cases3)
  from kfifo_stream [OF kfifo_sample_ok r] r c show ?thesis by simp
qed

end
