(* ===== verification/Bitmap.thy ===== *)
theory Bitmap
  imports Bitops
begin

text \<open>
  The bitmap library: \<open>lib/bitmap.c\<close>, the inline operations of \<open>include/linux/bitmap.h\<close>,
  the non-atomic single-bit operations of \<open>include/asm-arm/bitops.h\<close> and the fallback search
  of \<open>lib/find_next_bit.c\<close>.

  Memory is a function from word addresses to 32-bit words and a bitmap pointer is the address
  of its first word, so a destination may be one of the sources, as callers do, and a store
  outside the bitmap is visible. The \<open>int\<close> arguments that give a number of bits, a shift or
  a position are natural numbers. A store through \<open>dst[-1]\<close> is \<open>None\<close>.
\<close>

section \<open>Definitions\<close>

type_synonym wmem = "nat \<Rightarrow> u32"

definition BITS_TO_LONGS :: "nat \<Rightarrow> nat" where
  "BITS_TO_LONGS bits = (bits + 31) div 32"

definition BITMAP_LAST_WORD_MASK :: "nat \<Rightarrow> u32" where
  "BITMAP_LAST_WORD_MASK nbits = (if nbits mod 32 \<noteq> 0 then push_bit (nbits mod 32) 1 - 1 else NOT 0)"

definition memset_words :: "wmem \<Rightarrow> nat \<Rightarrow> u32 \<Rightarrow> nat \<Rightarrow> wmem" where
  "memset_words m p v n = (\<lambda>j. if p \<le> j \<and> j < p + n then v else m j)"

definition memcpy_words :: "wmem \<Rightarrow> nat \<Rightarrow> nat \<Rightarrow> nat \<Rightarrow> wmem" where
  "memcpy_words m dst src n = (\<lambda>j. if dst \<le> j \<and> j < dst + n then m (src + (j - dst)) else m j)"

subsection \<open>Single bits\<close>

definition uu_set_bit :: "nat \<Rightarrow> nat \<Rightarrow> wmem \<Rightarrow> wmem" where
  "uu_set_bit nr p m = m(p + nr div 32 := m (p + nr div 32) OR push_bit (nr mod 32) 1)"

definition uu_clear_bit :: "nat \<Rightarrow> nat \<Rightarrow> wmem \<Rightarrow> wmem" where
  "uu_clear_bit nr p m = m(p + nr div 32 := m (p + nr div 32) AND NOT (push_bit (nr mod 32) 1))"

definition uu_change_bit :: "nat \<Rightarrow> nat \<Rightarrow> wmem \<Rightarrow> wmem" where
  "uu_change_bit nr p m = m(p + nr div 32 := m (p + nr div 32) XOR push_bit (nr mod 32) 1)"

definition uu_test_and_set_bit :: "nat \<Rightarrow> nat \<Rightarrow> wmem \<Rightarrow> u32 \<times> wmem" where
  "uu_test_and_set_bit nr p m =
     (let mask = push_bit (nr mod 32) 1; p = p + nr div 32; oldval = m p
      in (oldval AND mask, m(p := oldval OR mask)))"

definition uu_test_and_clear_bit :: "nat \<Rightarrow> nat \<Rightarrow> wmem \<Rightarrow> u32 \<times> wmem" where
  "uu_test_and_clear_bit nr p m =
     (let mask = push_bit (nr mod 32) 1; p = p + nr div 32; oldval = m p
      in (oldval AND mask, m(p := oldval AND NOT mask)))"

definition uu_test_and_change_bit :: "nat \<Rightarrow> nat \<Rightarrow> wmem \<Rightarrow> u32 \<times> wmem" where
  "uu_test_and_change_bit nr p m =
     (let mask = push_bit (nr mod 32) 1; p = p + nr div 32; oldval = m p
      in (oldval AND mask, m(p := oldval XOR mask)))"

definition uu_test_bit :: "nat \<Rightarrow> nat \<Rightarrow> wmem \<Rightarrow> u32" where
  "uu_test_bit nr p m = drop_bit (nr mod 32) (m (p + nr div 32)) AND 1"

subsection \<open>Tests\<close>

text \<open>A loop that returns from inside is \<open>list_ex\<close> over the index range: it stops at the
  first word for which the condition holds.\<close>

definition uu_bitmap_empty :: "wmem \<Rightarrow> nat \<Rightarrow> nat \<Rightarrow> bool" where
  "uu_bitmap_empty m bitmap bits =
     (let lim = bits div 32
      in if list_ex (\<lambda>k. m (bitmap + k) \<noteq> 0) [0..<lim] then False
         else if bits mod 32 \<noteq> 0 \<and> m (bitmap + lim) AND BITMAP_LAST_WORD_MASK bits \<noteq> 0 then False
         else True)"

definition uu_bitmap_full :: "wmem \<Rightarrow> nat \<Rightarrow> nat \<Rightarrow> bool" where
  "uu_bitmap_full m bitmap bits =
     (let lim = bits div 32
      in if list_ex (\<lambda>k. NOT (m (bitmap + k)) \<noteq> 0) [0..<lim] then False
         else if bits mod 32 \<noteq> 0 \<and> NOT (m (bitmap + lim)) AND BITMAP_LAST_WORD_MASK bits \<noteq> 0 then False
         else True)"

definition uu_bitmap_equal :: "wmem \<Rightarrow> nat \<Rightarrow> nat \<Rightarrow> nat \<Rightarrow> bool" where
  "uu_bitmap_equal m bitmap1 bitmap2 bits =
     (let lim = bits div 32
      in if list_ex (\<lambda>k. m (bitmap1 + k) \<noteq> m (bitmap2 + k)) [0..<lim] then False
         else if bits mod 32 \<noteq> 0 \<and>
             (m (bitmap1 + lim) XOR m (bitmap2 + lim)) AND BITMAP_LAST_WORD_MASK bits \<noteq> 0 then False
         else True)"

definition uu_bitmap_intersects :: "wmem \<Rightarrow> nat \<Rightarrow> nat \<Rightarrow> nat \<Rightarrow> bool" where
  "uu_bitmap_intersects m bitmap1 bitmap2 bits =
     (let lim = bits div 32
      in if list_ex (\<lambda>k. m (bitmap1 + k) AND m (bitmap2 + k) \<noteq> 0) [0..<lim] then True
         else if bits mod 32 \<noteq> 0 \<and>
             (m (bitmap1 + lim) AND m (bitmap2 + lim)) AND BITMAP_LAST_WORD_MASK bits \<noteq> 0 then True
         else False)"

definition uu_bitmap_subset :: "wmem \<Rightarrow> nat \<Rightarrow> nat \<Rightarrow> nat \<Rightarrow> bool" where
  "uu_bitmap_subset m bitmap1 bitmap2 bits =
     (let lim = bits div 32
      in if list_ex (\<lambda>k. m (bitmap1 + k) AND NOT (m (bitmap2 + k)) \<noteq> 0) [0..<lim] then False
         else if bits mod 32 \<noteq> 0 \<and>
             (m (bitmap1 + lim) AND NOT (m (bitmap2 + lim))) AND BITMAP_LAST_WORD_MASK bits \<noteq> 0 then False
         else True)"

definition uu_bitmap_weight :: "wmem \<Rightarrow> nat \<Rightarrow> nat \<Rightarrow> u32" where
  "uu_bitmap_weight m bitmap bits =
     (let lim = bits div 32;
          w = fold (\<lambda>k w. w + generic_hweight32 (m (bitmap + k))) [0..<lim] 0
      in if bits mod 32 \<noteq> 0
         then w + generic_hweight32 (m (bitmap + lim) AND BITMAP_LAST_WORD_MASK bits) else w)"

subsection \<open>Stores\<close>

definition uu_bitmap_complement :: "nat \<Rightarrow> nat \<Rightarrow> nat \<Rightarrow> wmem \<Rightarrow> wmem" where
  "uu_bitmap_complement dst src bits m =
     (let lim = bits div 32;
          m = fold (\<lambda>k m. m(dst + k := NOT (m (src + k)))) [0..<lim] m
      in if bits mod 32 \<noteq> 0
         then m(dst + lim := NOT (m (src + lim)) AND BITMAP_LAST_WORD_MASK bits) else m)"

definition uu_bitmap_and :: "nat \<Rightarrow> nat \<Rightarrow> nat \<Rightarrow> nat \<Rightarrow> wmem \<Rightarrow> wmem" where
  "uu_bitmap_and dst bitmap1 bitmap2 bits m =
     fold (\<lambda>k m. m(dst + k := m (bitmap1 + k) AND m (bitmap2 + k))) [0..<BITS_TO_LONGS bits] m"

definition uu_bitmap_or :: "nat \<Rightarrow> nat \<Rightarrow> nat \<Rightarrow> nat \<Rightarrow> wmem \<Rightarrow> wmem" where
  "uu_bitmap_or dst bitmap1 bitmap2 bits m =
     fold (\<lambda>k m. m(dst + k := m (bitmap1 + k) OR m (bitmap2 + k))) [0..<BITS_TO_LONGS bits] m"

definition uu_bitmap_xor :: "nat \<Rightarrow> nat \<Rightarrow> nat \<Rightarrow> nat \<Rightarrow> wmem \<Rightarrow> wmem" where
  "uu_bitmap_xor dst bitmap1 bitmap2 bits m =
     fold (\<lambda>k m. m(dst + k := m (bitmap1 + k) XOR m (bitmap2 + k))) [0..<BITS_TO_LONGS bits] m"

definition uu_bitmap_andnot :: "nat \<Rightarrow> nat \<Rightarrow> nat \<Rightarrow> nat \<Rightarrow> wmem \<Rightarrow> wmem" where
  "uu_bitmap_andnot dst bitmap1 bitmap2 bits m =
     fold (\<lambda>k m. m(dst + k := m (bitmap1 + k) AND NOT (m (bitmap2 + k)))) [0..<BITS_TO_LONGS bits] m"

text \<open>The body of the loop of \<open>__bitmap_shift_right\<close> at index \<open>k\<close>.\<close>

definition shift_right_word :: "nat \<Rightarrow> nat \<Rightarrow> nat \<Rightarrow> nat \<Rightarrow> nat \<Rightarrow> wmem \<Rightarrow> wmem" where
  "shift_right_word dst src shift bits k m =
     (let lim = BITS_TO_LONGS bits; left = bits mod 32; off = shift div 32; rem = shift mod 32;
          mask = push_bit left 1 - 1;
          upper = (if rem = 0 \<or> off + k + 1 \<ge> lim then 0
                   else let upper = m (src + (off + k + 1))
                        in if off + k + 1 = lim - 1 \<and> left \<noteq> 0 then upper AND mask else upper);
          lower = m (src + (off + k));
          lower = (if left \<noteq> 0 \<and> off + k = lim - 1 then lower AND mask else lower);
          m = m(dst + k := push_bit (32 - rem) upper OR drop_bit rem lower)
      in if left \<noteq> 0 \<and> k = lim - 1 then m(dst + k := m (dst + k) AND mask) else m)"

definition uu_bitmap_shift_right :: "nat \<Rightarrow> nat \<Rightarrow> nat \<Rightarrow> nat \<Rightarrow> wmem \<Rightarrow> wmem" where
  "uu_bitmap_shift_right dst src shift bits m =
     (let lim = BITS_TO_LONGS bits; off = shift div 32;
          m = fold (shift_right_word dst src shift bits) [0..<lim - off] m
      in if off \<noteq> 0 then memset_words m (dst + lim - off) 0 off else m)"

text \<open>The body of the loop of \<open>__bitmap_shift_left\<close> at index \<open>k\<close>, which counts down.\<close>

definition shift_left_word :: "nat \<Rightarrow> nat \<Rightarrow> nat \<Rightarrow> nat \<Rightarrow> nat \<Rightarrow> wmem \<Rightarrow> wmem" where
  "shift_left_word dst src shift bits k m =
     (let lim = BITS_TO_LONGS bits; left = bits mod 32; off = shift div 32; rem = shift mod 32;
          lower = (if rem \<noteq> 0 \<and> k > 0 then m (src + (k - 1)) else 0);
          upper = m (src + k);
          upper = (if left \<noteq> 0 \<and> k = lim - 1 then upper AND (push_bit left 1 - 1) else upper);
          m = m(dst + (k + off) := drop_bit (32 - rem) lower OR push_bit rem upper)
      in if left \<noteq> 0 \<and> k + off = lim - 1
         then m(dst + (k + off) := m (dst + (k + off)) AND (push_bit left 1 - 1)) else m)"

definition uu_bitmap_shift_left :: "nat \<Rightarrow> nat \<Rightarrow> nat \<Rightarrow> nat \<Rightarrow> wmem \<Rightarrow> wmem" where
  "uu_bitmap_shift_left dst src shift bits m =
     (let lim = BITS_TO_LONGS bits; off = shift div 32;
          m = fold (shift_left_word dst src shift bits) (rev [0..<lim - off]) m
      in if off \<noteq> 0 then memset_words m dst 0 off else m)"

subsection \<open>The inline operations, with their one-word case\<close>

definition bitmap_zero :: "nat \<Rightarrow> nat \<Rightarrow> wmem \<Rightarrow> wmem" where
  "bitmap_zero dst nbits m = (if nbits \<le> 32 then m(dst := 0) else memset_words m dst 0 (BITS_TO_LONGS nbits))"

definition bitmap_fill :: "nat \<Rightarrow> nat \<Rightarrow> wmem \<Rightarrow> wmem option" where
  "bitmap_fill dst nbits m =
     (let nlongs = BITS_TO_LONGS nbits;
          m = (if nlongs > 1 then memset_words m dst (NOT 0) (nlongs - 1) else m)
      in if nlongs = 0 then None else Some (m(dst + (nlongs - 1) := BITMAP_LAST_WORD_MASK nbits)))"

definition bitmap_copy :: "nat \<Rightarrow> nat \<Rightarrow> nat \<Rightarrow> wmem \<Rightarrow> wmem" where
  "bitmap_copy dst src nbits m =
     (if nbits \<le> 32 then m(dst := m src) else memcpy_words m dst src (BITS_TO_LONGS nbits))"

definition bitmap_and :: "nat \<Rightarrow> nat \<Rightarrow> nat \<Rightarrow> nat \<Rightarrow> wmem \<Rightarrow> wmem" where
  "bitmap_and dst src1 src2 nbits m =
     (if nbits \<le> 32 then m(dst := m src1 AND m src2) else uu_bitmap_and dst src1 src2 nbits m)"

definition bitmap_or :: "nat \<Rightarrow> nat \<Rightarrow> nat \<Rightarrow> nat \<Rightarrow> wmem \<Rightarrow> wmem" where
  "bitmap_or dst src1 src2 nbits m =
     (if nbits \<le> 32 then m(dst := m src1 OR m src2) else uu_bitmap_or dst src1 src2 nbits m)"

definition bitmap_xor :: "nat \<Rightarrow> nat \<Rightarrow> nat \<Rightarrow> nat \<Rightarrow> wmem \<Rightarrow> wmem" where
  "bitmap_xor dst src1 src2 nbits m =
     (if nbits \<le> 32 then m(dst := m src1 XOR m src2) else uu_bitmap_xor dst src1 src2 nbits m)"

definition bitmap_andnot :: "nat \<Rightarrow> nat \<Rightarrow> nat \<Rightarrow> nat \<Rightarrow> wmem \<Rightarrow> wmem" where
  "bitmap_andnot dst src1 src2 nbits m =
     (if nbits \<le> 32 then m(dst := m src1 AND NOT (m src2)) else uu_bitmap_andnot dst src1 src2 nbits m)"

definition bitmap_complement :: "nat \<Rightarrow> nat \<Rightarrow> nat \<Rightarrow> wmem \<Rightarrow> wmem" where
  "bitmap_complement dst src nbits m =
     (if nbits \<le> 32 then m(dst := NOT (m src) AND BITMAP_LAST_WORD_MASK nbits)
      else uu_bitmap_complement dst src nbits m)"

definition bitmap_equal :: "wmem \<Rightarrow> nat \<Rightarrow> nat \<Rightarrow> nat \<Rightarrow> bool" where
  "bitmap_equal m src1 src2 nbits =
     (if nbits \<le> 32 then (m src1 XOR m src2) AND BITMAP_LAST_WORD_MASK nbits = 0
      else uu_bitmap_equal m src1 src2 nbits)"

definition bitmap_intersects :: "wmem \<Rightarrow> nat \<Rightarrow> nat \<Rightarrow> nat \<Rightarrow> bool" where
  "bitmap_intersects m src1 src2 nbits =
     (if nbits \<le> 32 then (m src1 AND m src2) AND BITMAP_LAST_WORD_MASK nbits \<noteq> 0
      else uu_bitmap_intersects m src1 src2 nbits)"

definition bitmap_subset :: "wmem \<Rightarrow> nat \<Rightarrow> nat \<Rightarrow> nat \<Rightarrow> bool" where
  "bitmap_subset m src1 src2 nbits =
     (if nbits \<le> 32 then (m src1 AND NOT (m src2)) AND BITMAP_LAST_WORD_MASK nbits = 0
      else uu_bitmap_subset m src1 src2 nbits)"

definition bitmap_empty :: "wmem \<Rightarrow> nat \<Rightarrow> nat \<Rightarrow> bool" where
  "bitmap_empty m src nbits =
     (if nbits \<le> 32 then m src AND BITMAP_LAST_WORD_MASK nbits = 0 else uu_bitmap_empty m src nbits)"

definition bitmap_full :: "wmem \<Rightarrow> nat \<Rightarrow> nat \<Rightarrow> bool" where
  "bitmap_full m src nbits =
     (if nbits \<le> 32 then NOT (m src) AND BITMAP_LAST_WORD_MASK nbits = 0 else uu_bitmap_full m src nbits)"

definition bitmap_weight :: "wmem \<Rightarrow> nat \<Rightarrow> nat \<Rightarrow> u32" where
  "bitmap_weight m src nbits = uu_bitmap_weight m src nbits"

definition bitmap_shift_right :: "nat \<Rightarrow> nat \<Rightarrow> nat \<Rightarrow> nat \<Rightarrow> wmem \<Rightarrow> wmem" where
  "bitmap_shift_right dst src n nbits m =
     (if nbits \<le> 32 then m(dst := drop_bit n (m src)) else uu_bitmap_shift_right dst src n nbits m)"

definition bitmap_shift_left :: "nat \<Rightarrow> nat \<Rightarrow> nat \<Rightarrow> nat \<Rightarrow> wmem \<Rightarrow> wmem" where
  "bitmap_shift_left dst src n nbits m =
     (if nbits \<le> 32 then m(dst := push_bit n (m src) AND BITMAP_LAST_WORD_MASK nbits)
      else uu_bitmap_shift_left dst src n nbits m)"

subsection \<open>Regions\<close>

definition region_mask :: "nat \<Rightarrow> u32" where
  "region_mask pages = (let mask = push_bit (pages - 1) 1 in mask + (mask - 1))"

text \<open>The search loop of \<open>bitmap_find_free_region\<close> from bit \<open>i\<close>; \<open>pages\<close> is positive.\<close>

function find_free_loop :: "nat \<Rightarrow> nat \<Rightarrow> nat \<Rightarrow> nat \<Rightarrow> wmem \<Rightarrow> (errno + nat) \<times> wmem" where
  "find_free_loop bitmap bits pages i m =
     (if i < bits \<and> pages > 0 then
        let index = i div 32; offset = i - index * 32
        in if m (bitmap + index) AND push_bit offset (region_mask pages) = 0
           then (Inr i, m(bitmap + index := m (bitmap + index) OR push_bit offset (region_mask pages)))
           else find_free_loop bitmap bits pages (i + pages) m
      else (Inl ENOMEM, m))"
  by auto
termination by (relation "measure (\<lambda>(_, bits, _, i, _). bits - i)") auto

declare find_free_loop.simps [simp del]

definition bitmap_find_free_region :: "nat \<Rightarrow> nat \<Rightarrow> nat \<Rightarrow> wmem \<Rightarrow> (errno + nat) \<times> wmem" where
  "bitmap_find_free_region bitmap bits order m =
     (let pages = 2 ^ order
      in if pages > 32 then (Inl EINVAL, m) else find_free_loop bitmap bits pages 0 m)"

definition bitmap_release_region :: "nat \<Rightarrow> nat \<Rightarrow> nat \<Rightarrow> wmem \<Rightarrow> wmem" where
  "bitmap_release_region bitmap pos order m =
     (let pages = 2 ^ order; index = pos div 32; offset = pos - index * 32
      in m(bitmap + index := m (bitmap + index) AND NOT (push_bit offset (region_mask pages))))"

definition bitmap_allocate_region :: "nat \<Rightarrow> nat \<Rightarrow> nat \<Rightarrow> wmem \<Rightarrow> ((errno + unit) \<times> wmem) option" where
  "bitmap_allocate_region bitmap pos order m =
     (let pages = 2 ^ order; index = pos div 32; offset = pos - index * 32
      in if pages > 32 then None
         else if m (bitmap + index) AND push_bit offset (region_mask pages) \<noteq> 0 then Some (Inl EBUSY, m)
         else Some (Inr (), m(bitmap + index := m (bitmap + index) OR push_bit offset (region_mask pages))))"

subsection \<open>The fallback bit search\<close>

text \<open>The two counting loops at \<open>finish\<close>, for a word that is not zero, the scan for a
  non-zero word, which reads on for as long as it takes, and the whole search.\<close>

partial_function (option) skip_bytes :: "nat \<Rightarrow> u32 \<Rightarrow> (nat \<times> u32) option" where
  "skip_bytes offset tmp =
     (if tmp AND 0xff = 0 then skip_bytes (offset + 8) (drop_bit 8 tmp) else Some (offset, tmp))"

partial_function (option) skip_bits :: "nat \<Rightarrow> u32 \<Rightarrow> nat option" where
  "skip_bits offset tmp =
     (if tmp AND 1 = 0 then skip_bits (offset + 1) (drop_bit 1 tmp) else Some offset)"

partial_function (option) scan_words :: "wmem \<Rightarrow> nat \<Rightarrow> (nat \<times> u32) option" where
  "scan_words m addr = (if m addr = 0 then scan_words m (addr + 1) else Some (addr, m addr))"

definition finish_search :: "nat \<Rightarrow> u32 \<Rightarrow> nat option" where
  "finish_search offset tmp =
     (case skip_bytes offset tmp of None \<Rightarrow> None | Some (offset, tmp) \<Rightarrow> skip_bits offset tmp)"

definition scan_from :: "wmem \<Rightarrow> nat \<Rightarrow> nat \<Rightarrow> nat option" where
  "scan_from m base addr =
     (case scan_words m addr of None \<Rightarrow> None | Some (addr, tmp) \<Rightarrow> finish_search ((addr - base) * 32) tmp)"

definition find_next_bit :: "wmem \<Rightarrow> nat \<Rightarrow> nat \<Rightarrow> nat \<Rightarrow> nat option" where
  "find_next_bit m addr sz offset =
     (let base = addr
      in if offset \<noteq> 0 then
           let addr = addr + offset div 32; suboffset = offset mod 32; tmp = drop_bit suboffset (m addr)
           in if suboffset \<noteq> 0 \<and> tmp \<noteq> 0 then finish_search offset tmp
              else scan_from m base (addr + 1)
         else scan_from m base addr)"

section \<open>The sets of bits a memory holds\<close>

definition bitmap_set :: "wmem \<Rightarrow> nat \<Rightarrow> nat \<Rightarrow> nat set" where
  "bitmap_set m p n = {i. i < n \<and> bit (m (p + i div 32)) (i mod 32)}"

text \<open>The words the inline operations may write, and the sources that a destination may have:
  itself, a bitmap above it, or one that ends before it.\<close>

definition bitmap_words :: "nat \<Rightarrow> nat" where
  "bitmap_words n = max 1 (BITS_TO_LONGS n)"

definition src_ok :: "nat \<Rightarrow> nat \<Rightarrow> nat \<Rightarrow> bool" where
  "src_ok dst src n = (dst \<le> src \<or> src + bitmap_words n \<le> dst)"

lemma finite_bitmap_set [simp]: "finite (bitmap_set m p n)"
  by (simp add: bitmap_set_def)

lemma bitmap_set_cong:
  assumes "\<And>j. p \<le> j \<Longrightarrow> j < p + BITS_TO_LONGS n \<Longrightarrow> m j = m' j"
  shows "bitmap_set m p n = bitmap_set m' p n"
  using assms by (auto simp: bitmap_set_def BITS_TO_LONGS_def)

lemma word_index: "i < n \<Longrightarrow> i div 32 < BITS_TO_LONGS n"
  by (simp add: BITS_TO_LONGS_def)

lemma bit_last_word_mask:
  "bit (BITMAP_LAST_WORD_MASK n) i \<longleftrightarrow> i < 32 \<and> (n mod 32 = 0 \<or> i < n mod 32)"
  by (auto simp: BITMAP_LAST_WORD_MASK_def push_bit_of_1 bit_simps simp flip: mask_eq_decr_exp)

lemma bit_left_mask: "bit (2 ^ l - 1 :: u32) i \<longleftrightarrow> i < 32 \<and> i < l"
  by (auto simp: bit_simps simp flip: mask_eq_decr_exp)

text \<open>Reading all words, the last one through its mask, is reading all bits.\<close>

lemma words_zero_bits:
  "(\<forall>k<n div 32. (w k :: u32) = 0) \<and> (n mod 32 \<noteq> 0 \<longrightarrow> w (n div 32) AND BITMAP_LAST_WORD_MASK n = 0) \<longleftrightarrow>
   (\<forall>i<n. \<not> bit (w (i div 32)) (i mod 32))" (is "?L \<longleftrightarrow> ?R")
proof
  assume L: ?L
  show ?R
  proof (intro allI impI)
    fix i assume i: "i < n"
    show "\<not> bit (w (i div 32)) (i mod 32)"
    proof (cases "i div 32 < n div 32")
      case True with L show ?thesis by simp
    next
      case False
      then have d: "i div 32 = n div 32" using i by (meson div_le_mono leI le_antisym less_imp_le)
      then have "i mod 32 < n mod 32" using i by (metis div_mult_mod_eq nat_add_left_cancel_less)
      with L d have "\<not> bit (w (n div 32) AND BITMAP_LAST_WORD_MASK n) (i mod 32)" "i mod 32 < n mod 32" by auto
      with d show ?thesis by (simp add: bit_and_iff bit_last_word_mask)
    qed
  qed
next
  assume R: ?R
  have "w k = 0" if k: "k < n div 32" for k
  proof (rule bit_word_eqI)
    fix b assume b: "b < LENGTH(32)"
    have "k * 32 + b < n" using k b by simp
    with R have "\<not> bit (w ((k * 32 + b) div 32)) ((k * 32 + b) mod 32)" by blast
    with b show "bit (w k) b = bit 0 b" by simp
  qed
  moreover have "w (n div 32) AND BITMAP_LAST_WORD_MASK n = 0" if n: "n mod 32 \<noteq> 0"
  proof (rule bit_word_eqI)
    fix b assume b: "b < LENGTH(32)"
    show "bit (w (n div 32) AND BITMAP_LAST_WORD_MASK n) b = bit 0 b"
    proof (cases "b < n mod 32")
      case True
      then have "n div 32 * 32 + b < n" by (metis div_mult_mod_eq nat_add_left_cancel_less)
      with R have "\<not> bit (w ((n div 32 * 32 + b) div 32)) ((n div 32 * 32 + b) mod 32)" by blast
      with b show ?thesis by (simp add: bit_and_iff)
    qed (use n in \<open>simp add: bit_and_iff bit_last_word_mask\<close>)
  qed
  ultimately show ?L by simp
qed

lemma small_zero_bits:
  assumes "0 < n" and "n \<le> 32"
  shows "(w::u32) AND BITMAP_LAST_WORD_MASK n = 0 \<longleftrightarrow> (\<forall>i<n. \<not> bit w i)"
proof (cases "n = 32")
  case True
  then have "BITMAP_LAST_WORD_MASK n = NOT 0" by (simp add: BITMAP_LAST_WORD_MASK_def)
  with True show ?thesis by (simp add: bit_eq_iff [of w])
next
  case False
  with assms have "n mod 32 = n" "n mod 32 \<noteq> 0" "n div 32 = 0" by auto
  then show ?thesis using words_zero_bits [of n "\<lambda>_. w"] assms(1) by auto
qed

text \<open>Loops that store one word after the other, upwards and downwards: at index \<open>k\<close> the
  body finds the words it has not yet reached unchanged.\<close>

lemma word_loop:
  assumes "\<And>k m'. k < n \<Longrightarrow> m' = (\<lambda>j. if dst \<le> j \<and> j < dst + k then R (j - dst) else m j) \<Longrightarrow>
             f k m' = m'(dst + k := R k)"
  shows "fold f [0..<n] m = (\<lambda>j. if dst \<le> j \<and> j < dst + n then R (j - dst) else m j)"
  using assms
proof (induction n)
  case (Suc n)
  have "fold f [0..<n] m = (\<lambda>j. if dst \<le> j \<and> j < dst + n then R (j - dst) else m j)"
    by (rule Suc.IH) (use Suc.prems in auto)
  then have "fold f [0..<Suc n] m = (\<lambda>j. if dst \<le> j \<and> j < dst + n then R (j - dst) else m j)(dst + n := R n)"
    using Suc.prems [of n] by (simp add: fun_upd_def)
  also have "\<dots> = (\<lambda>j. if dst \<le> j \<and> j < dst + Suc n then R (j - dst) else m j)"
    by (rule ext) auto
  finally show ?case .
qed (auto simp: fun_eq_iff)

lemma word_loop_down:
  assumes "\<And>k m'. k < n \<Longrightarrow> m' = (\<lambda>j. if dst + k < j \<and> j < dst + n then R (j - dst) else m j) \<Longrightarrow>
             f k m' = m'(dst + k := R k)"
  shows "fold f (rev [0..<n]) m = (\<lambda>j. if dst \<le> j \<and> j < dst + n then R (j - dst) else m j)"
proof -
  have "fold f (rev [i..<n]) m = (\<lambda>j. if dst + i \<le> j \<and> j < dst + n then R (j - dst) else m j)" if "i \<le> n" for i
    using that
  proof (induction i rule: inc_induct)
    case (step i)
    have "fold f (rev [i..<n]) m = f i (fold f (rev [Suc i..<n]) m)"
      using step by (simp add: upt_conv_Cons)
    also have "fold f (rev [Suc i..<n]) m = (\<lambda>j. if dst + i < j \<and> j < dst + n then R (j - dst) else m j)"
      using step by (auto simp: Suc_le_eq)
    finally have "fold f (rev [i..<n]) m = (\<lambda>j. if dst + i < j \<and> j < dst + n then R (j - dst) else m j)(dst + i := R i)"
      using assms [of i] step by (simp add: fun_upd_def)
    also have "\<dots> = (\<lambda>j. if dst + i \<le> j \<and> j < dst + n then R (j - dst) else m j)"
      using step by (intro ext) auto
    finally show ?case .
  qed (auto simp: fun_eq_iff)
  from this [of 0] show ?thesis by simp
qed

section \<open>Word-wise operations\<close>

text \<open>What the callers of the binary operations rely on: the bits of the destination are a
  Boolean function of the bits of the sources, also when the destination is a source, and
  only the words of the destination change.\<close>

locale bitmap_binop =
  fixes bop :: "nat \<Rightarrow> nat \<Rightarrow> nat \<Rightarrow> nat \<Rightarrow> wmem \<Rightarrow> wmem" and f :: "bool \<Rightarrow> bool \<Rightarrow> bool"
  assumes bop_bit: "src_ok dst s1 n \<Longrightarrow> src_ok dst s2 n \<Longrightarrow> i < n \<Longrightarrow>
      bit (bop dst s1 s2 n m (dst + i div 32)) (i mod 32) =
      f (bit (m (s1 + i div 32)) (i mod 32)) (bit (m (s2 + i div 32)) (i mod 32))"
    and bop_frame: "j < dst \<or> dst + bitmap_words n \<le> j \<Longrightarrow> bop dst s1 s2 n m j = m j"
begin

lemma set_bop:
  assumes "src_ok dst s1 n" and "src_ok dst s2 n"
  shows "bitmap_set (bop dst s1 s2 n m) dst n =
    {i. i < n \<and> f (i \<in> bitmap_set m s1 n) (i \<in> bitmap_set m s2 n)}"
  using bop_bit [OF assms] by (auto simp: bitmap_set_def)

lemma set_bop_other:
  assumes "q + bitmap_words n' \<le> dst \<or> dst + bitmap_words n \<le> q"
  shows "bitmap_set (bop dst s1 s2 n m) q n' = bitmap_set m q n'"
  using assms by (intro bitmap_set_cong bop_frame) (auto simp: bitmap_words_def)

text \<open>Updating a bitmap in place with one operand repeatedly depends only on the last
  operand when the operation absorbs it.\<close>

lemma set_bop_in_place:
  assumes "src_ok dst s n"
  shows "bitmap_set (bop dst dst s n m) dst n = {i. i < n \<and> f (i \<in> bitmap_set m dst n) (i \<in> bitmap_set m s n)}"
  by (rule set_bop) (use assms in \<open>auto simp: src_ok_def\<close>)

end

lemma small_div: "i < n \<Longrightarrow> n \<le> (32::nat) \<Longrightarrow> i div 32 = 0"
  by simp

text \<open>The shape the four operations share, with the word operation as a parameter.\<close>

lemma binop_words:
  assumes "src_ok dst s1 n" and "src_ok dst s2 n"
  shows "fold (\<lambda>k m. m(dst + k := g (m (s1 + k)) (m (s2 + k)))) [0..<BITS_TO_LONGS n] m =
    (\<lambda>j. if dst \<le> j \<and> j < dst + BITS_TO_LONGS n then g (m (s1 + (j - dst))) (m (s2 + (j - dst))) else m j)"
  by (rule word_loop) (use assms in \<open>auto simp: src_ok_def bitmap_words_def\<close>)

lemma binop_frame:
  assumes "j < dst \<or> dst + bitmap_words n \<le> j"
  shows "(if n \<le> 32 then m(dst := v)
          else fold (\<lambda>k m. m(dst + k := h k m)) [0..<BITS_TO_LONGS n] m) j = m j"
proof -
  have "fold (\<lambda>k m. m(dst + k := h k m)) [0..<N] m j = m j" if "N \<le> BITS_TO_LONGS n" for N
    using that assms by (induction N) (auto simp: bitmap_words_def)
  with assms show ?thesis by (auto simp: bitmap_words_def)
qed

lemma binop_bits:
  assumes "src_ok dst s1 n" and "src_ok dst s2 n" and "i < n"
    and "\<And>x y b. b < 32 \<Longrightarrow> bit (g x y) b = f (bit x b) (bit y b)"
  shows "bit ((if n \<le> 32 then m(dst := g (m s1) (m s2))
      else fold (\<lambda>k m. m(dst + k := g (m (s1 + k)) (m (s2 + k)))) [0..<BITS_TO_LONGS n] m) (dst + i div 32)) (i mod 32) =
    f (bit (m (s1 + i div 32)) (i mod 32)) (bit (m (s2 + i div 32)) (i mod 32))"
proof (cases "n \<le> 32")
  case True
  with assms show ?thesis by (simp add: small_div)
next
  case False
  with assms(3,4) word_index [OF assms(3)] show ?thesis by (simp add: binop_words [OF assms(1,2)])
qed

lemmas bitmap_binop_defs =
  bitmap_and_def uu_bitmap_and_def bitmap_or_def uu_bitmap_or_def
  bitmap_xor_def uu_bitmap_xor_def bitmap_andnot_def uu_bitmap_andnot_def

interpretation band: bitmap_binop bitmap_and "(\<and>)"
  by unfold_locales (simp_all only: bitmap_binop_defs binop_frame binop_bits [where g = "(AND)" and f = "(\<and>)"] bit_and_iff)

interpretation bor: bitmap_binop bitmap_or "(\<or>)"
  by unfold_locales (simp_all only: bitmap_binop_defs binop_frame binop_bits [where g = "(OR)" and f = "(\<or>)"] bit_or_iff)

interpretation bxor: bitmap_binop bitmap_xor "(\<noteq>)"
  by unfold_locales (simp_all only: bitmap_binop_defs binop_frame binop_bits [where g = "(XOR)" and f = "(\<noteq>)"] bit_xor_iff)

interpretation bandnot: bitmap_binop bitmap_andnot "\<lambda>x y. x \<and> \<not> y"
  by unfold_locales (simp_all only: bitmap_binop_defs binop_frame
      binop_bits [where g = "\<lambda>x y. x AND NOT y" and f = "\<lambda>x y. x \<and> \<not> y"], simp_all add: bit_simps binop_bits [where g = "\<lambda>x y. x AND NOT y" and f = "\<lambda>x y. x \<and> \<not> y"])

section \<open>Tests and weight\<close>

lemma bitmap_empty_set: "0 < n \<Longrightarrow> bitmap_empty m p n \<longleftrightarrow> bitmap_set m p n = {}"
  using words_zero_bits [of n "\<lambda>k. m (p + k)"] small_zero_bits [of n "m p"]
  by (auto simp: bitmap_empty_def uu_bitmap_empty_def Let_def list_ex_iff bitmap_set_def)

lemma bitmap_full_set: "0 < n \<Longrightarrow> bitmap_full m p n \<longleftrightarrow> bitmap_set m p n = {0..<n}"
  using words_zero_bits [of n "\<lambda>k. NOT (m (p + k))"] small_zero_bits [of n "NOT (m p)"]
  by (auto simp: bitmap_full_def uu_bitmap_full_def Let_def list_ex_iff bitmap_set_def bit_not_iff set_eq_iff)

lemma xor_zero: "((x::u32) XOR y = 0) = (x = y)"
  by (auto simp: bit_eq_iff bit_xor_iff)

lemma bitmap_equal_set: "0 < n \<Longrightarrow> bitmap_equal m p q n \<longleftrightarrow> bitmap_set m p n = bitmap_set m q n"
  using words_zero_bits [of n "\<lambda>k. m (p + k) XOR m (q + k)"] small_zero_bits [of n "m p XOR m q"]
  by (auto simp: bitmap_equal_def uu_bitmap_equal_def Let_def list_ex_iff bitmap_set_def bit_xor_iff set_eq_iff xor_zero)

lemma bitmap_intersects_set: "0 < n \<Longrightarrow> bitmap_intersects m p q n \<longleftrightarrow> bitmap_set m p n \<inter> bitmap_set m q n \<noteq> {}"
  using words_zero_bits [of n "\<lambda>k. m (p + k) AND m (q + k)"] small_zero_bits [of n "m p AND m q"]
  by (auto simp: bitmap_intersects_def uu_bitmap_intersects_def Let_def list_ex_iff bitmap_set_def bit_and_iff set_eq_iff)

lemma bitmap_subset_set: "0 < n \<Longrightarrow> bitmap_subset m p q n \<longleftrightarrow> bitmap_set m p n \<subseteq> bitmap_set m q n"
  using words_zero_bits [of n "\<lambda>k. m (p + k) AND NOT (m (q + k))"] small_zero_bits [of n "m p AND NOT (m q)"]
  by (auto simp: bitmap_subset_def uu_bitmap_subset_def Let_def list_ex_iff bitmap_set_def bit_and_iff bit_not_iff set_eq_iff)

lemma card_bitmap_set: "card (bitmap_set m p n) = (\<Sum>i<n. of_bool (bit (m (p + i div 32)) (i mod 32)))"
  by (simp add: bitmap_set_def sum_of_bool_eq Int_def conj_commute lessThan_def)

lemma sum_word_bits: "(\<Sum>i<l. of_bool (bit (m (p + (32 * k + i) div 32)) ((32 * k + i) mod 32)) :: nat) =
    (\<Sum>i<l. of_bool (bit (m (p + k) :: u32) i))" if "l \<le> 32"
  using that by (intro sum.cong) auto

lemma weight_words:
  "(\<Sum>i<32 * lim. of_bool (bit (m (p + i div 32)) (i mod 32)) :: nat) = (\<Sum>k<lim. pop_count (m (p + k) :: u32))"
proof (induction lim)
  case (Suc lim)
  have e: "32 * Suc lim = 32 * lim + 32" by simp
  show ?case unfolding e sum_lessThan_add sum_word_bits [OF order_refl] Suc.IH by (simp add: pop_count_def)
qed simp

lemma fold_weight: "fold (\<lambda>k w. w + g k) [0..<n] (a::u32) = a + (\<Sum>k<n. g k)"
  by (induction n) (simp_all add: ac_simps)

lemma of_nat_hweight: "generic_hweight32 w = of_nat (pop_count w)"
  by (simp flip: generic_hweight32_correct)

lemma bitmap_weight_of_nat: "bitmap_weight m p n = of_nat (card (bitmap_set m p n))"
proof -
  have "card (bitmap_set m p n) = (\<Sum>k<n div 32. pop_count (m (p + k))) + (\<Sum>i<n mod 32. of_bool (bit (m (p + n div 32)) i))"
  proof -
    have "card (bitmap_set m p (32 * k + l)) = (\<Sum>j<k. pop_count (m (p + j))) + (\<Sum>i<l. of_bool (bit (m (p + k)) i))"
      if "l \<le> 32" for k l
      by (simp only: card_bitmap_set sum_lessThan_add weight_words sum_word_bits [OF that])
    from this [of "n mod 32" "n div 32"] show ?thesis by simp
  qed
  moreover have "(\<Sum>i<n mod 32. of_bool (bit (m (p + n div 32)) i) :: nat) = pop_count (m (p + n div 32) AND BITMAP_LAST_WORD_MASK n)"
    if "n mod 32 \<noteq> 0"
  proof -
    have "(\<Sum>i<32. of_bool (bit (m (p + n div 32)) i \<and> i < n mod 32) :: nat) = (\<Sum>i<n mod 32. of_bool (bit (m (p + n div 32)) i))"
      by (rule sum.mono_neutral_cong_right) auto
    with that show ?thesis by (simp add: pop_count_def bit_and_iff bit_last_word_mask cong: conj_cong)
  qed
  ultimately show ?thesis
    by (simp add: bitmap_weight_def uu_bitmap_weight_def Let_def fold_weight of_nat_hweight)
qed

section \<open>Unary operations\<close>

lemma BITS_TO_LONGS_div: "BITS_TO_LONGS n = n div 32 + (if n mod 32 = 0 then 0 else 1)"
proof -
  have "n = 32 * (n div 32) + n mod 32" by simp
  moreover have "(32 * q + r + 31) div 32 = q + (if r = 0 then 0 else 1)" if "r < 32" for q r :: nat
    using that by (cases "r = 0") (auto simp: div_add1_eq [of "32 * q"] add.assoc)
  ultimately show ?thesis unfolding BITS_TO_LONGS_def by (metis mod_less_divisor zero_less_numeral)
qed

lemma div_le_longs: "n div 32 \<le> BITS_TO_LONGS n"
  by (simp add: BITS_TO_LONGS_div)

lemma complement_words:
  assumes "src_ok dst src n"
  shows "uu_bitmap_complement dst src n m =
    (\<lambda>j. if dst \<le> j \<and> j < dst + BITS_TO_LONGS n
         then NOT (m (src + (j - dst))) AND (if j = dst + n div 32 then BITMAP_LAST_WORD_MASK n else NOT 0) else m j)"
proof -
  have "fold (\<lambda>k m. m(dst + k := NOT (m (src + k)))) [0..<n div 32] m =
    (\<lambda>j. if dst \<le> j \<and> j < dst + n div 32 then NOT (m (src + (j - dst))) else m j)"
    by (rule word_loop) (use assms div_le_longs [of n] in \<open>auto simp: src_ok_def bitmap_words_def\<close>)
  note loop = this
  show ?thesis
  proof (cases "n mod 32 = 0")
    case True
    then have "BITS_TO_LONGS n = n div 32" "BITMAP_LAST_WORD_MASK n = NOT 0"
      by (simp_all add: BITS_TO_LONGS_div BITMAP_LAST_WORD_MASK_def)
    with True show ?thesis unfolding uu_bitmap_complement_def Let_def loop by auto
  next
    case False
    then have l: "BITS_TO_LONGS n = Suc (n div 32)" by (simp add: BITS_TO_LONGS_div)
    have "src + n div 32 < dst \<or> dst + n div 32 \<le> src + n div 32"
      using assms l by (auto simp: src_ok_def bitmap_words_def)
    with False show ?thesis unfolding uu_bitmap_complement_def Let_def loop l by (intro ext) auto
  qed
qed

lemma last_word_bits:
  assumes "i < n" and "i div 32 = n div (32::nat)"
  shows "i mod 32 < n mod 32"
  using assms by (metis div_mult_mod_eq nat_add_left_cancel_less)

lemma bitmap_complement_set:
  assumes "src_ok dst src n"
  shows "bitmap_set (bitmap_complement dst src n m) dst n = {0..<n} - bitmap_set m src n"
proof -
  have "bit (bitmap_complement dst src n m (dst + i div 32)) (i mod 32) \<longleftrightarrow> \<not> bit (m (src + i div 32)) (i mod 32)"
    if i: "i < n" for i
  proof (cases "n \<le> 32")
    case True
    with i show ?thesis
      by (cases "n = 32") (auto simp: bitmap_complement_def bit_and_iff bit_not_iff bit_last_word_mask small_div)
  next
    case False
    with i show ?thesis using word_index [OF i] last_word_bits [OF i]
      by (auto simp: bitmap_complement_def complement_words [OF assms] bit_and_iff bit_not_iff bit_last_word_mask)
  qed
  then show ?thesis by (auto simp: bitmap_set_def)
qed

lemma bitmap_zero_set: "bitmap_set (bitmap_zero dst n m) dst n = {}"
  by (auto simp: bitmap_set_def bitmap_zero_def memset_words_def small_div dest: word_index)

lemma bitmap_copy_set: "bitmap_set (bitmap_copy dst src n m) dst n = bitmap_set m src n"
  by (auto simp: bitmap_set_def bitmap_copy_def memcpy_words_def small_div word_index)

lemma bitmap_fill_set:
  assumes "0 < n"
  shows "\<exists>m'. bitmap_fill dst n m = Some m' \<and> bitmap_set m' dst n = {0..<n} \<and>
    (\<forall>j. j < dst \<or> dst + BITS_TO_LONGS n \<le> j \<longrightarrow> m' j = m j)"
proof -
  let ?l = "BITS_TO_LONGS n"
  have l: "?l \<noteq> 0" using assms word_index [of 0 n] by simp
  let ?m = "(if ?l > 1 then memset_words m dst (NOT 0) (?l - 1) else m)(dst + (?l - 1) := BITMAP_LAST_WORD_MASK n)"
  have f: "bitmap_fill dst n m = Some ?m" using l by (auto simp: bitmap_fill_def Let_def)
  have "bit (?m (dst + i div 32)) (i mod 32)" if i: "i < n" for i
  proof (cases "i div 32 = ?l - 1")
    case True
    have "n mod 32 \<noteq> 0 \<Longrightarrow> i div 32 = n div 32" using True by (simp add: BITS_TO_LONGS_div)
    with last_word_bits [OF i] True show ?thesis by (auto simp: bit_last_word_mask)
  next
    case False
    with word_index [OF i] have "i div 32 < ?l - 1" by simp
    then show ?thesis by (auto simp: memset_words_def bit_not_iff)
  qed
  moreover have "?m j = m j" if "j < dst \<or> dst + ?l \<le> j" for j
    using that l by (auto simp: memset_words_def)
  moreover have "bitmap_set ?m dst n = {0..<n}" using calculation(1) by (auto simp only: bitmap_set_def atLeastLessThan_iff)
  ultimately show ?thesis unfolding f by blast
qed

lemma unary_frame:
  assumes "j < dst \<or> dst + bitmap_words n \<le> j"
  shows "bitmap_complement dst src n m j = m j" "bitmap_zero dst n m j = m j" "bitmap_copy dst src n m j = m j"
proof -
  have "fold (\<lambda>k m. m(dst + k := NOT (m (src + k)))) [0..<N] m j = m j" if "N \<le> n div 32" for N
    using that assms by (induction N) (auto simp: bitmap_words_def BITS_TO_LONGS_div)
  with assms show "bitmap_complement dst src n m j = m j"
    by (auto simp: bitmap_complement_def uu_bitmap_complement_def Let_def bitmap_words_def BITS_TO_LONGS_div)
qed (use assms in \<open>auto simp: bitmap_zero_def bitmap_copy_def memset_words_def memcpy_words_def bitmap_words_def\<close>)

section \<open>Shifts\<close>

text \<open>The bits of a source that count: those below \<open>bits\<close>.\<close>

definition src_bit :: "wmem \<Rightarrow> nat \<Rightarrow> nat \<Rightarrow> nat \<Rightarrow> bool" where
  "src_bit m p n i \<longleftrightarrow> i < n \<and> bit (m (p + i div 32)) (i mod 32)"

lemma src_bit_word:
  assumes "k < BITS_TO_LONGS n" and "b < 32"
  shows "bit (if n mod 32 \<noteq> 0 \<and> k = BITS_TO_LONGS n - 1 then m (p + k) AND (push_bit (n mod 32) 1 - 1) else m (p + k)) b \<longleftrightarrow>
    src_bit m p n (32 * k + b)"
proof (cases "n mod 32 \<noteq> 0 \<and> k = BITS_TO_LONGS n - 1")
  case True
  then have "k = n div 32" by (simp add: BITS_TO_LONGS_div)
  moreover have "32 * (n div 32) + b < n \<longleftrightarrow> b < n mod 32"
    by (metis mult_div_mod_eq nat_add_left_cancel_less)
  ultimately show ?thesis using True assms(2) by (auto simp: src_bit_def bit_and_iff bit_left_mask)
next
  case False
  have "k < n div 32" using False assms(1) by (auto simp: BITS_TO_LONGS_div split: if_splits)
  then have "32 * k + b < n" using assms(2) by simp
  with assms(2) show ?thesis unfolding if_not_P [OF False] by (simp add: src_bit_def)
qed

definition masked_word :: "wmem \<Rightarrow> nat \<Rightarrow> nat \<Rightarrow> nat \<Rightarrow> u32" where
  "masked_word m p n k =
     (if n mod 32 \<noteq> 0 \<and> k = BITS_TO_LONGS n - 1 then m (p + k) AND (push_bit (n mod 32) 1 - 1) else m (p + k))"

lemma bit_masked_word:
  "k < BITS_TO_LONGS n \<Longrightarrow> b < 32 \<Longrightarrow> bit (masked_word m p n k) b \<longleftrightarrow> src_bit m p n (32 * k + b)"
  unfolding masked_word_def by (rule src_bit_word)

lemma src_bit_beyond: "BITS_TO_LONGS n \<le> k \<Longrightarrow> \<not> src_bit m p n (32 * k + b)"
  by (auto simp: src_bit_def BITS_TO_LONGS_def)

text \<open>The words the two shifts store at index \<open>k\<close> of the destination.\<close>

definition right_word :: "wmem \<Rightarrow> nat \<Rightarrow> nat \<Rightarrow> nat \<Rightarrow> nat \<Rightarrow> u32" where
  "right_word m src shift n k =
     (let w = push_bit (32 - shift mod 32)
                (if shift mod 32 = 0 \<or> shift div 32 + k + 1 \<ge> BITS_TO_LONGS n then 0
                 else masked_word m src n (shift div 32 + k + 1)) OR
              drop_bit (shift mod 32) (masked_word m src n (shift div 32 + k))
      in if n mod 32 \<noteq> 0 \<and> k = BITS_TO_LONGS n - 1 then w AND (push_bit (n mod 32) 1 - 1) else w)"

definition left_word :: "wmem \<Rightarrow> nat \<Rightarrow> nat \<Rightarrow> nat \<Rightarrow> nat \<Rightarrow> u32" where
  "left_word m src shift n k =
     (let w = drop_bit (32 - shift mod 32) (if shift mod 32 \<noteq> 0 \<and> k > 0 then m (src + (k - 1)) else 0) OR
              push_bit (shift mod 32) (masked_word m src n k)
      in if n mod 32 \<noteq> 0 \<and> k + shift div 32 = BITS_TO_LONGS n - 1 then w AND (push_bit (n mod 32) 1 - 1) else w)"

lemma shift_right_word_eq:
  "shift_right_word dst src shift n k m = m(dst + k := right_word m src shift n k)"
  unfolding shift_right_word_def right_word_def masked_word_def Let_def
  by (simp add: conj_commute cong: if_cong)

lemma shift_left_word_eq:
  "shift_left_word dst src shift n k m = m(dst + (k + shift div 32) := left_word m src shift n k)"
  unfolding shift_left_word_def left_word_def masked_word_def Let_def
  by (simp add: conj_commute cong: if_cong)

lemma word_of_bits: "(k::nat) < BITS_TO_LONGS n \<Longrightarrow> b < 32 \<Longrightarrow>
    (n mod 32 \<noteq> 0 \<and> k = BITS_TO_LONGS n - 1 \<longrightarrow> b < n mod 32) \<longleftrightarrow> 32 * k + b < n"
  using src_bit_word [of k n b "\<lambda>_. -1" 0] by (auto simp: src_bit_def bit_left_mask split: if_splits)

lemma masked_if_bit:
  assumes "k < BITS_TO_LONGS n" and "b < 32"
  shows "bit (if n mod 32 \<noteq> 0 \<and> k = BITS_TO_LONGS n - 1 then w AND (push_bit (n mod 32) 1 - 1) else (w::u32)) b \<longleftrightarrow>
    bit w b \<and> 32 * k + b < n"
  using word_of_bits [OF assms] assms(2) by (auto simp: bit_and_iff bit_left_mask split: if_splits)

lemma bit_right_word:
  assumes "shift div 32 + k < BITS_TO_LONGS n" and "b < 32"
  shows "bit (right_word m src shift n k) b \<longleftrightarrow> 32 * k + b < n \<and> src_bit m src n (32 * k + b + shift)"
proof -
  let ?r = "shift mod 32" and ?o = "shift div 32"
  have s: "shift = 32 * ?o + ?r" by simp
  have r: "?r < 32" by simp
  have k: "k < BITS_TO_LONGS n" using assms(1) by simp
  have "bit (push_bit (32 - ?r) (if ?r = 0 \<or> ?o + k + 1 \<ge> BITS_TO_LONGS n then 0 else masked_word m src n (?o + k + 1)) OR
      drop_bit ?r (masked_word m src n (?o + k))) b \<longleftrightarrow> src_bit m src n (32 * k + b + shift)"
  proof (cases "b + ?r < 32")
    case True
    then have "bit (drop_bit ?r (masked_word m src n (?o + k))) b \<longleftrightarrow> src_bit m src n (32 * (?o + k) + (?r + b))"
      using assms(1) by (simp add: bit_drop_bit_eq bit_masked_word add.commute)
    moreover have "32 * (?o + k) + (?r + b) = 32 * k + b + shift" using s by (simp add: algebra_simps)
    moreover have "\<not> 32 - ?r \<le> b" using True by linarith
    then have "\<not> bit (push_bit (32 - ?r) (v::u32)) b" for v by (simp only: bit_push_bit_iff) simp
    ultimately show ?thesis by (simp add: bit_or_iff ac_simps)
  next
    case False
    then have nz: "?r \<noteq> 0" "32 - ?r \<le> b" "b - (32 - ?r) < 32" using assms(2) by auto
    have "\<not> bit (drop_bit ?r (v::u32)) b" for v using False by (auto simp: bit_drop_bit_eq dest: bit_imp_le_length)
    moreover have "32 * (?o + k + 1) + (b - (32 - ?r)) = 32 * k + b + shift"
      using s nz by (simp add: algebra_simps)
    moreover have "bit (if ?o + k + 1 \<ge> BITS_TO_LONGS n then 0 else masked_word m src n (?o + k + 1)) (b - (32 - ?r)) \<longleftrightarrow>
        src_bit m src n (32 * (?o + k + 1) + (b - (32 - ?r)))"
      using bit_masked_word [of "?o + k + 1" n "b - (32 - ?r)" m src] nz(3) src_bit_beyond [of n "?o + k + 1" m src "b - (32 - ?r)"]
      by auto
    ultimately show ?thesis using nz assms(2) by (simp add: bit_or_iff bit_push_bit_iff ac_simps)
  qed
  then show ?thesis unfolding right_word_def Let_def masked_if_bit [OF k assms(2)] by blast
qed

lemma src_bit_at: "b < 32 \<Longrightarrow> 32 * k + b < n \<Longrightarrow> src_bit m p n (32 * k + b) = bit (m (p + k)) b"
  by (simp add: src_bit_def)

lemma split_shift:
  "(shift::nat) = 32 * q + r \<Longrightarrow> 32 * (k + q) + b - shift = 32 * k + b - r \<and> (shift \<le> 32 * (k + q) + b \<longleftrightarrow> r \<le> 32 * k + b)"
  by auto

lemma bit_left_word:
  assumes "k + shift div 32 < BITS_TO_LONGS n" and "b < 32"
  shows "bit (left_word m src shift n k) b \<longleftrightarrow>
    32 * (k + shift div 32) + b < n \<and> shift \<le> 32 * (k + shift div 32) + b \<and>
    src_bit m src n (32 * (k + shift div 32) + b - shift)"
proof -
  let ?r = "shift mod 32" and ?o = "shift div 32"
  have s: "shift = 32 * ?o + ?r" by simp
  have r: "?r < 32" by simp
  have k: "k < BITS_TO_LONGS n" using assms(1) by simp
  have e: "32 * (k + ?o) + b - shift = 32 * k + b - ?r" "shift \<le> 32 * (k + ?o) + b \<longleftrightarrow> ?r \<le> 32 * k + b"
    using split_shift [OF s] by blast+
  have "bit (drop_bit (32 - ?r) (if ?r \<noteq> 0 \<and> k > 0 then m (src + (k - 1)) else 0) OR push_bit ?r (masked_word m src n k)) b \<longleftrightarrow>
      ?r \<le> 32 * k + b \<and> src_bit m src n (32 * k + b - ?r)"
  proof (cases "?r \<le> b")
    case True
    then have "\<not> bit (drop_bit (32 - ?r) (v::u32)) b" for v
      using r by (auto simp: bit_drop_bit_eq dest: bit_imp_le_length)
    moreover have "bit (masked_word m src n k) (b - ?r) \<longleftrightarrow> src_bit m src n (32 * k + (b - ?r))"
      using assms(2) by (intro bit_masked_word [OF k]) simp
    ultimately show ?thesis using True assms(2) by (simp add: bit_or_iff bit_push_bit_iff)
  next
    case False
    then have nz: "?r \<noteq> 0" "(32 - ?r) + b < 32" using r by auto
    have "\<not> bit (push_bit ?r (v::u32)) b" for v using False by (simp add: bit_push_bit_iff)
    moreover have "bit (m (src + (k - 1))) ((32 - ?r) + b) \<longleftrightarrow> src_bit m src n (32 * (k - 1) + ((32 - ?r) + b))" if "k > 0"
    proof -
      have "k - 1 < n div 32" using k that by (auto simp: BITS_TO_LONGS_div split: if_splits)
      then have "32 * (k - 1) + ((32 - ?r) + b) < n" using nz(2) by simp
      from src_bit_at [OF nz(2) this] show ?thesis by (rule sym)
    qed
    moreover have "32 * (k - 1) + ((32 - ?r) + b) = 32 * k + b - ?r" "?r \<le> 32 * k + b" if "k > 0"
      using that r by (cases k; simp)+
    ultimately show ?thesis using nz False by (cases "k > 0") (simp_all add: bit_or_iff bit_drop_bit_eq)
  qed
  then show ?thesis unfolding left_word_def Let_def masked_if_bit [OF assms] e by blast
qed

lemma masked_word_cong: "m (p + k) = m' (p + k) \<Longrightarrow> masked_word m p n k = masked_word m' p n k"
  by (simp only: masked_word_def)

lemma right_word_cong:
  assumes "m (src + (shift div 32 + k)) = m' (src + (shift div 32 + k))"
    and "shift div 32 + k + 1 < BITS_TO_LONGS n \<Longrightarrow> m (src + (shift div 32 + k + 1)) = m' (src + (shift div 32 + k + 1))"
  shows "right_word m src shift n k = right_word m' src shift n k"
  using masked_word_cong [of m src "shift div 32 + k" m' n] masked_word_cong [of m src "shift div 32 + k + 1" m' n] assms
  by (cases "shift div 32 + k + 1 < BITS_TO_LONGS n") (simp_all add: right_word_def)

lemma left_word_cong:
  assumes "m (src + k) = m' (src + k)" and "k > 0 \<Longrightarrow> m (src + (k - 1)) = m' (src + (k - 1))"
  shows "left_word m src shift n k = left_word m' src shift n k"
  using masked_word_cong [of m src k m' n] assms by (cases "k > 0") (simp_all add: left_word_def)

text \<open>A destination that is the source itself or does not overlap it.\<close>

definition shift_ok :: "nat \<Rightarrow> nat \<Rightarrow> nat \<Rightarrow> bool" where
  "shift_ok dst src n \<longleftrightarrow> src = dst \<or> src + bitmap_words n \<le> dst \<or> dst + bitmap_words n \<le> src"

lemma shift_right_loop:
  assumes "shift_ok dst src n"
  shows "fold (shift_right_word dst src shift n) [0..<BITS_TO_LONGS n - shift div 32] m =
    (\<lambda>j. if dst \<le> j \<and> j < dst + (BITS_TO_LONGS n - shift div 32) then right_word m src shift n (j - dst) else m j)"
proof (rule word_loop)
  fix k m' assume k: "k < BITS_TO_LONGS n - shift div 32"
    and m': "m' = (\<lambda>j. if dst \<le> j \<and> j < dst + k then right_word m src shift n (j - dst) else m j)"
  have "right_word m' src shift n k = right_word m src shift n k"
    by (rule right_word_cong) (use k assms in \<open>auto simp: m' shift_ok_def bitmap_words_def\<close>)
  then show "shift_right_word dst src shift n k m' = m'(dst + k := right_word m src shift n k)"
    by (simp add: shift_right_word_eq)
qed

lemma shift_left_loop:
  assumes "shift_ok dst src n"
  shows "fold (shift_left_word dst src shift n) (rev [0..<BITS_TO_LONGS n - shift div 32]) m =
    (\<lambda>j. if dst + shift div 32 \<le> j \<and> j < dst + shift div 32 + (BITS_TO_LONGS n - shift div 32)
         then left_word m src shift n (j - (dst + shift div 32)) else m j)"
proof (rule word_loop_down)
  fix k m' assume k: "k < BITS_TO_LONGS n - shift div 32"
    and m': "m' = (\<lambda>j. if dst + shift div 32 + k < j \<and> j < dst + shift div 32 + (BITS_TO_LONGS n - shift div 32)
      then left_word m src shift n (j - (dst + shift div 32)) else m j)"
  have "left_word m' src shift n k = left_word m src shift n k"
    by (rule left_word_cong) (use k assms in \<open>auto simp: m' shift_ok_def bitmap_words_def\<close>)
  then show "shift_left_word dst src shift n k m' = m'(dst + shift div 32 + k := left_word m src shift n k)"
    by (simp add: shift_left_word_eq ac_simps)
qed

lemma shift_right_bit:
  assumes "shift_ok dst src n" and "shift div 32 \<le> BITS_TO_LONGS n" and "k < BITS_TO_LONGS n" and "b < 32"
  shows "bit (uu_bitmap_shift_right dst src shift n m (dst + k)) b \<longleftrightarrow> src_bit m src n (32 * k + b + shift)"
proof (cases "shift div 32 + k < BITS_TO_LONGS n")
  case True
  then have "uu_bitmap_shift_right dst src shift n m (dst + k) = right_word m src shift n k"
    unfolding uu_bitmap_shift_right_def Let_def memset_words_def shift_right_loop [OF assms(1)] by auto
  with bit_right_word [OF True assms(4)] show ?thesis by (auto simp: src_bit_def)
next
  case False
  then have "uu_bitmap_shift_right dst src shift n m (dst + k) = 0"
    using assms(2,3) by (auto simp: uu_bitmap_shift_right_def Let_def memset_words_def)
  moreover have "n \<le> 32 * BITS_TO_LONGS n" by (simp add: BITS_TO_LONGS_def)
  moreover have "32 * (shift div 32) \<le> shift" by simp
  ultimately show ?thesis using False by (simp only: src_bit_def) (simp; linarith)
qed

lemma shift_left_bit:
  assumes "shift_ok dst src n" and "shift div 32 \<le> BITS_TO_LONGS n" and "k < BITS_TO_LONGS n" and "b < 32"
  shows "bit (uu_bitmap_shift_left dst src shift n m (dst + k)) b \<longleftrightarrow>
    32 * k + b < n \<and> shift \<le> 32 * k + b \<and> src_bit m src n (32 * k + b - shift)"
proof (cases "shift div 32 \<le> k")
  case True
  then obtain k' where k': "k = k' + shift div 32" by (metis le_add_diff_inverse2)
  have "uu_bitmap_shift_left dst src shift n m (dst + k) = left_word m src shift n k'"
    using k' assms(3)
    unfolding uu_bitmap_shift_left_def Let_def memset_words_def shift_left_loop [OF assms(1)] by auto
  with bit_left_word [of k' shift n b m src] assms(3,4) k' show ?thesis by simp
next
  case False
  then have "uu_bitmap_shift_left dst src shift n m (dst + k) = 0"
    by (auto simp: uu_bitmap_shift_left_def Let_def memset_words_def)
  moreover have "32 * (shift div 32) \<le> shift" by simp
  moreover have "32 * k + b < 32 * (shift div 32)" using False assms(4) by simp
  ultimately show ?thesis by (metis bit_0_eq bot_apply bot_bool_def leD order_less_le_trans)
qed

lemma shift_frame:
  assumes "shift_ok dst src n" and "shift div 32 \<le> BITS_TO_LONGS n" and "j < dst \<or> dst + BITS_TO_LONGS n \<le> j"
  shows "uu_bitmap_shift_right dst src shift n m j = m j" "uu_bitmap_shift_left dst src shift n m j = m j"
  using assms(2,3)
  unfolding uu_bitmap_shift_right_def uu_bitmap_shift_left_def Let_def memset_words_def
    shift_right_loop [OF assms(1)] shift_left_loop [OF assms(1)]
  by auto

text \<open>Sets of bits over whole words, so that the unused bits of the last word show.\<close>

lemma whole_words:
  assumes "\<And>k b. k < BITS_TO_LONGS n \<Longrightarrow> b < 32 \<Longrightarrow> bit (m (p + k)) b \<longleftrightarrow> P (32 * k + b)"
    and "\<And>i. P i \<Longrightarrow> i < n"
  shows "bitmap_set m p (32 * BITS_TO_LONGS n) = Collect P"
proof -
  have "bit (m (p + i div 32)) (i mod 32) \<longleftrightarrow> P i" if "i < 32 * BITS_TO_LONGS n" for i
    using assms(1) [of "i div 32" "i mod 32"] that by (simp add: less_mult_imp_div_less mult.commute)
  moreover have "i < 32 * BITS_TO_LONGS n" if "P i" for i
    using assms(2) [OF that] word_index [of i n] by (simp add: BITS_TO_LONGS_def)
  ultimately show ?thesis by (auto simp: bitmap_set_def)
qed

section \<open>Single bits and regions\<close>

definition bit_at :: "wmem \<Rightarrow> nat \<Rightarrow> nat \<Rightarrow> bool" where
  "bit_at m p i \<longleftrightarrow> bit (m (p + i div 32)) (i mod 32)"

lemma bitmap_set_bit_at: "bitmap_set m p n = {i. i < n \<and> bit_at m p i}"
  by (simp add: bitmap_set_def bit_at_def)

lemma same_bit: "i div 32 = j div 32 \<Longrightarrow> i mod 32 = j mod 32 \<Longrightarrow> i = (j::nat)"
  by (metis div_mult_mod_eq)

lemma bit_single: "b < 32 \<Longrightarrow> bit (2 ^ k :: u32) b \<longleftrightarrow> b = k"
  by (auto simp: bit_exp_iff)

lemma bit_at_upd:
  "bit_at (m(p + q := v)) p j = (if j div 32 = q then bit v (j mod 32) else bit_at m p j)"
  by (simp add: bit_at_def)

lemma single_bit_ops:
  "bit_at (uu_set_bit nr p m) p j \<longleftrightarrow> j = nr \<or> bit_at m p j"
  "bit_at (uu_clear_bit nr p m) p j \<longleftrightarrow> j \<noteq> nr \<and> bit_at m p j"
  "bit_at (uu_change_bit nr p m) p j \<longleftrightarrow> (if j = nr then \<not> bit_at m p j else bit_at m p j)"
  using same_bit [of j nr]
  by (auto simp: uu_set_bit_def uu_clear_bit_def uu_change_bit_def bit_at_def bit_or_iff bit_and_iff
      bit_xor_iff bit_not_iff bit_single)

lemma and_single: "(w::u32) AND 2 ^ k = 0 \<longleftrightarrow> \<not> (k < 32 \<and> bit w k)"
  by (auto simp: bit_eq_iff [of "w AND 2 ^ k"] bit_and_iff bit_exp_iff)

lemma test_bit_value: "uu_test_bit nr p m = of_bool (bit_at m p nr)"
  by (simp add: uu_test_bit_def bit_at_def bit_iff_odd_drop_bit and_one_eq mod2_eq_if)

lemma test_and_ops:
  "uu_test_and_set_bit nr p m = (r, m') \<Longrightarrow> (r \<noteq> 0) = bit_at m p nr \<and> m' = uu_set_bit nr p m"
  "uu_test_and_clear_bit nr p m = (r, m') \<Longrightarrow> (r \<noteq> 0) = bit_at m p nr \<and> m' = uu_clear_bit nr p m"
  "uu_test_and_change_bit nr p m = (r, m') \<Longrightarrow> (r \<noteq> 0) = bit_at m p nr \<and> m' = uu_change_bit nr p m"
  by (auto simp: uu_test_and_set_bit_def uu_test_and_clear_bit_def uu_test_and_change_bit_def
      uu_set_bit_def uu_clear_bit_def uu_change_bit_def Let_def bit_at_def and_single)

subsection \<open>Regions\<close>

lemma region_mask_bit:
  assumes "0 < pages" and "pages \<le> 32"
  shows "bit (region_mask pages) b \<longleftrightarrow> b < pages"
proof -
  have "region_mask pages = (2::u32) ^ pages - 1"
    using assms(1) by (cases pages) (simp_all add: region_mask_def Let_def)
  with assms(2) show ?thesis by (auto simp: bit_left_mask)
qed

text \<open>An aligned region of at most a word lies in one word.\<close>

lemma region_in_word:
  assumes "order \<le> 5" and "2 ^ order dvd (i::nat)"
  shows "i mod 32 + 2 ^ order \<le> 32"
proof -
  have d: "(2::nat) ^ order dvd 32" using le_imp_power_dvd [OF assms(1), of 2] by simp
  then have r: "2 ^ order dvd i mod 32" using assms(2) by (simp add: dvd_mod_iff)
  from r obtain q where q: "i mod 32 = 2 ^ order * q" by blast
  from d obtain l :: nat where l: "32 = 2 ^ order * l" by blast
  have "i mod 32 < 32" by simp
  then have "2 ^ order * q < 2 ^ order * l" using q l by linarith
  then have "q < l" by simp
  then have "2 ^ order * (q + 1) \<le> 2 ^ order * l" by (intro mult_le_mono) auto
  with q l show ?thesis by simp
qed

definition region :: "nat \<Rightarrow> nat \<Rightarrow> nat set" where
  "region i order = {i..<i + 2 ^ order}"

definition region_free :: "wmem \<Rightarrow> nat \<Rightarrow> nat \<Rightarrow> nat \<Rightarrow> bool" where
  "region_free m p i order \<longleftrightarrow> (\<forall>j\<in>region i order. \<not> bit_at m p j)"

lemma region_word:
  assumes "order \<le> 5" and "2 ^ order dvd (i::nat)" and "b < 32"
  shows "bit (push_bit (i - i div 32 * 32) (region_mask (2 ^ order))) b \<longleftrightarrow> 32 * (i div 32) + b \<in> region i order"
proof -
  have p: "(2::nat) ^ order \<le> 32" using region_in_word [OF assms(1,2)] by simp
  have i: "i - i div 32 * 32 = i mod 32" by (simp add: modulo_nat_def)
  have "i = 32 * (i div 32) + i mod 32" by simp
  then have "32 * (i div 32) + b \<in> region i order \<longleftrightarrow> i mod 32 \<le> b \<and> b < i mod 32 + 2 ^ order"
    unfolding region_def atLeastLessThan_iff by linarith
  then show ?thesis unfolding i using assms(3) region_mask_bit [OF _ p, of "b - i mod 32"]
    by (auto simp: bit_push_bit_iff)
qed

lemma region_div:
  assumes "order \<le> 5" and "2 ^ order dvd (i::nat)" and "j \<in> region i order"
  shows "j div 32 = i div 32"
proof -
  from assms(3) have "i \<le> j" "j < i + 2 ^ order" by (auto simp: region_def)
  with region_in_word [OF assms(1,2)] have "j < 32 * (i div 32) + 32"
    by (metis add_le_cancel_left mult_div_mod_eq order_less_le_trans add.assoc)
  with \<open>i \<le> j\<close> have "j div 32 \<le> i div 32" "i div 32 \<le> j div 32" by (auto intro: div_le_mono)
  then show ?thesis by simp
qed

lemma region_and_zero:
  assumes "order \<le> 5" and "2 ^ order dvd (i::nat)"
  shows "m (p + i div 32) AND push_bit (i - i div 32 * 32) (region_mask (2 ^ order)) = 0 \<longleftrightarrow> region_free m p i order"
proof -
  let ?M = "push_bit (i - i div 32 * 32) (region_mask (2 ^ order))"
  have "m (p + i div 32) AND ?M = 0 \<longleftrightarrow> (\<forall>b<32. \<not> (bit (m (p + i div 32)) b \<and> 32 * (i div 32) + b \<in> region i order))"
    using region_word [OF assms] by (subst bit_eq_iff) (auto simp: bit_and_iff)
  also have "\<dots> \<longleftrightarrow> region_free m p i order"
  proof
    assume h: "\<forall>b<32. \<not> (bit (m (p + i div 32)) b \<and> 32 * (i div 32) + b \<in> region i order)"
    have "\<not> bit_at m p j" if j: "j \<in> region i order" for j
    proof -
      have "32 * (i div 32) + j mod 32 = j" using region_div [OF assms j] by (metis mult_div_mod_eq)
      with h [rule_format, of "j mod 32"] j region_div [OF assms j] show ?thesis by (simp add: bit_at_def)
    qed
    then show "region_free m p i order" by (simp add: region_free_def)
  next
    assume h: "region_free m p i order"
    show "\<forall>b<32. \<not> (bit (m (p + i div 32)) b \<and> 32 * (i div 32) + b \<in> region i order)"
    proof (intro allI impI notI)
      fix b :: nat assume b: "b < 32" and x: "bit (m (p + i div 32)) b \<and> 32 * (i div 32) + b \<in> region i order"
      with h have "\<not> bit_at m p (32 * (i div 32) + b)" by (auto simp: region_free_def)
      with b x show False by (simp add: bit_at_def)
    qed
  qed
  finally show ?thesis .
qed

lemma region_or:
  assumes "order \<le> 5" and "2 ^ order dvd (i::nat)"
  shows "bit_at (m(p + i div 32 := m (p + i div 32) OR push_bit (i - i div 32 * 32) (region_mask (2 ^ order)))) p j \<longleftrightarrow>
    bit_at m p j \<or> j \<in> region i order"
proof -
  have "j div 32 = i div 32 \<Longrightarrow> 32 * (i div 32) + j mod 32 = j" by (metis mult_div_mod_eq)
  with region_word [OF assms, of "j mod 32"] region_div [OF assms, of j] show ?thesis
    by (auto simp: bit_at_upd bit_or_iff bit_at_def)
qed

lemma region_release_bit:
  assumes "order \<le> 5" and "2 ^ order dvd (i::nat)"
  shows "bit_at (bitmap_release_region p i order m) p j \<longleftrightarrow> bit_at m p j \<and> j \<notin> region i order"
proof -
  have "j div 32 = i div 32 \<Longrightarrow> 32 * (i div 32) + j mod 32 = j" by (metis mult_div_mod_eq)
  with region_word [OF assms, of "j mod 32"] region_div [OF assms, of j] show ?thesis
    unfolding bitmap_release_region_def Let_def bit_at_upd
    by (auto simp: bit_and_iff bit_not_iff bit_at_def)
qed

lemma region_set_release:
  assumes "(w::u32) AND v = 0"
  shows "(w OR v) AND NOT v = w"
proof (rule bit_word_eqI)
  fix b assume "b < LENGTH(32)"
  have "\<not> (bit w b \<and> bit v b)" using assms by (metis bit_and_iff bit_0_eq bot_apply bot_bool_def)
  with \<open>b < LENGTH(32)\<close> show "bit ((w OR v) AND NOT v) b = bit w b" by (auto simp: bit_and_iff bit_or_iff bit_not_iff)
qed

lemma find_free_loop_correct:
  assumes "order \<le> 5" and "2 ^ order dvd i" and "\<forall>i'<i. 2 ^ order dvd i' \<longrightarrow> \<not> region_free m p i' order"
  shows "case find_free_loop p bits (2 ^ order) i m of
      (Inl e, m') \<Rightarrow> e = ENOMEM \<and> m' = m \<and> (\<forall>i<bits. 2 ^ order dvd i \<longrightarrow> \<not> region_free m p i order)
    | (Inr r, m') \<Rightarrow> r < bits \<and> 2 ^ order dvd r \<and> region_free m p r order \<and>
        (\<forall>i'<r. 2 ^ order dvd i' \<longrightarrow> \<not> region_free m p i' order) \<and>
        m' = m(p + r div 32 := m (p + r div 32) OR push_bit (r - r div 32 * 32) (region_mask (2 ^ order)))"
  using assms
proof (induction p bits "(2::nat) ^ order" i m rule: find_free_loop.induct)
  case (1 p bits i m)
  show ?case
  proof (cases "i < bits \<and> \<not> region_free m p i order")
    case True
    have none: "\<forall>i'<i + 2 ^ order. 2 ^ order dvd i' \<longrightarrow> \<not> region_free m p i' order"
    proof (intro allI impI)
      fix i' assume i': "i' < i + 2 ^ order" "2 ^ order dvd i'"
      have "i' \<le> i"
      proof (rule ccontr)
        assume gt: "\<not> i' \<le> i"
        then have "2 ^ order dvd i' - i" "0 < i' - i" using i'(2) 1(3) by (auto intro: dvd_diff_nat)
        then have "2 ^ order \<le> i' - i" by (rule dvd_imp_le)
        with i'(1) gt show False by linarith
      qed
      with True 1(4) i'(2) show "\<not> region_free m p i' order" by (cases "i' = i") auto
    qed
    have nz: "m (p + i div 32) AND push_bit (i - i div 32 * 32) (region_mask (2 ^ order)) \<noteq> 0"
      using region_and_zero [OF 1(2,3)] True by blast
    have "find_free_loop p bits (2 ^ order) i m = find_free_loop p bits (2 ^ order) (i + 2 ^ order) m"
      using True nz by (subst find_free_loop.simps) (simp add: Let_def)
    with 1(1) [OF _ refl refl nz 1(2) _ none] True 1(3) show ?thesis by simp
  next
    case False
    then show ?thesis using 1(2-4) region_and_zero [OF 1(2,3), of m p]
      by (subst find_free_loop.simps) (auto simp: Let_def)
  qed
qed

section \<open>The fallback search\<close>

lemma word_offset:
  "r + b < 32 \<Longrightarrow> offset = 32 * q + (r::nat) \<Longrightarrow> (offset + b) div 32 = q \<and> (offset + b) mod 32 = r + b"
  by (simp add: add.assoc)

lemma less_next_word: "(i::nat) < 32 * (i div 32 + 1)"
  by (simp add: dividend_less_times_div)

lemma word_rest: "offset = 32 * q + (r::nat) \<Longrightarrow> offset \<le> j \<Longrightarrow> j < 32 * (q + 1) \<Longrightarrow> r + (j - offset) < 32"
  by auto

lemma skip_bits_correct:
  assumes "bit tmp b" and "\<forall>j<b. \<not> bit tmp j"
  shows "skip_bits offset tmp = Some (offset + b)"
  using assms
proof (induction b arbitrary: offset tmp)
  case 0
  then have "tmp AND 1 \<noteq> 0" by (simp add: and_one_eq bit_0 odd_iff_mod_2_eq_one)
  then show ?case by (subst skip_bits.simps) simp
next
  case (Suc b)
  have "\<not> bit tmp 0" using Suc.prems(2) by blast
  then have "tmp AND 1 = 0" by (simp add: and_one_eq bit_0 even_iff_mod_2_eq_zero)
  moreover have "skip_bits (offset + 1) (drop_bit 1 tmp) = Some (offset + 1 + b)"
    by (rule Suc.IH) (use Suc.prems in \<open>auto simp: bit_drop_bit_eq\<close>)
  ultimately show ?case by (subst skip_bits.simps) simp
qed

lemma and_ff_zero: "(tmp::u32) AND 0xff = 0 \<longleftrightarrow> (\<forall>j<8. \<not> bit tmp j)"
proof -
  have e: "(0xff::u32) = mask 8" by (simp add: mask_numeral)
  show ?thesis unfolding e and_mask_zero by auto
qed

lemma finish_search_correct:
  assumes "bit tmp b" and "\<forall>j<b. \<not> bit tmp j"
  shows "finish_search offset tmp = Some (offset + b)"
proof -
  have "\<exists>o' t' b'. skip_bytes offset tmp = Some (o', t') \<and> o' + b' = offset + b \<and> bit t' b' \<and> (\<forall>j<b'. \<not> bit t' j)"
    using assms
  proof (induction b arbitrary: offset tmp rule: less_induct)
    case (less b)
    show ?case
    proof (cases "b < 8")
      case True
      then have "tmp AND 0xff \<noteq> 0" using less.prems(1) by (auto simp: and_ff_zero)
      then show ?thesis using less.prems by (subst skip_bytes.simps) auto
    next
      case False
      then have z: "tmp AND 0xff = 0" using less.prems(2) by (auto simp: and_ff_zero)
      have "\<exists>o' t' b'. skip_bytes (offset + 8) (drop_bit 8 tmp) = Some (o', t') \<and> o' + b' = offset + 8 + (b - 8) \<and>
          bit t' b' \<and> (\<forall>j<b'. \<not> bit t' j)"
        by (rule less.IH) (use False less.prems in \<open>auto simp: bit_drop_bit_eq\<close>)
      with z False show ?thesis by (subst skip_bytes.simps) simp
    qed
  qed
  then obtain o' t' b' where t': "skip_bytes offset tmp = Some (o', t')" "o' + b' = offset + b"
    "bit t' b'" "\<forall>j<b'. \<not> bit t' j" by blast
  with skip_bits_correct [OF t'(3,4), of o'] show ?thesis by (simp add: finish_search_def)
qed

lemma scan_words_correct:
  assumes "m (addr + d) \<noteq> 0" and "\<forall>j<d. m (addr + j) = 0"
  shows "scan_words m addr = Some (addr + d, m (addr + d))"
  using assms
proof (induction d arbitrary: addr)
  case (Suc d)
  have "scan_words m (addr + 1) = Some (addr + 1 + d, m (addr + 1 + d))"
    by (rule Suc.IH) (use Suc.prems in auto)
  moreover have "m addr = 0" using Suc.prems(2) [rule_format, of 0] by simp
  ultimately show ?case using Suc.prems by (subst scan_words.simps) simp
qed (simp add: scan_words.simps)

lemma least_bit: "(w::u32) \<noteq> 0 \<Longrightarrow> \<exists>b<32. bit w b \<and> (\<forall>j<b. \<not> bit w j)"
  using arm_ffs_correct [of w] by (metis bit_imp_le_length)

lemma scan_from_correct:
  assumes "bit_at m p i" and "32 * d \<le> i"
  shows "\<exists>r. scan_from m p (p + d) = Some r \<and> 32 * d \<le> r \<and> bit_at m p r \<and> (\<forall>j. 32 * d \<le> j \<and> j < r \<longrightarrow> \<not> bit_at m p j)"
proof -
  have "m (p + d + (i div 32 - d)) \<noteq> 0" using assms by (auto simp: bit_at_def)
  then obtain e where e: "m (p + d + e) \<noteq> 0" "\<forall>j<e. m (p + d + j) = 0"
    using exists_least_iff [of "\<lambda>e. m (p + d + e) \<noteq> 0"] by auto
  obtain b where b: "b < 32" "bit (m (p + d + e)) b" "\<forall>j<b. \<not> bit (m (p + d + e)) j"
    using least_bit [OF e(1)] by blast
  let ?r = "32 * (d + e) + b"
  have "scan_from m p (p + d) = Some ?r"
    using scan_words_correct [of m "p + d", OF e] finish_search_correct [OF b(2,3)] by (simp add: scan_from_def mult.commute)
  moreover have "bit_at m p ?r" using b by (simp add: bit_at_def add.assoc)
  moreover have "\<not> bit_at m p j" if j: "32 * d \<le> j" "j < ?r" for j
  proof (cases "j div 32 < d + e")
    case True
    moreover have "d \<le> j div 32" using j(1) by (simp add: less_eq_div_iff_mult_less_eq mult.commute)
    ultimately have "m (p + d + (j div 32 - d)) = 0" and i: "p + d + (j div 32 - d) = p + j div 32"
      using e(2) [rule_format, of "j div 32 - d"] by linarith+
    then show ?thesis unfolding i by (simp add: bit_at_def)
  next
    case False
    have "j div 32 \<le> d + e" using div_le_mono [of j ?r 32] j(2) b(1) by simp
    with False have d: "j div 32 = d + e" by simp
    then have "j mod 32 < b" using j(2) by (metis mult_div_mod_eq nat_add_left_cancel_less)
    with b(3) d show ?thesis by (simp add: bit_at_def add.assoc)
  qed
  ultimately show ?thesis by (intro exI [of _ ?r]) auto
qed

section \<open>Properties\<close>

text \<open>
  C11. The Boolean operations on bitmaps are the operations on sets of bit numbers, in the
  one-word case and in the loop, also when the destination is one of the sources; nothing
  outside the destination's words is written.
\<close>

theorem bitmap_algebra:
  assumes "src_ok dst s1 n" and "src_ok dst s2 n"
  shows "bitmap_set (bitmap_and dst s1 s2 n m) dst n = bitmap_set m s1 n \<inter> bitmap_set m s2 n \<and>
    bitmap_set (bitmap_or dst s1 s2 n m) dst n = bitmap_set m s1 n \<union> bitmap_set m s2 n \<and>
    bitmap_set (bitmap_xor dst s1 s2 n m) dst n =
      (bitmap_set m s1 n - bitmap_set m s2 n) \<union> (bitmap_set m s2 n - bitmap_set m s1 n) \<and>
    bitmap_set (bitmap_andnot dst s1 s2 n m) dst n = bitmap_set m s1 n - bitmap_set m s2 n \<and>
    bitmap_set (bitmap_complement dst s1 n m) dst n = {0..<n} - bitmap_set m s1 n \<and>
    bitmap_set (bitmap_copy dst s1 n m) dst n = bitmap_set m s1 n \<and>
    bitmap_set (bitmap_zero dst n m) dst n = {} \<and>
    (0 < n \<longrightarrow> (\<exists>m'. bitmap_fill dst n m = Some m' \<and> bitmap_set m' dst n = {0..<n})) \<and>
    (\<forall>j. j < dst \<or> dst + bitmap_words n \<le> j \<longrightarrow>
       bitmap_and dst s1 s2 n m j = m j \<and> bitmap_or dst s1 s2 n m j = m j \<and>
       bitmap_xor dst s1 s2 n m j = m j \<and> bitmap_andnot dst s1 s2 n m j = m j \<and>
       bitmap_complement dst s1 n m j = m j \<and> bitmap_copy dst s1 n m j = m j \<and> bitmap_zero dst n m j = m j)"
proof -
  have sub: "bitmap_set m p n \<subseteq> {0..<n}" for p by (auto simp: bitmap_set_def)
  show ?thesis
    using sub [of s1] sub [of s2] bitmap_fill_set [of n dst m]
    unfolding band.set_bop [OF assms] bor.set_bop [OF assms] bxor.set_bop [OF assms] bandnot.set_bop [OF assms]
      bitmap_complement_set [OF assms(1)] bitmap_copy_set bitmap_zero_set
    by (auto simp: band.bop_frame bor.bop_frame bxor.bop_frame bandnot.bop_frame unary_frame)
qed

text \<open>
  C12. The tests decide emptiness, fullness, equality, overlap and inclusion of the sets, and
  the weight is the number of bits; the unused bits of the last word have no influence.
\<close>

theorem bitmap_tests:
  assumes "0 < n" and "n < 2 ^ 31"
  shows "(bitmap_empty m p n \<longleftrightarrow> bitmap_set m p n = {}) \<and>
    (bitmap_full m p n \<longleftrightarrow> bitmap_set m p n = {0..<n}) \<and>
    (bitmap_equal m p q n \<longleftrightarrow> bitmap_set m p n = bitmap_set m q n) \<and>
    (bitmap_intersects m p q n \<longleftrightarrow> bitmap_set m p n \<inter> bitmap_set m q n \<noteq> {}) \<and>
    (bitmap_subset m p q n \<longleftrightarrow> bitmap_set m p n \<subseteq> bitmap_set m q n) \<and>
    unat (bitmap_weight m p n) = card (bitmap_set m p n)"
proof -
  have "card (bitmap_set m p n) \<le> card {0..<n}" by (rule card_mono) (auto simp: bitmap_set_def)
  then have "card (bitmap_set m p n) < 2 ^ 32" using assms(2) by simp
  then have "unat (bitmap_weight m p n) = card (bitmap_set m p n)"
    by (simp add: bitmap_weight_of_nat unat_of_nat)
  with assms(1) show ?thesis
    by (simp add: bitmap_empty_set bitmap_full_set bitmap_equal_set bitmap_intersects_set bitmap_subset_set)
qed

text \<open>
  C13. The shifts move every bit by the distance, in place or into another bitmap, lose the
  bits that leave it, leave the unused bits of the last word clear and write nothing outside
  the destination, for distances of at most the whole words of the bitmap.
\<close>

theorem bitmap_shifts:
  assumes "shift_ok dst src n" and "shift div 32 \<le> BITS_TO_LONGS n"
  shows "bitmap_set (uu_bitmap_shift_right dst src shift n m) dst (32 * BITS_TO_LONGS n) =
      {i. i + shift \<in> bitmap_set m src n} \<and>
    bitmap_set (uu_bitmap_shift_left dst src shift n m) dst (32 * BITS_TO_LONGS n) =
      {i. i < n \<and> shift \<le> i \<and> i - shift \<in> bitmap_set m src n} \<and>
    (\<forall>j. j < dst \<or> dst + BITS_TO_LONGS n \<le> j \<longrightarrow>
       uu_bitmap_shift_right dst src shift n m j = m j \<and> uu_bitmap_shift_left dst src shift n m j = m j)"
proof -
  have b: "src_bit m src n i \<longleftrightarrow> i \<in> bitmap_set m src n" for i by (simp add: src_bit_def bitmap_set_def)
  have "bitmap_set (uu_bitmap_shift_right dst src shift n m) dst (32 * BITS_TO_LONGS n) =
      {i. i + shift \<in> bitmap_set m src n}"
    using shift_right_bit [OF assms] by (intro whole_words) (auto simp: b bitmap_set_def)
  moreover have "bitmap_set (uu_bitmap_shift_left dst src shift n m) dst (32 * BITS_TO_LONGS n) =
      {i. i < n \<and> shift \<le> i \<and> i - shift \<in> bitmap_set m src n}"
    using shift_left_bit [OF assms] by (intro whole_words) (auto simp: b)
  ultimately show ?thesis using shift_frame [OF assms] by blast
qed

text \<open>
  C14. The one-word case of \<open>bitmap_shift_right\<close> shifts the whole word: it is right exactly
  when the unused bits above \<open>n\<close> that it shifts in are clear, while the loop for longer bitmaps
  masks them. The comment of \<open>lib/bitmap.c\<close> that unused bits never affect a result does not
  hold of this operation.
\<close>

theorem bitmap_shift_right_small:
  assumes "0 < n" and "n \<le> 32"
  shows "bitmap_set (bitmap_shift_right dst src k n m) dst n = {i. i + k \<in> bitmap_set m src n} \<longleftrightarrow>
    (\<forall>i. n \<le> i \<and> i < n + k \<and> k \<le> i \<longrightarrow> \<not> bit (m src) i)"
proof -
  have "bitmap_set (bitmap_shift_right dst src k n m) dst n = {i. i < n \<and> bit (m src) (k + i)}"
    using assms by (auto simp: bitmap_set_def bitmap_shift_right_def bit_drop_bit_eq small_div)
  moreover have "{i. i + k \<in> bitmap_set m src n} = {i. i + k < n \<and> bit (m src) (k + i)}"
    using assms by (auto simp: bitmap_set_def small_div add.commute)
  moreover have "(\<forall>i. i < n \<and> bit (m src) (k + i) \<longrightarrow> i + k < n) \<longleftrightarrow>
      (\<forall>i. n \<le> i \<and> i < n + k \<and> k \<le> i \<longrightarrow> \<not> bit (m src) i)"
  proof (intro iffI allI impI notI)
    fix i assume h: "\<forall>i. i < n \<and> bit (m src) (k + i) \<longrightarrow> i + k < n" "n \<le> i \<and> i < n + k \<and> k \<le> i" "bit (m src) i"
    from h(2) have "i - k < n" "k + (i - k) = i" by linarith+
    with h(1) [rule_format, of "i - k"] h(2,3) show False by auto
  next
    fix i assume h: "\<forall>i. n \<le> i \<and> i < n + k \<and> k \<le> i \<longrightarrow> \<not> bit (m src) i" "i < n \<and> bit (m src) (k + i)"
    with h(1) [rule_format, of "k + i"] show "i + k < n" by (cases "i + k < n") auto
  qed
  ultimately show ?thesis by auto
qed

text \<open>
  C15. Region allocation. For an order of at most 5 the search returns the first aligned
  region that is free and marks exactly its bits, or reports \<open>ENOMEM\<close> when there is none;
  the region ends inside the bitmap when the size is a multiple of it; releasing the region
  restores the memory, and allocating it at a given position succeeds exactly when it is free.
  A larger order is refused.
\<close>

theorem bitmap_regions:
  assumes "order \<le> 5"
  shows "(case bitmap_find_free_region p bits order m of
      (Inl e, m') \<Rightarrow> e = ENOMEM \<and> m' = m \<and> (\<forall>i<bits. 2 ^ order dvd i \<longrightarrow> \<not> region_free m p i order)
    | (Inr i, m') \<Rightarrow> i < bits \<and> 2 ^ order dvd i \<and> region_free m p i order \<and>
        (\<forall>i'<i. 2 ^ order dvd i' \<longrightarrow> \<not> region_free m p i' order) \<and>
        (\<forall>j. bit_at m' p j \<longleftrightarrow> bit_at m p j \<or> j \<in> region i order) \<and>
        (2 ^ order dvd bits \<longrightarrow> i + 2 ^ order \<le> bits) \<and>
        bitmap_release_region p i order m' = m) \<and>
    (2 ^ order dvd pos \<longrightarrow> bitmap_allocate_region p pos order m =
        Some (if region_free m p pos order
              then (Inr (), m(p + pos div 32 := m (p + pos div 32) OR push_bit (pos mod 32) (region_mask (2 ^ order))))
              else (Inl EBUSY, m)))"
proof -
  have "(2::nat) ^ order \<le> 2 ^ 5" using assms by (intro power_increasing) auto
  then have le: "\<not> (2::nat) ^ order > 32" by simp
  then have "bitmap_find_free_region p bits order m = find_free_loop p bits (2 ^ order) 0 m"
    by (simp add: bitmap_find_free_region_def Let_def)
  moreover have "i + 2 ^ order \<le> bits" if "i < bits" "2 ^ order dvd i" "2 ^ order dvd bits" for i
  proof -
    have "2 ^ order \<le> bits - i" using that by (intro dvd_imp_le) (auto intro: dvd_diff_nat)
    then show ?thesis using that(1) by linarith
  qed
  moreover have "pos - pos div 32 * 32 = pos mod 32" by (simp add: modulo_nat_def)
  ultimately show ?thesis
    using find_free_loop_correct [OF assms, of 0 m p bits] region_or [OF assms] le
      region_and_zero [OF assms, of pos m p] region_and_zero [OF assms, of _ m p]
    by (auto simp: bitmap_allocate_region_def bitmap_release_region_def Let_def region_set_release
        split: prod.splits sum.splits)
qed

text \<open>
  C16. The fallback \<open>find_next_bit\<close> returns and finds the first set bit from the offset on,
  whenever there is one in memory, except that for an offset that is a positive multiple of
  the word size the search starts a whole word later.
\<close>

theorem find_next_bit_correct:
  assumes "from = (if offset \<noteq> 0 \<and> offset mod 32 = 0 then offset + 32 else offset)"
    and "bit_at m p i" and "from \<le> i"
  shows "\<exists>r. find_next_bit m p sz offset = Some r \<and> from \<le> r \<and> bit_at m p r \<and> (\<forall>j. from \<le> j \<and> j < r \<longrightarrow> \<not> bit_at m p j)"
proof -
  consider (zero) "offset = 0" | (aligned) "offset \<noteq> 0" "offset mod 32 = 0" | (inside) "offset mod 32 \<noteq> 0" by fastforce
  then show ?thesis
  proof cases
    case zero
    with assms scan_from_correct [of m p i 0] show ?thesis by (simp add: find_next_bit_def)
  next
    case aligned
    then have "32 * (offset div 32 + 1) = from" using assms(1) by auto
    with assms aligned scan_from_correct [of m p i "offset div 32 + 1"] show ?thesis
      by (simp add: find_next_bit_def Let_def add.commute)
  next
    case inside
    then have f: "from = offset" "offset \<noteq> 0" using assms(1) by auto
    let ?t = "drop_bit (offset mod 32) (m (p + offset div 32))"
    have split: "offset = 32 * (offset div 32) + offset mod 32" by simp
    have t: "bit ?t b \<longleftrightarrow> bit_at m p (offset + b)" if "offset mod 32 + b < 32" for b
      using word_offset [OF that split] by (simp add: bit_at_def bit_drop_bit_eq)
    have low: "offset mod 32 + b < 32" if "bit ?t b" for b
      using that by (auto simp: bit_drop_bit_eq dest: bit_imp_le_length)
    show ?thesis
    proof (cases "?t = 0")
      case True
      have none: "\<not> bit_at m p j" if "offset \<le> j" "j < 32 * (offset div 32 + 1)" for j
      proof -
        have "offset mod 32 + (j - offset) < 32" using word_rest [OF split] that by blast
        from t [OF this] True that(1) show ?thesis by simp
      qed
      have "32 * (offset div 32 + 1) \<le> i" using none [of i] assms(2,3) f(1) by (meson leI)
      from scan_from_correct [OF assms(2) this] obtain r where r: "scan_from m p (p + (offset div 32 + 1)) = Some r"
        "32 * (offset div 32 + 1) \<le> r" "bit_at m p r" "\<forall>j. 32 * (offset div 32 + 1) \<le> j \<and> j < r \<longrightarrow> \<not> bit_at m p j" by blast
      have "offset < 32 * (offset div 32 + 1)" by (rule less_next_word)
      with r(2) have "offset \<le> r" by linarith
      moreover have "\<not> bit_at m p j" if "offset \<le> j" "j < r" for j
        using none [of j] r(4) that by (meson leI)
      moreover have "find_next_bit m p sz offset = Some r"
        using r(1) f(2) True by (simp add: find_next_bit_def Let_def add.assoc)
      ultimately show ?thesis using r(3) f(1) by blast
    next
      case False
      then obtain b where b: "bit ?t b" "\<forall>j<b. \<not> bit ?t j" using least_bit by blast
      have "find_next_bit m p sz offset = Some (offset + b)"
        using finish_search_correct [OF b] inside f(2) False by (simp add: find_next_bit_def Let_def)
      moreover have "bit_at m p (offset + b)" using t [OF low [OF b(1)]] b(1) by blast
      moreover have "\<not> bit_at m p j" if "offset \<le> j" "j < offset + b" for j
      proof -
        have "offset mod 32 + (j - offset) < 32" "j - offset < b" using low [OF b(1)] that by linarith+
        with t [OF this(1)] b(2) that(1) show ?thesis by simp
      qed
      ultimately show ?thesis using f(1) by (intro exI [of _ "offset + b"]) auto
    qed
  qed
qed

section \<open>Witnesses\<close>

theorem bitmap_algebra_witness:
  "src_ok 0 0 40 \<and> src_ok 0 2 40 \<and>
   bitmap_set (bitmap_and 0 0 2 40 (\<lambda>j. if j < 2 then 6 else 3)) 0 40 =
     bitmap_set (\<lambda>j. if j < 2 then 6 else 3) 0 40 \<inter> bitmap_set (\<lambda>j. if j < 2 then 6 else 3) 2 40"
proof -
  have h: "src_ok 0 0 40" "src_ok 0 2 40" by (simp_all add: src_ok_def)
  show ?thesis by (intro conjI h) (rule conjunct1 [OF bitmap_algebra [OF h]])
qed

theorem bitmap_tests_witness:
  "unat (bitmap_weight (\<lambda>_. 5) 0 40) = card (bitmap_set (\<lambda>_. 5) 0 40) \<and>
   (bitmap_empty (\<lambda>_. 5) 0 40 \<longleftrightarrow> bitmap_set (\<lambda>_. 5) 0 40 = {})"
proof -
  have h: "0 < (40::nat)" "(40::nat) < 2 ^ 31" by simp_all
  from bitmap_tests [OF h, of "\<lambda>_. 5" 0 0] show ?thesis by blast
qed

theorem bitmap_shifts_witness:
  "bitmap_set (uu_bitmap_shift_left 0 0 35 70 (\<lambda>_. 5)) 0 96 =
     {i. i < 70 \<and> 35 \<le> i \<and> i - 35 \<in> bitmap_set (\<lambda>_. 5) 0 70}"
proof -
  have h: "shift_ok 0 0 70" "(35::nat) div 32 \<le> BITS_TO_LONGS 70" by (simp_all add: shift_ok_def BITS_TO_LONGS_def)
  have "32 * BITS_TO_LONGS 70 = 96" by (simp add: BITS_TO_LONGS_def)
  with bitmap_shifts [OF h, of "\<lambda>_. 5"] show ?thesis by simp
qed

theorem bitmap_shift_right_small_witness:
  "bitmap_set (bitmap_shift_right 0 0 1 8 (\<lambda>_. 0x100)) 0 8 \<noteq> {i. i + 1 \<in> bitmap_set (\<lambda>_. 0x100) 0 8}"
proof -
  have h: "0 < (8::nat)" "(8::nat) \<le> 32" by simp_all
  have b: "bit (0x100 :: u32) 8" by simp
  show ?thesis
  proof
    assume "bitmap_set (bitmap_shift_right 0 0 1 8 (\<lambda>_. 0x100)) 0 8 = {i. i + 1 \<in> bitmap_set (\<lambda>_. 0x100) 0 8}"
    then have "\<forall>i. 8 \<le> i \<and> i < 8 + 1 \<and> 1 \<le> i \<longrightarrow> \<not> bit (0x100 :: u32) i"
      using bitmap_shift_right_small [OF h, of 0 0 1 "\<lambda>_. 0x100"] by blast
    from this [rule_format, of 8] b show False by simp
  qed
qed

theorem bitmap_regions_witness:
  "(2::nat) ^ 1 dvd 2 \<and> bitmap_allocate_region 0 2 1 (\<lambda>_. 3) \<noteq> None \<and> (1::nat) \<le> 5"
proof -
  have h: "(1::nat) \<le> 5" by simp
  show ?thesis using bitmap_regions [OF h, where p = 0 and bits = 32 and m = "\<lambda>_. 3" and pos = 2] by simp
qed

theorem find_next_bit_correct_witness:
  "\<exists>r. find_next_bit (\<lambda>_. 8) 0 64 33 = Some r \<and> 33 \<le> r \<and> bit_at (\<lambda>_. 8) 0 r"
proof -
  have h: "(33::nat) = (if (33::nat) \<noteq> 0 \<and> (33::nat) mod 32 = 0 then 33 + 32 else 33)" "bit_at (\<lambda>_. 8) 0 35" "(33::nat) \<le> 35"
    by (simp_all add: bit_at_def)
  from find_next_bit_correct [OF h, of 64] show ?thesis by blast
qed

end
