(* ===== verification/Ctype.thy ===== *)
theory Ctype
  imports Kernel_Prelude
begin

text \<open>
  Character classes: the table of \<open>lib/ctype.c\<close> and the macros and inline functions of
  \<open>include/linux/ctype.h\<close>. A character is a byte; a C string that is only read is the list
  of its bytes before the terminating NUL, and \<open>cur\<close> is the byte at the read pointer.
\<close>

section \<open>Definitions\<close>

type_synonym cstr = "u8 list"

definition cur :: "cstr \<Rightarrow> u8" where
  "cur cp = (case cp of [] \<Rightarrow> 0 | c # _ \<Rightarrow> c)"

abbreviation ct_U :: u8 where "ct_U \<equiv> 0x01"
abbreviation ct_L :: u8 where "ct_L \<equiv> 0x02"
abbreviation ct_D :: u8 where "ct_D \<equiv> 0x04"
abbreviation ct_C :: u8 where "ct_C \<equiv> 0x08"
abbreviation ct_P :: u8 where "ct_P \<equiv> 0x10"
abbreviation ct_S :: u8 where "ct_S \<equiv> 0x20"
abbreviation ct_X :: u8 where "ct_X \<equiv> 0x40"
abbreviation ct_SP :: u8 where "ct_SP \<equiv> 0x80"

definition u_ctype :: "u8 list" where
  "u_ctype = [
    ct_C, ct_C, ct_C, ct_C, ct_C, ct_C, ct_C, ct_C,
    ct_C, ct_C OR ct_S, ct_C OR ct_S, ct_C OR ct_S, ct_C OR ct_S, ct_C OR ct_S, ct_C, ct_C,
    ct_C, ct_C, ct_C, ct_C, ct_C, ct_C, ct_C, ct_C,
    ct_C, ct_C, ct_C, ct_C, ct_C, ct_C, ct_C, ct_C,
    ct_S OR ct_SP, ct_P, ct_P, ct_P, ct_P, ct_P, ct_P, ct_P,
    ct_P, ct_P, ct_P, ct_P, ct_P, ct_P, ct_P, ct_P,
    ct_D, ct_D, ct_D, ct_D, ct_D, ct_D, ct_D, ct_D,
    ct_D, ct_D, ct_P, ct_P, ct_P, ct_P, ct_P, ct_P,
    ct_P, ct_U OR ct_X, ct_U OR ct_X, ct_U OR ct_X, ct_U OR ct_X, ct_U OR ct_X, ct_U OR ct_X, ct_U,
    ct_U, ct_U, ct_U, ct_U, ct_U, ct_U, ct_U, ct_U,
    ct_U, ct_U, ct_U, ct_U, ct_U, ct_U, ct_U, ct_U,
    ct_U, ct_U, ct_U, ct_P, ct_P, ct_P, ct_P, ct_P,
    ct_P, ct_L OR ct_X, ct_L OR ct_X, ct_L OR ct_X, ct_L OR ct_X, ct_L OR ct_X, ct_L OR ct_X, ct_L,
    ct_L, ct_L, ct_L, ct_L, ct_L, ct_L, ct_L, ct_L,
    ct_L, ct_L, ct_L, ct_L, ct_L, ct_L, ct_L, ct_L,
    ct_L, ct_L, ct_L, ct_P, ct_P, ct_P, ct_P, ct_C,
    0, 0, 0, 0, 0, 0, 0, 0, 0, 0, 0, 0, 0, 0, 0, 0,
    0, 0, 0, 0, 0, 0, 0, 0, 0, 0, 0, 0, 0, 0, 0, 0,
    ct_S OR ct_SP, ct_P, ct_P, ct_P, ct_P, ct_P, ct_P, ct_P, ct_P, ct_P, ct_P, ct_P, ct_P, ct_P, ct_P, ct_P,
    ct_P, ct_P, ct_P, ct_P, ct_P, ct_P, ct_P, ct_P, ct_P, ct_P, ct_P, ct_P, ct_P, ct_P, ct_P, ct_P,
    ct_U, ct_U, ct_U, ct_U, ct_U, ct_U, ct_U, ct_U, ct_U, ct_U, ct_U, ct_U, ct_U, ct_U, ct_U, ct_U,
    ct_U, ct_U, ct_U, ct_U, ct_U, ct_U, ct_U, ct_P, ct_U, ct_U, ct_U, ct_U, ct_U, ct_U, ct_U, ct_L,
    ct_L, ct_L, ct_L, ct_L, ct_L, ct_L, ct_L, ct_L, ct_L, ct_L, ct_L, ct_L, ct_L, ct_L, ct_L, ct_L,
    ct_L, ct_L, ct_L, ct_L, ct_L, ct_L, ct_L, ct_P, ct_L, ct_L, ct_L, ct_L, ct_L, ct_L, ct_L, ct_L]"

definition uu_ismask :: "u8 \<Rightarrow> u8" where
  "uu_ismask x = u_ctype ! unat x"

definition isalnum :: "u8 \<Rightarrow> bool" where
  "isalnum c \<longleftrightarrow> uu_ismask c AND (ct_U OR ct_L OR ct_D) \<noteq> 0"

definition isalpha :: "u8 \<Rightarrow> bool" where
  "isalpha c \<longleftrightarrow> uu_ismask c AND (ct_U OR ct_L) \<noteq> 0"

definition isdigit :: "u8 \<Rightarrow> bool" where
  "isdigit c \<longleftrightarrow> uu_ismask c AND ct_D \<noteq> 0"

definition islower :: "u8 \<Rightarrow> bool" where
  "islower c \<longleftrightarrow> uu_ismask c AND ct_L \<noteq> 0"

definition isspace :: "u8 \<Rightarrow> bool" where
  "isspace c \<longleftrightarrow> uu_ismask c AND ct_S \<noteq> 0"

definition isupper :: "u8 \<Rightarrow> bool" where
  "isupper c \<longleftrightarrow> uu_ismask c AND ct_U \<noteq> 0"

definition isxdigit :: "u8 \<Rightarrow> bool" where
  "isxdigit c \<longleftrightarrow> uu_ismask c AND (ct_D OR ct_X) \<noteq> 0"

definition uu_tolower :: "u8 \<Rightarrow> u8" where
  "uu_tolower c = (if isupper c then c - (65 - 97) else c)"

definition uu_toupper :: "u8 \<Rightarrow> u8" where
  "uu_toupper c = (if islower c then c - (97 - 65) else c)"

section \<open>The classes as ranges\<close>

lemma u_ctype_length: "length u_ctype = 256"
  by (simp add: u_ctype_def)

lemma upt_256: "[0..<256] = 0 # 1 # [2..<256::nat]"
  by (simp add: upt_conv_Cons numeral_2_eq_2)

text \<open>A class is read off the table once, for all 256 bytes.\<close>

lemma class_range:
  assumes "map (\<lambda>t. t AND k \<noteq> 0) u_ctype = map P [0..<256]"
  shows "(uu_ismask c AND k \<noteq> 0) = P (unat c)"
proof -
  have c: "unat c < 256" using unat_bound [of c] by simp
  have "map (\<lambda>t. t AND k \<noteq> 0) u_ctype ! unat c = map P [0..<256] ! unat c" using assms by simp
  with c show ?thesis by (simp add: uu_ismask_def u_ctype_length)
qed

lemma isdigit_range: "isdigit c \<longleftrightarrow> 48 \<le> unat c \<and> unat c \<le> 57"
  unfolding isdigit_def by (rule class_range) (simp add: u_ctype_def upt_256 upt_rec_numeral)

lemma isxdigit_range:
  "isxdigit c \<longleftrightarrow> 48 \<le> unat c \<and> unat c \<le> 57 \<or> 65 \<le> unat c \<and> unat c \<le> 70 \<or> 97 \<le> unat c \<and> unat c \<le> 102"
  unfolding isxdigit_def by (rule class_range) (simp add: u_ctype_def upt_256 upt_rec_numeral)

lemma islower_range: "islower c \<longleftrightarrow> 97 \<le> unat c \<and> unat c \<le> 122 \<or> 223 \<le> unat c \<and> unat c \<noteq> 247"
  unfolding islower_def by (rule class_range) (simp add: u_ctype_def upt_256 upt_rec_numeral)

lemma isupper_range: "isupper c \<longleftrightarrow> 65 \<le> unat c \<and> unat c \<le> 90 \<or> 192 \<le> unat c \<and> unat c \<le> 222 \<and> unat c \<noteq> 215"
  unfolding isupper_def by (rule class_range) (simp add: u_ctype_def upt_256 upt_rec_numeral)

lemma isspace_range: "isspace c \<longleftrightarrow> 9 \<le> unat c \<and> unat c \<le> 13 \<or> unat c = 32 \<or> unat c = 160"
  unfolding isspace_def by (rule class_range) (simp add: u_ctype_def upt_256 upt_rec_numeral)

end
