(* ===== verification/Vsprintf.thy ===== *)
theory Vsprintf
  imports Ctype
begin

text \<open>
  Number parsing and formatted output: \<open>lib/vsprintf.c\<close> up to \<open>sprintf\<close> (the scanner is in
  theory Vsscanf). Memory is a function from 32-bit addresses to bytes; pointers are addresses and
  pointer arithmetic and comparison wrap as on the machine, so the code's own handling of a buffer
  at the end of the address space is visible. Format strings and strings given to the number
  parsers are lists of bytes (they are only read); a string argument of \<open>%s\<close> is a pointer into
  memory, so it may overlap the output buffer. A variable argument list is a list of 32-bit and
  64-bit arguments; a missing argument or one of the wrong width is undefined behaviour, \<open>None\<close>.
  The \<open>int\<close> locals are unbounded: their overflow is undefined in C.
\<close>

section \<open>Definitions\<close>

type_synonym mem = "u32 \<Rightarrow> u8"

definition bytes :: "string \<Rightarrow> cstr" where
  "bytes s = map of_char s"

subsection \<open>Parsing numbers\<close>

definition digit_val :: "u8 \<Rightarrow> 'a::len word" where
  "digit_val c = (if isdigit c then ucast c - 48 else ucast (uu_toupper c) - 65 + 10)"

text \<open>The prefix that fixes the base: base 0 means decimal, octal or hexadecimal by the first
  characters, and base 16 allows \<open>0x\<close>.\<close>

definition strto_base :: "cstr \<Rightarrow> u32 \<Rightarrow> u32 \<times> cstr" where
  "strto_base cp base =
     (if base = 0 then
        if cur cp = 48 then
          let cp = tl cp
          in if uu_toupper (cur cp) = 88 \<and> isxdigit (cur (tl cp)) then (16, tl cp) else (8, cp)
        else (10, cp)
      else if base = 16 \<and> cur cp = 48 \<and> uu_toupper (cur (tl cp)) = 88 then (16, tl (tl cp))
      else (base, cp))"

text \<open>The digit loop, for the result width of \<open>simple_strtoul\<close> (32) and of
  \<open>simple_strtoull\<close> (64).\<close>

fun strto_loop :: "u32 \<Rightarrow> 'a::len word \<Rightarrow> cstr \<Rightarrow> 'a word \<times> cstr" where
  "strto_loop base result [] = (result, [])"
| "strto_loop base result (c # cp) =
     (if isxdigit c \<and> (digit_val c :: 'a word) < ucast base
      then strto_loop base (result * ucast base + digit_val c) cp else (result, c # cp))"

definition simple_strtoul :: "cstr \<Rightarrow> u32 \<Rightarrow> u32 \<times> cstr" where
  "simple_strtoul cp base = (let (base, cp) = strto_base cp base in strto_loop base 0 cp)"

definition simple_strtol :: "cstr \<Rightarrow> u32 \<Rightarrow> u32 \<times> cstr" where
  "simple_strtol cp base =
     (if cur cp = 45 then let (r, endp) = simple_strtoul (tl cp) base in (- r, endp)
      else simple_strtoul cp base)"

definition simple_strtoull :: "cstr \<Rightarrow> u32 \<Rightarrow> u64 \<times> cstr" where
  "simple_strtoull cp base = (let (base, cp) = strto_base cp base in strto_loop base 0 cp)"

definition simple_strtoll :: "cstr \<Rightarrow> u32 \<Rightarrow> u64 \<times> cstr" where
  "simple_strtoll cp base =
     (if cur cp = 45 then let (r, endp) = simple_strtoull (tl cp) base in (- r, endp)
      else simple_strtoull cp base)"

fun skip_atoi_loop :: "int \<Rightarrow> cstr \<Rightarrow> int \<times> cstr" where
  "skip_atoi_loop i [] = (i, [])"
| "skip_atoi_loop i (c # s) =
     (if isdigit c then skip_atoi_loop (i * 10 + int (unat c) - 48) s else (i, c # s))"

definition skip_atoi :: "cstr \<Rightarrow> int \<times> cstr" where
  "skip_atoi s = skip_atoi_loop 0 s"

subsection \<open>Printing one number\<close>

abbreviation ZEROPAD :: u32 where "ZEROPAD \<equiv> 1"
abbreviation SIGN :: u32 where "SIGN \<equiv> 2"
abbreviation PLUS :: u32 where "PLUS \<equiv> 4"
abbreviation SPACE :: u32 where "SPACE \<equiv> 8"
abbreviation LEFT :: u32 where "LEFT \<equiv> 16"
abbreviation SPECIAL :: u32 where "SPECIAL \<equiv> 32"
abbreviation LARGE :: u32 where "LARGE \<equiv> 64"

text \<open>The output state: memory and the write pointer. Every store is guarded by \<open>end\<close> and
  advances the pointer whether it happens or not.\<close>

type_synonym outst = "mem \<times> u32"

definition put :: "u32 \<Rightarrow> u8 \<Rightarrow> outst \<Rightarrow> outst" where
  "put end c st = (case st of (m, str) \<Rightarrow> (if str \<le> end then m(str := c) else m, str + 1))"

text \<open>\<open>while (n-- > 0)\<close>, \<open>while (--n > 0)\<close> and \<open>while (len < n--)\<close>, each storing a
  character and leaving the counter as C leaves it.\<close>

function pad_loop :: "u32 \<Rightarrow> u8 \<Rightarrow> int \<Rightarrow> outst \<Rightarrow> int \<times> outst" where
  "pad_loop end c n st = (if n > 0 then pad_loop end c (n - 1) (put end c st) else (n - 1, st))"
  by auto
termination by (relation "measure (\<lambda>(_, _, n, _). nat n)") auto

function pre_loop :: "u32 \<Rightarrow> u8 \<Rightarrow> int \<Rightarrow> outst \<Rightarrow> int \<times> outst" where
  "pre_loop end c n st = (if n - 1 > 0 then pre_loop end c (n - 1) (put end c st) else (n - 1, st))"
  by auto
termination by (relation "measure (\<lambda>(_, _, n, _). nat n)") auto

function width_loop :: "u32 \<Rightarrow> u8 \<Rightarrow> int \<Rightarrow> int \<Rightarrow> outst \<Rightarrow> int \<times> outst" where
  "width_loop end c len n st = (if len < n then width_loop end c len (n - 1) (put end c st) else (n - 1, st))"
  by auto
termination by (relation "measure (\<lambda>(_, _, len, n, _). nat (n - len))") auto

declare pad_loop.simps [simp del] pre_loop.simps [simp del] width_loop.simps [simp del]

definition small_digits :: cstr where
  "small_digits = bytes ''0123456789abcdefghijklmnopqrstuvwxyz''"

definition large_digits :: cstr where
  "large_digits = bytes ''0123456789ABCDEFGHIJKLMNOPQRSTUVWXYZ''"

text \<open>\<open>while (num != 0) tmp[i++] = digits[do_div(num, base)]\<close>, least significant digit first.\<close>

function digit_loop :: "cstr \<Rightarrow> nat \<Rightarrow> nat \<Rightarrow> cstr" where
  "digit_loop digits base num =
     (if num \<noteq> 0 \<and> base \<ge> 2 then digits ! (num mod base) # digit_loop digits base (num div base) else [])"
  by auto
termination by (relation "measure (\<lambda>(_, _, num). num)") auto

declare digit_loop.simps [simp del]

text \<open>The sign character, the magnitude and the width left.\<close>

definition number_sign :: "u32 \<Rightarrow> u64 \<Rightarrow> int \<Rightarrow> u8 \<times> u64 \<times> int" where
  "number_sign type num sz =
     (if type AND SIGN \<noteq> 0 then
        if sint num < 0 then (45, - num, sz - 1)
        else if type AND PLUS \<noteq> 0 then (43, num, sz - 1)
        else if type AND SPACE \<noteq> 0 then (32, num, sz - 1)
        else (0, num, sz)
      else (0, num, sz))"

definition number :: "u32 \<Rightarrow> outst \<Rightarrow> u64 \<Rightarrow> int \<Rightarrow> int \<Rightarrow> int \<Rightarrow> u32 \<Rightarrow> outst option" where
  "number end st num base sz precision type =
     (let digits = (if type AND LARGE \<noteq> 0 then large_digits else small_digits);
          type = (if type AND LEFT \<noteq> 0 then type AND NOT ZEROPAD else type)
      in if base < 2 \<or> base > 36 then None else
      let c = (if type AND ZEROPAD \<noteq> 0 then 48 else 32);
          (sign, num, sz) = number_sign type num sz;
          sz = (if type AND SPECIAL \<noteq> 0
                then if base = 16 then sz - 2 else if base = 8 then sz - 1 else sz else sz);
          tmp = (if num = 0 then [48] else digit_loop digits (nat base) (unat num));
          i = int (length tmp);
          precision = (if i > precision then i else precision);
          sz = sz - precision;
          (sz, st) = (if type AND (ZEROPAD + LEFT) = 0 then pad_loop end 32 sz st else (sz, st));
          st = (if sign \<noteq> 0 then put end sign st else st);
          st = (if type AND SPECIAL \<noteq> 0
                then if base = 8 then put end 48 st
                     else if base = 16 then put end (digits ! 33) (put end 48 st) else st
                else st);
          (sz, st) = (if type AND LEFT = 0 then pad_loop end c sz st else (sz, st));
          (_, st) = width_loop end 48 i precision st;
          st = fold (put end) (rev tmp) st;
          (_, st) = pad_loop end 32 sz st
      in Some st)"

subsection \<open>Directives of a format\<close>

fun flags_loop :: "u32 \<Rightarrow> cstr \<Rightarrow> u32 \<times> cstr" where
  "flags_loop flags [] = (flags, [])"
| "flags_loop flags (c # fmt) =
     (if c = 45 then flags_loop (flags OR LEFT) fmt
      else if c = 43 then flags_loop (flags OR PLUS) fmt
      else if c = 32 then flags_loop (flags OR SPACE) fmt
      else if c = 35 then flags_loop (flags OR SPECIAL) fmt
      else if c = 48 then flags_loop (flags OR ZEROPAD) fmt
      else (flags, c # fmt))"

datatype varg = Arg32 u32 | Arg64 u64

fun va_arg32 :: "varg list \<Rightarrow> (u32 \<times> varg list) option" where
  "va_arg32 (Arg32 w # args) = Some (w, args)"
| "va_arg32 _ = None"

fun va_arg64 :: "varg list \<Rightarrow> (u64 \<times> varg list) option" where
  "va_arg64 (Arg64 w # args) = Some (w, args)"
| "va_arg64 _ = None"

definition get_width :: "u32 \<Rightarrow> cstr \<Rightarrow> varg list \<Rightarrow> (int \<times> u32 \<times> cstr \<times> varg list) option" where
  "get_width flags fmt args =
     (if isdigit (cur fmt) then let (w, fmt) = skip_atoi fmt in Some (w, flags, fmt, args)
      else if cur fmt = 42 then
        case va_arg32 args of None \<Rightarrow> None
        | Some (a, args) \<Rightarrow>
            if sint a < 0 then Some (- sint a, flags OR LEFT, tl fmt, args) else Some (sint a, flags, tl fmt, args)
      else Some (- 1, flags, fmt, args))"

definition get_precision :: "cstr \<Rightarrow> varg list \<Rightarrow> (int \<times> cstr \<times> varg list) option" where
  "get_precision fmt args =
     (if cur fmt = 46 then
        let fmt = tl fmt
        in if isdigit (cur fmt) then let (p, fmt) = skip_atoi fmt in Some (max p 0, fmt, args)
           else if cur fmt = 42 then
             case va_arg32 args of None \<Rightarrow> None | Some (a, args) \<Rightarrow> Some (max (sint a) 0, tl fmt, args)
           else Some (0, fmt, args)
      else Some (- 1, fmt, args))"

text \<open>The qualifier is a character, or 0 for none; \<open>ll\<close> is \<open>L\<close>.\<close>

definition get_qualifier :: "cstr \<Rightarrow> u8 \<times> cstr" where
  "get_qualifier fmt =
     (if cur fmt \<in> {104, 108, 76, 90, 122} then
        let qualifier = cur fmt; fmt = tl fmt
        in if qualifier = 108 \<and> cur fmt = 108 then (76, tl fmt) else (qualifier, fmt)
      else (0, fmt))"

subsection \<open>Conversions\<close>

abbreviation PAGE_SIZE :: u32 where "PAGE_SIZE \<equiv> 4096"

definition null_str :: cstr where
  "null_str = bytes ''<NULL>''"

fun strnlen :: "mem \<Rightarrow> u32 \<Rightarrow> nat \<Rightarrow> nat" where
  "strnlen m s 0 = 0"
| "strnlen m s (Suc count) = (if m s \<noteq> 0 then Suc (strnlen m (s + 1) count) else 0)"

text \<open>The copy loop of \<open>%s\<close>; it reads memory as the stores before it have left it.\<close>

fun copy_str :: "u32 \<Rightarrow> nat \<Rightarrow> u32 \<Rightarrow> outst \<Rightarrow> outst" where
  "copy_str end 0 s st = st"
| "copy_str end (Suc n) s st = copy_str end n (s + 1) (put end (fst st s) st)"

definition store32 :: "mem \<Rightarrow> u32 \<Rightarrow> u32 \<Rightarrow> mem" where
  "store32 m p v = m(p := ucast v, p + 1 := ucast (drop_bit 8 v), p + 2 := ucast (drop_bit 16 v), p + 3 := ucast (drop_bit 24 v))"

definition conv_c :: "u32 \<Rightarrow> u32 \<Rightarrow> int \<Rightarrow> u32 \<Rightarrow> outst \<Rightarrow> outst" where
  "conv_c end flags field_width a st =
     (let (field_width, st) = (if flags AND LEFT = 0 then pre_loop end 32 field_width st else (field_width, st));
          st = put end (ucast a) st;
          (_, st) = pre_loop end 32 field_width st
      in st)"

text \<open>A precision of -1 becomes the largest \<open>size_t\<close>.\<close>

definition conv_s :: "u32 \<Rightarrow> u32 \<Rightarrow> int \<Rightarrow> int \<Rightarrow> u32 \<Rightarrow> outst \<Rightarrow> outst" where
  "conv_s end flags field_width precision s st =
     (let count = unat (word_of_int precision :: u32);
          len = (if s < PAGE_SIZE then min (length null_str) count else strnlen (fst st) s count);
          (field_width, st) = (if flags AND LEFT = 0 then width_loop end 32 (int len) field_width st else (field_width, st));
          st = (if s < PAGE_SIZE then fold (put end) (take len null_str) st else copy_str end len s st);
          (_, st) = width_loop end 32 (int len) field_width st
      in st)"

definition conv_p :: "u32 \<Rightarrow> u32 \<Rightarrow> int \<Rightarrow> int \<Rightarrow> u32 \<Rightarrow> outst \<Rightarrow> outst option" where
  "conv_p end flags field_width precision a st =
     (let (field_width, flags) = (if field_width = - 1 then (8, flags OR ZEROPAD) else (field_width, flags))
      in number end st (ucast a) 16 field_width precision flags)"

definition conv_n :: "u32 \<Rightarrow> u32 \<Rightarrow> outst \<Rightarrow> outst" where
  "conv_n buf ip st = (case st of (m, str) \<Rightarrow> (store32 m ip (str - buf), str))"

text \<open>The base and the flags a conversion character selects, or \<open>None\<close> for one that is not an
  integer format.\<close>

definition int_format :: "u8 \<Rightarrow> u32 \<Rightarrow> (int \<times> u32) option" where
  "int_format c flags =
     (if c = 111 then Some (8, flags)
      else if c = 88 then Some (16, flags OR LARGE)
      else if c = 120 then Some (16, flags)
      else if c = 100 \<or> c = 105 then Some (10, flags OR SIGN)
      else if c = 117 then Some (10, flags)
      else None)"

definition fetch_num :: "u8 \<Rightarrow> u32 \<Rightarrow> varg list \<Rightarrow> (u64 \<times> varg list) option" where
  "fetch_num qualifier flags args =
     (if qualifier = 76 then va_arg64 args
      else case va_arg32 args of None \<Rightarrow> None
      | Some (a, args) \<Rightarrow>
          Some (if qualifier = 108 then if flags AND SIGN \<noteq> 0 then scast a else ucast a
                else if qualifier = 90 \<or> qualifier = 122 then ucast a
                else if qualifier = 104 then
                  if flags AND SIGN \<noteq> 0 then scast (ucast a :: u16) else ucast (ucast a :: u16)
                else if flags AND SIGN \<noteq> 0 then scast a else ucast a, args))"

text \<open>A directive as parsed: the conversion with its flags, field width, precision and argument.\<close>

datatype conv =
    Conv_c u32 int u32
  | Conv_s u32 int int u32
  | Conv_p u32 int int u32
  | Conv_n u32
  | Conv_lit cstr
  | Conv_int u64 int int int u32

text \<open>Parsing one directive, from the character after \<open>%\<close> to the next character of the format;
  at the end of the format (\<open>--fmt\<close> and the \<open>++fmt\<close> of the loop) nothing is skipped.\<close>

definition parse_directive :: "cstr \<Rightarrow> varg list \<Rightarrow> (conv \<times> cstr \<times> varg list) option" where
  "parse_directive fmt args =
     (let (flags, fmt) = flags_loop 0 fmt
      in case get_width flags fmt args of None \<Rightarrow> None
      | Some (field_width, flags, fmt, args) \<Rightarrow>
        (case get_precision fmt args of None \<Rightarrow> None
        | Some (precision, fmt, args) \<Rightarrow>
          let (qualifier, fmt) = get_qualifier fmt; c = cur fmt
          in if c = 99 then
               case va_arg32 args of None \<Rightarrow> None
               | Some (a, args) \<Rightarrow> Some (Conv_c flags field_width a, tl fmt, args)
             else if c = 115 then
               case va_arg32 args of None \<Rightarrow> None
               | Some (s, args) \<Rightarrow> Some (Conv_s flags field_width precision s, tl fmt, args)
             else if c = 112 then
               case va_arg32 args of None \<Rightarrow> None
               | Some (a, args) \<Rightarrow> Some (Conv_p flags field_width precision a, tl fmt, args)
             else if c = 110 then
               case va_arg32 args of None \<Rightarrow> None
               | Some (ip, args) \<Rightarrow> Some (Conv_n ip, tl fmt, args)
             else if c = 37 then Some (Conv_lit [37], tl fmt, args)
             else case int_format c flags of
               Some (base, flags) \<Rightarrow>
                 (case fetch_num qualifier flags args of None \<Rightarrow> None
                  | Some (num, args) \<Rightarrow> Some (Conv_int num base field_width precision flags, tl fmt, args))
             | None \<Rightarrow>
                 if c \<noteq> 0 then Some (Conv_lit [37, c], tl fmt, args) else Some (Conv_lit [37], fmt, args)))"

definition run_conv :: "u32 \<Rightarrow> u32 \<Rightarrow> conv \<Rightarrow> outst \<Rightarrow> outst option" where
  "run_conv end buf cv st =
     (case cv of
        Conv_c flags field_width a \<Rightarrow> Some (conv_c end flags field_width a st)
      | Conv_s flags field_width precision s \<Rightarrow> Some (conv_s end flags field_width precision s st)
      | Conv_p flags field_width precision a \<Rightarrow> conv_p end flags field_width precision a st
      | Conv_n ip \<Rightarrow> Some (conv_n buf ip st)
      | Conv_lit cs \<Rightarrow> Some (fold (put end) cs st)
      | Conv_int num base field_width precision flags \<Rightarrow> number end st num base field_width precision flags)"

subsection \<open>The functions\<close>

lemma flags_loop_length: "length (snd (flags_loop flags fmt)) \<le> length fmt"
  by (induction flags fmt rule: flags_loop.induct) auto

lemma skip_atoi_loop_length: "length (snd (skip_atoi_loop i s)) \<le> length s"
  by (induction i s rule: skip_atoi_loop.induct) auto

lemma get_width_length: "get_width flags fmt args = Some (w, f, fmt', a) \<Longrightarrow> length fmt' \<le> length fmt"
  using skip_atoi_loop_length [of 0 fmt]
  by (auto simp: get_width_def skip_atoi_def split: if_splits option.splits prod.splits)

lemma get_precision_length: "get_precision fmt args = Some (p, fmt', a) \<Longrightarrow> length fmt' \<le> length fmt"
  using skip_atoi_loop_length [of 0 "tl fmt"]
  by (auto simp: get_precision_def skip_atoi_def Let_def split: if_splits option.splits prod.splits)

lemma get_qualifier_length: "length (snd (get_qualifier fmt)) \<le> length fmt"
  by (auto simp: get_qualifier_def Let_def)

lemma parse_directive_length:
  assumes "parse_directive fmt args = Some (cv, fmt', args')"
  shows "length fmt' \<le> length fmt"
proof -
  obtain flags f1 where f1: "flags_loop 0 fmt = (flags, f1)" by (cases "flags_loop 0 fmt")
  obtain w fl f2 a2 where f2: "get_width flags f1 args = Some (w, fl, f2, a2)"
    using assms f1 by (auto simp: parse_directive_def split: option.splits)
  obtain p f3 a3 where f3: "get_precision f2 a2 = Some (p, f3, a3)"
    using assms f1 f2 by (auto simp: parse_directive_def split: option.splits)
  obtain q f4 where f4: "get_qualifier f3 = (q, f4)" by (cases "get_qualifier f3")
  have "fmt' = f4 \<or> fmt' = tl f4"
    using assms f1 f2 f3 f4 by (auto simp: parse_directive_def Let_def split: option.splits if_splits)
  moreover have "length f4 \<le> length fmt"
    using flags_loop_length [of 0 fmt] get_width_length [OF f2] get_precision_length [OF f3]
      get_qualifier_length [of f3] f1 f4 by simp
  ultimately show ?thesis by auto
qed

text \<open>The main loop of \<open>vsnprintf\<close>; a byte 0 ends the format.\<close>

function vsnprintf_loop :: "u32 \<Rightarrow> u32 \<Rightarrow> cstr \<Rightarrow> varg list \<Rightarrow> outst \<Rightarrow> outst option" where
  "vsnprintf_loop end buf [] args st = Some st"
| "vsnprintf_loop end buf (c # fmt) args st =
     (if c = 0 then Some st
      else if c \<noteq> 37 then vsnprintf_loop end buf fmt args (put end c st)
      else case parse_directive fmt args of None \<Rightarrow> None
      | Some (cv, fmt, args) \<Rightarrow>
          (case run_conv end buf cv st of None \<Rightarrow> None
           | Some st \<Rightarrow> vsnprintf_loop end buf fmt args st))"
  by pat_completeness auto
termination
  by (relation "measure (\<lambda>(_, _, fmt, _, _). length fmt)") (auto dest: parse_directive_length)

definition vsnprintf :: "mem \<Rightarrow> u32 \<Rightarrow> u32 \<Rightarrow> cstr \<Rightarrow> varg list \<Rightarrow> (u32 \<times> mem) option" where
  "vsnprintf m buf sz fmt args =
     (if sint sz < 0 then Some (0, m)
      else
        let end = buf + sz - 1;
            (end, sz) = (if end < buf - 1 then (- 1, - 1 - buf + 1) else (end, sz))
        in case vsnprintf_loop end buf fmt args (m, buf) of None \<Rightarrow> None
           | Some (m, str) \<Rightarrow>
               let m = (if str \<le> end then m(str := 0) else if sz > 0 then m(end := 0) else m)
               in Some (str - buf, m))"

definition vscnprintf :: "mem \<Rightarrow> u32 \<Rightarrow> u32 \<Rightarrow> cstr \<Rightarrow> varg list \<Rightarrow> (u32 \<times> mem) option" where
  "vscnprintf m buf sz fmt args =
     (case vsnprintf m buf sz fmt args of None \<Rightarrow> None
      | Some (i, m) \<Rightarrow> Some (if i \<ge> sz then sz - 1 else i, m))"

definition snprintf :: "mem \<Rightarrow> u32 \<Rightarrow> u32 \<Rightarrow> cstr \<Rightarrow> varg list \<Rightarrow> (u32 \<times> mem) option" where
  "snprintf m buf sz fmt args = vsnprintf m buf sz fmt args"

definition scnprintf :: "mem \<Rightarrow> u32 \<Rightarrow> u32 \<Rightarrow> cstr \<Rightarrow> varg list \<Rightarrow> (u32 \<times> mem) option" where
  "scnprintf m buf sz fmt args =
     (case vsnprintf m buf sz fmt args of None \<Rightarrow> None
      | Some (i, m) \<Rightarrow> Some (if i \<ge> sz then sz - 1 else i, m))"

definition vsprintf :: "mem \<Rightarrow> u32 \<Rightarrow> cstr \<Rightarrow> varg list \<Rightarrow> (u32 \<times> mem) option" where
  "vsprintf m buf fmt args = vsnprintf m buf (drop_bit 1 (NOT 0)) fmt args"

definition sprintf :: "mem \<Rightarrow> u32 \<Rightarrow> cstr \<Rightarrow> varg list \<Rightarrow> (u32 \<times> mem) option" where
  "sprintf m buf fmt args = vsprintf m buf fmt args"

section \<open>Output as a list of characters\<close>

subsection \<open>Loops\<close>

lemma fold_put_replicate: "fold (put e) (replicate (Suc k) c) st = fold (put e) (replicate k c) (put e c st)"
  by simp

lemma pad_loop_eq: "pad_loop e c n st = (if n > 0 then - 1 else n - 1, fold (put e) (replicate (nat n) c) st)"
proof (induction e c n st rule: pad_loop.induct)
  case (1 e c n st)
  show ?case
  proof (cases "n > 0")
    case True
    then have "nat n = Suc (nat (n - 1))" by simp
    with 1 [OF True] True show ?thesis by (subst pad_loop.simps) (auto simp: fold_put_replicate)
  qed (simp add: pad_loop.simps)
qed

lemma pre_loop_eq: "pre_loop e c n st = (if n > 1 then 0 else n - 1, fold (put e) (replicate (nat (n - 1)) c) st)"
proof (induction e c n st rule: pre_loop.induct)
  case (1 e c n st)
  show ?case
  proof (cases "n - 1 > 0")
    case True
    then have "nat (n - 1) = Suc (nat (n - 1 - 1))" by simp
    with 1 [OF True] True show ?thesis by (subst pre_loop.simps) (auto simp: fold_put_replicate)
  qed (simp add: pre_loop.simps)
qed

lemma width_loop_eq:
  "width_loop e c len n st = (if len < n then len - 1 else n - 1, fold (put e) (replicate (nat (n - len)) c) st)"
proof (induction e c len n st rule: width_loop.induct)
  case (1 e c len n st)
  show ?case
  proof (cases "len < n")
    case True
    then have "nat (n - len) = Suc (nat (n - 1 - len))" by simp
    with 1 [OF True] True show ?thesis by (subst width_loop.simps) (auto simp: fold_put_replicate)
  qed (simp add: width_loop.simps)
qed

subsection \<open>Numbers\<close>

definition number_chars :: "u64 \<Rightarrow> int \<Rightarrow> int \<Rightarrow> int \<Rightarrow> u32 \<Rightarrow> u8 list" where
  "number_chars num base sz precision type =
     (let digits = (if type AND LARGE \<noteq> 0 then large_digits else small_digits);
          left = (type AND LEFT \<noteq> 0); zero = (\<not> left \<and> type AND ZEROPAD \<noteq> 0);
          (sign, num, sz) = number_sign type num sz;
          prefix = (if type AND SPECIAL = 0 then [] else if base = 8 then [48]
                    else if base = 16 then [48, digits ! 33] else []);
          tmp = (if num = 0 then [48] else digit_loop digits (nat base) (unat num));
          zeros = replicate (nat (precision - int (length tmp))) 48;
          fill = nat (sz - int (length prefix) - max (int (length tmp)) precision)
      in (if left \<or> zero then [] else replicate fill 32) @ (if sign = 0 then [] else [sign]) @ prefix @
         (if zero then replicate fill 48 else []) @ zeros @ rev tmp @ (if left then replicate fill 32 else []))"

lemma and_17_zero: "(x::u32) AND 17 = 0 \<longleftrightarrow> x AND 1 = 0 \<and> x AND 16 = 0"
proof -
  have "(17::u32) = 1 OR 16" by simp
  then have "x AND 17 = (x AND 1) OR (x AND 16)" by (simp only: bit.conj_disj_distrib)
  then show ?thesis by (simp add: or_eq_0_iff)
qed

lemma clear_zeropad:
  "((x::u32) AND - 2) AND 1 = 0" "(x AND - 2) AND 2 = x AND 2" "(x AND - 2) AND 4 = x AND 4"
  "(x AND - 2) AND 8 = x AND 8" "(x AND - 2) AND 16 = x AND 16" "(x AND - 2) AND 32 = x AND 32"
  by (simp_all add: and.assoc)

lemma number_sign_clear: "number_sign (x AND - 2) num sz = number_sign x num sz"
  by (simp only: number_sign_def clear_zeropad)

lemma number_eq:
  assumes "2 \<le> base" and "base \<le> 36"
  shows "number e st num base sz precision type = Some (fold (put e) (number_chars num base sz precision type) st)"
proof -
  obtain sign n' sz' where sg: "number_sign type num sz = (sign, n', sz')" by (cases "number_sign type num sz") auto
  have b: "\<not> (base < 2 \<or> base > 36)" using assms by auto
  have m: "max (int k) p = (if int k > p then int k else p)" for k p by auto
  show ?thesis
  proof (cases "type AND 16 = 0")
    case True
    then show ?thesis using b
      by (cases "type AND 1 = 0"; cases "type AND 32 = 0")
        (auto simp: number_def number_chars_def Let_def sg m and_17_zero pad_loop_eq width_loop_eq)
  next
    case False
    then show ?thesis using b
      by (cases "type AND 32 = 0")
        (auto simp: number_def number_chars_def Let_def number_sign_clear clear_zeropad sg m and_17_zero pad_loop_eq width_loop_eq)
  qed
qed

subsection \<open>Conversions and formats\<close>

text \<open>The characters a conversion produces from a memory in which the addresses \<open>W\<close> may change
  while it runs: \<open>None\<close> for \<open>%n\<close>, which stores through its argument, and for a string
  argument that is read from such an address.\<close>

definition padded :: "u32 \<Rightarrow> int \<Rightarrow> u8 list \<Rightarrow> u8 list" where
  "padded flags field_width cs =
     (let fill = replicate (nat (field_width - int (length cs))) 32
      in if flags AND LEFT = 0 then fill @ cs else cs @ fill)"

definition conv_chars :: "(u32 \<Rightarrow> bool) \<Rightarrow> mem \<Rightarrow> conv \<Rightarrow> u8 list option" where
  "conv_chars W m cv =
     (case cv of
        Conv_c flags field_width a \<Rightarrow> Some (padded flags field_width [ucast a])
      | Conv_s flags field_width precision s \<Rightarrow>
          (let count = unat (word_of_int precision :: u32); len = strnlen m s count
           in if s < PAGE_SIZE then Some (padded flags field_width (take count null_str))
              else if list_ex (\<lambda>i. W (s + of_nat i)) [0..<Suc len] then None
              else Some (padded flags field_width (map (\<lambda>i. m (s + of_nat i)) [0..<len])))
      | Conv_p flags field_width precision a \<Rightarrow>
          Some (if field_width = - 1 then number_chars (ucast a) 16 8 precision (flags OR ZEROPAD)
                else number_chars (ucast a) 16 field_width precision flags)
      | Conv_n ip \<Rightarrow> None
      | Conv_lit cs \<Rightarrow> Some cs
      | Conv_int num base field_width precision flags \<Rightarrow>
          if 2 \<le> base \<and> base \<le> 36 then Some (number_chars num base field_width precision flags) else None)"

function format :: "(u32 \<Rightarrow> bool) \<Rightarrow> mem \<Rightarrow> cstr \<Rightarrow> varg list \<Rightarrow> u8 list option" where
  "format W m [] args = Some []"
| "format W m (c # fmt) args =
     (if c = 0 then Some []
      else if c \<noteq> 37 then map_option (Cons c) (format W m fmt args)
      else case parse_directive fmt args of None \<Rightarrow> None
      | Some (cv, fmt, args) \<Rightarrow>
          (case conv_chars W m cv of None \<Rightarrow> None
           | Some cs \<Rightarrow> map_option (append cs) (format W m fmt args)))"
  by pat_completeness auto
termination
  by (relation "measure (\<lambda>(_, _, fmt, _). length fmt)") (auto dest: parse_directive_length)

text \<open>A state in which only the window has changed and the write pointer has not left it
  downwards.\<close>

definition win_ok :: "mem \<Rightarrow> u32 \<Rightarrow> u32 \<Rightarrow> outst \<Rightarrow> bool" where
  "win_ok m buf e st \<longleftrightarrow> (\<forall>a. \<not> (buf \<le> a \<and> a \<le> e) \<longrightarrow> fst st a = m a) \<and> buf \<le> snd st"

lemma unat_add_small: "unat (p::u32) + k < 2 ^ 32 \<Longrightarrow> unat (p + of_nat k) = unat p + k"
  by (simp add: unat_word_ariths(1) unat_of_nat)

lemma unat_suc: "unat (p::u32) + 1 < 2 ^ 32 \<Longrightarrow> unat (p + 1) = unat p + 1"
  using unat_add_small [of p 1] by simp

text \<open>
  Room for \<open>n\<close> more characters: the pointer does not wrap around, and every store at or below
  \<open>e\<close> is in the window up to \<open>h\<close>.
\<close>

definition room :: "u32 \<Rightarrow> u32 \<Rightarrow> outst \<Rightarrow> nat \<Rightarrow> bool" where
  "room e h st n \<longleftrightarrow> unat (snd st) + n < 2 ^ 32 \<and> (e \<le> h \<or> unat (snd st) + n \<le> unat h + 1)"

lemma room_less: "room e h st n \<Longrightarrow> k \<le> n \<Longrightarrow> room e h st k"
  by (auto simp: room_def)

lemma put_ok: "win_ok m buf h st \<Longrightarrow> room e h st 1 \<Longrightarrow> win_ok m buf h (put e c st)"
  using unat_suc [of "snd st"] by (auto simp: win_ok_def room_def put_def word_le_nat_alt split: prod.splits)

lemma snd_put [simp]: "snd (put e c st) = snd st + 1"
  by (simp add: put_def split: prod.splits)

lemma snd_fold_put: "snd (fold (put e) cs st) = snd st + of_nat (length cs)"
  by (induction cs arbitrary: st) (simp_all add: ac_simps)

lemma room_put: "room e h st (Suc n) \<Longrightarrow> room e h (put e' c st) n"
  using unat_suc [of "snd st"] by (auto simp: room_def)

lemma room_fold: "room e h st (length cs + n) \<Longrightarrow> room e h (fold (put e') cs st) n"
  using unat_add_small [of "snd st" "length cs"] by (auto simp: room_def snd_fold_put)

lemma fold_put_ok:
  assumes "win_ok m buf h st" and "room e h st (length cs)"
  shows "win_ok m buf h (fold (put e) cs st)"
  using assms
proof (induction cs arbitrary: st)
  case (Cons c cs)
  have "win_ok m buf h (put e c st)"
    using Cons.prems by (intro put_ok) (auto elim: room_less)
  with Cons.IH Cons.prems(2) show ?case by (simp add: room_put)
qed simp

lemma fold_put_mem:
  assumes "unat str + length cs < 2 ^ 32"
  shows "fst (fold (put e) cs (m, str)) a =
    (if unat str \<le> unat a \<and> unat a < unat str + length cs \<and> a \<le> e then cs ! (unat a - unat str) else m a)"
  using assms
proof (induction cs arbitrary: m str)
  case (Cons c cs)
  have s: "unat (str + 1) = unat str + 1" using unat_suc [of str] Cons.prems by simp
  have "fst (fold (put e) (c # cs) (m, str)) a = fst (fold (put e) cs (if str \<le> e then m(str := c) else m, str + 1)) a"
    by (simp add: put_def)
  also have "\<dots> = (if unat str + 1 \<le> unat a \<and> unat a < unat str + 1 + length cs \<and> a \<le> e
      then cs ! (unat a - (unat str + 1)) else (if str \<le> e then m(str := c) else m) a)"
    using Cons.IH [of "str + 1"] Cons.prems by (simp add: s)
  also have "\<dots> = (if unat str \<le> unat a \<and> unat a < unat str + length (c # cs) \<and> a \<le> e then (c # cs) ! (unat a - unat str) else m a)"
  proof (cases "a = str")
    case False
    then have "unat a \<noteq> unat str" by (simp add: word_unat_eq_iff)
    with False show ?thesis by (auto simp: nth_Cons' Suc_le_eq)
  qed auto
  finally show ?case .
qed auto

lemma copy_str_eq:
  assumes "win_ok m buf h st" and "\<forall>i<len. \<not> (buf \<le> s + of_nat i \<and> s + of_nat i \<le> h)"
    and "room e h st len"
  shows "copy_str e len s st = fold (put e) (map (\<lambda>i. m (s + of_nat i)) [0..<len]) st"
  using assms
proof (induction len arbitrary: s st)
  case (Suc len)
  have r: "fst st s = m s" using Suc.prems(1) Suc.prems(2) [rule_format, of 0] by (simp add: win_ok_def)
  have nxt: "\<forall>i<len. \<not> (buf \<le> (s + 1) + of_nat i \<and> (s + 1) + of_nat i \<le> h)"
    using Suc.prems(2) by (metis Suc_less_eq add.assoc of_nat_Suc)
  have len: "room e h (put e (m s) st) len" by (rule room_put [OF Suc.prems(3)])
  have ok: "win_ok m buf h (put e (m s) st)" using Suc.prems(1,3) by (intro put_ok) (auto elim: room_less)
  have m: "map (\<lambda>i. m (s + of_nat i)) [0..<Suc len] = m s # map (\<lambda>i. m ((s + 1) + of_nat i)) [0..<len]"
    by (simp add: map_upt_Suc add.assoc del: upt_Suc)
  show ?case unfolding m using Suc.IH [OF ok nxt len] r by simp
qed simp

lemma strnlen_numeral:
  "strnlen m s (numeral k) = (if m s \<noteq> 0 then Suc (strnlen m (s + 1) (pred_numeral k)) else 0)"
  by (simp only: numeral_eq_Suc strnlen.simps)

lemma strnlen_le: "strnlen m s n \<le> n"
  by (induction m s n rule: strnlen.induct) auto

lemma strnlen_cong:
  assumes "\<forall>i \<le> strnlen m s n. m' (s + of_nat i) = m (s + of_nat i)"
  shows "strnlen m' s n = strnlen m s n"
  using assms
proof (induction m s n rule: strnlen.induct)
  case (2 m s count)
  have h: "m' s = m s" using 2(2) [rule_format, of 0] by simp
  show ?case
  proof (cases "m s \<noteq> 0")
    case True
    have "\<forall>i \<le> strnlen m (s + 1) count. m' (s + 1 + of_nat i) = m (s + 1 + of_nat i)"
    proof (intro allI impI)
      fix i assume "i \<le> strnlen m (s + 1) count"
      with True 2(2) [rule_format, of "Suc i"] show "m' (s + 1 + of_nat i) = m (s + 1 + of_nat i)" by (simp add: add.assoc)
    qed
    from 2(1) [OF True this] True h show ?thesis by simp
  qed (use h in simp)
qed simp

lemma fold_put_padded:
  "fold (put e) (padded flags w cs) st =
     (let (w, st) = (if flags AND LEFT = 0 then width_loop e 32 (int (length cs)) w st else (w, st))
      in snd (width_loop e 32 (int (length cs)) w (fold (put e) cs st)))"
  by (simp add: padded_def Let_def width_loop_eq)

lemma conv_c_eq: "conv_c e flags w a st = fold (put e) (padded flags w [ucast a]) st"
  by (simp add: conv_c_def padded_def Let_def pre_loop_eq)

lemma take_min: "take (min (length xs) n) xs = take n xs"
  by (simp add: min_def)

lemma conv_s_null:
  assumes "s < PAGE_SIZE"
  shows "conv_s e flags w p s st = fold (put e) (padded flags w (take (unat (word_of_int p :: u32)) null_str)) st"
  unfolding fold_put_padded using assms
  by (simp add: conv_s_def Let_def take_min case_prod_unfold cong: if_cong)

lemma padded_split:
  "\<exists>pre post w'. padded flags w cs = pre @ cs @ post \<and>
     (if flags AND LEFT = 0 then width_loop e 32 (int (length cs)) w st else (w, st)) = (w', fold (put e) pre st) \<and>
     (\<forall>st. snd (width_loop e 32 (int (length cs)) w' st) = fold (put e) post st)"
proof (cases "flags AND LEFT = 0")
  case True
  then show ?thesis
    by (intro exI [of _ "replicate (nat (w - int (length cs))) 32"] exI [of _ "[]"]) (auto simp: padded_def width_loop_eq)
next
  case False
  then show ?thesis
    by (intro exI [of _ "[]"] exI [of _ "replicate (nat (w - int (length cs))) 32"]) (auto simp: padded_def width_loop_eq)
qed

lemma conv_s_mem:
  assumes "\<not> s < PAGE_SIZE" and "win_ok m buf h st" and "len = strnlen m s (unat (word_of_int p :: u32))"
    and "\<forall>i \<le> len. \<not> (buf \<le> s + of_nat i \<and> s + of_nat i \<le> h)"
    and "cs = map (\<lambda>i. m (s + of_nat i)) [0..<len]"
    and "room e h st (length (padded flags w cs))"
  shows "conv_s e flags w p s st = fold (put e) (padded flags w cs) st"
proof -
  have l: "length cs = len" using assms(5) by simp
  obtain pre post w' where pp: "padded flags w cs = pre @ cs @ post"
     "(if flags AND LEFT = 0 then width_loop e 32 (int len) w st else (w, st)) = (w', fold (put e) pre st)"
     "\<And>st. snd (width_loop e 32 (int len) w' st) = fold (put e) post st"
    using padded_split [of flags w cs e st] unfolding l by blast
  have "strnlen (fst st) s (unat (word_of_int p :: u32)) = len" unfolding assms(3)
    by (rule strnlen_cong) (use assms(2,3,4) in \<open>auto simp: win_ok_def\<close>)
  moreover have "copy_str e len s (fold (put e) pre st) = fold (put e) cs (fold (put e) pre st)"
    unfolding assms(5)
  proof (rule copy_str_eq)
    have sm: "room e h st (length pre + len)" using assms(6) pp(1) l by (auto elim: room_less)
    then show "win_ok m buf h (fold (put e) pre st)"
      using assms(2) by (intro fold_put_ok) (auto elim: room_less)
    show "\<forall>i<len. \<not> (buf \<le> s + of_nat i \<and> s + of_nat i \<le> h)" using assms(4) by simp
    show "room e h (fold (put e) pre st) len" by (rule room_fold [OF sm])
  qed
  ultimately show ?thesis
    unfolding conv_s_def Let_def if_not_P [OF assms(1)] by (simp only: pp(1,2) case_prod_unfold fst_conv snd_conv pp(3) fold_append o_apply)
qed

lemma run_conv_eq:
  assumes "conv_chars (\<lambda>a. buf \<le> a \<and> a \<le> h) m cv = Some cs" and "win_ok m buf h st"
    and "room e h st (length cs)"
  shows "run_conv e buf cv st = Some (fold (put e) cs st)"
proof (cases cv)
  case (Conv_s flags w p s)
  show ?thesis
  proof (cases "s < PAGE_SIZE")
    case True
    with assms(1) Conv_s show ?thesis by (auto simp: conv_chars_def run_conv_def Let_def conv_s_null)
  next
    case False
    let ?len = "strnlen m s (unat (word_of_int p :: u32))"
    have c: "cs = padded flags w (map (\<lambda>i. m (s + of_nat i)) [0..<?len])"
      and n: "\<not> list_ex (\<lambda>i. buf \<le> s + of_nat i \<and> s + of_nat i \<le> h) [0..<Suc ?len]"
      using assms(1) Conv_s False by (auto simp: conv_chars_def Let_def split: if_splits)
    have "\<forall>i \<le> ?len. \<not> (buf \<le> s + of_nat i \<and> s + of_nat i \<le> h)"
      using n by (auto simp: list_ex_iff less_Suc_eq_le simp del: upt_Suc)
    from conv_s_mem [OF False assms(2) refl this refl assms(3) [unfolded c]] show ?thesis
      using Conv_s c by (simp add: run_conv_def)
  qed
qed (use assms(1) in \<open>auto simp: conv_chars_def run_conv_def conv_c_eq conv_p_def number_eq Let_def split: if_splits\<close>)

lemma vsnprintf_loop_eq:
  assumes "format (\<lambda>a. buf \<le> a \<and> a \<le> h) m fmt args = Some out" and "win_ok m buf h st"
    and "room e h st (length out)"
  shows "vsnprintf_loop e buf fmt args st = Some (fold (put e) out st)"
  using assms
proof (induction fmt arbitrary: args st out rule: length_induct)
  case (1 fmt)
  show ?case
  proof (cases fmt)
    case (Cons c fm)
    consider "c = 0" | "c \<noteq> 0" "c \<noteq> 37" | "c = 37" by blast
    then show ?thesis
    proof cases
      case 2
      then obtain out' where o: "out = c # out'" "format (\<lambda>a. buf \<le> a \<and> a \<le> h) m fm args = Some out'"
        using 1(2) Cons by auto
      have "room e h (put e c st) (length out')" using 1(4) o by (simp add: room_put)
      moreover have "win_ok m buf h (put e c st)" using 1(3,4) o by (intro put_ok) (auto elim: room_less)
      ultimately show ?thesis using 1(1) [rule_format, of fm args out' "put e c st"] o 2 Cons by simp
    next
      case 3
      then obtain cv f' a' cs out' where o: "parse_directive fm args = Some (cv, f', a')"
        "conv_chars (\<lambda>a. buf \<le> a \<and> a \<le> h) m cv = Some cs"
        "format (\<lambda>a. buf \<le> a \<and> a \<le> h) m f' a' = Some out'" "out = cs @ out'"
        using 1(2) Cons by (auto split: option.splits)
      have len: "room e h st (length cs)" using 1(4) o(4) by (auto elim: room_less)
      have r: "run_conv e buf cv st = Some (fold (put e) cs st)" by (rule run_conv_eq [OF o(2) 1(3) len])
      have "room e h (fold (put e) cs st) (length out')"
        using 1(4) o(4) by (simp add: room_fold)
      moreover have "length f' < length fmt" using parse_directive_length [OF o(1)] Cons by simp
      ultimately have "vsnprintf_loop e buf f' a' (fold (put e) cs st) = Some (fold (put e) out' (fold (put e) cs st))"
        using 1(1) o(3) fold_put_ok [OF 1(3) len] by blast
      with 3 Cons o(1,4) r show ?thesis by simp
    qed (use 1(2) Cons in simp)
  qed (use 1(2) in simp)
qed

subsection \<open>The buffer\<close>

text \<open>What a call leaves in memory: the output cut to the buffer, a NUL, and nothing else.\<close>

definition buffer_after :: "mem \<Rightarrow> u32 \<Rightarrow> u32 \<Rightarrow> u8 list \<Rightarrow> mem" where
  "buffer_after m buf sz out =
     (\<lambda>a. if unat a < unat buf \<or> unat buf + unat sz \<le> unat a \<or> unat buf + length out < unat a then m a
          else if unat a < unat buf + min (length out) (unat sz - 1) then out ! (unat a - unat buf) else 0)"

lemma end_address:
  assumes "unat buf + unat sz \<le> 2 ^ 32" and "buf \<noteq> 0"
  shows "\<not> buf + sz - 1 < buf - (1::u32)" and "a \<le> buf + sz - 1 \<longleftrightarrow> unat a < unat buf + unat sz"
proof -
  have b: "0 < unat buf" "unat (buf - 1) = unat buf - 1" using assms(2) by (simp_all add: unat_gt_0 unat_minus_one)
  have "unat (buf - 1) + unat sz < 2 ^ LENGTH(32)" using b assms(1) by simp
  then have "unat ((buf - 1) + sz) = unat (buf - 1) + unat sz" using unat_add_lem [of "buf - 1" sz] by blast
  then have u: "unat (buf + sz - 1) = unat buf + unat sz - 1" using b by (simp add: algebra_simps)
  show "\<not> buf + sz - 1 < buf - (1::u32)" using u b by (simp add: word_less_nat_alt)
  show "a \<le> buf + sz - 1 \<longleftrightarrow> unat a < unat buf + unat sz" using u b by (auto simp: word_le_nat_alt)
qed

lemma vsnprintf_eq:
  assumes "format (\<lambda>a. buf \<le> a \<and> a \<le> buf + sz - 1) m fmt args = Some out"
    and "unat sz < 2 ^ 31" and "buf \<noteq> 0" and "unat buf + unat sz \<le> 2 ^ 32" and "unat buf + length out < 2 ^ 32"
  shows "vsnprintf m buf sz fmt args = Some (of_nat (length out), buffer_after m buf sz out)"
proof -
  let ?e = "buf + sz - 1"
  have e: "\<not> ?e < buf - 1" "\<And>a. a \<le> ?e \<longleftrightarrow> unat a < unat buf + unat sz" using end_address [OF assms(4,3)] by auto
  have s: "\<not> sint sz < 0" using assms(2) by (simp add: sint_neg_iff)
  have ok: "win_ok m buf ?e (m, buf)" by (simp add: win_ok_def)
  obtain m' where st: "fold (put ?e) out (m, buf) = (m', buf + of_nat (length out))"
    using snd_fold_put [of ?e out "(m, buf)"] by (metis prod.collapse snd_conv)
  have m': "m' a = (if unat buf \<le> unat a \<and> unat a < unat buf + length out \<and> unat a < unat buf + unat sz
      then out ! (unat a - unat buf) else m a)" for a
    using fold_put_mem [OF assms(5), of ?e m a] st e(2) [of a] by simp
  have str: "unat (buf + of_nat (length out)) = unat buf + length out" by (rule unat_add_small [OF assms(5)])
  have loop: "vsnprintf_loop ?e buf fmt args (m, buf) = Some (m', buf + of_nat (length out))"
    using vsnprintf_loop_eq [OF assms(1) ok, of ?e] assms(5) st by (simp add: room_def)
  have ue: "unat ?e = unat buf + unat sz - 1" if "sz \<noteq> 0"
  proof -
    have "unat ?e < unat buf + unat sz" using e(2) [of ?e] by simp
    moreover have "\<not> unat ?e < unat buf + unat sz - 1"
    proof
      assume h: "unat ?e < unat buf + unat sz - 1"
      have "unat (of_nat (unat buf + unat sz - 1) :: u32) = unat buf + unat sz - 1"
        using assms(4) unat_bound [of buf] by (simp add: unat_of_nat)
      with h e(2) [of "of_nat (unat buf + unat sz - 1)"] show False
        using that by (simp add: word_le_nat_alt unat_gt_0)
    qed
    ultimately show ?thesis by simp
  qed
  have "(if buf + of_nat (length out) \<le> ?e then m'(buf + of_nat (length out) := 0) else if sz > 0 then m'(?e := 0) else m') =
      buffer_after m buf sz out"
  proof (rule ext)
    fix a
    have eqs: "a = buf + of_nat (length out) \<longleftrightarrow> unat a = unat buf + length out" by (simp add: word_unat_eq_iff str)
    have eqe: "sz \<noteq> 0 \<Longrightarrow> a = ?e \<longleftrightarrow> unat a = unat buf + unat sz - 1" using word_unat_eq_iff [of a ?e] ue by simp
    have le: "buf + of_nat (length out) \<le> ?e \<longleftrightarrow> unat buf + length out < unat buf + unat sz" by (simp only: e(2) str)
    have z: "sz > 0 \<longleftrightarrow> sz \<noteq> 0" "sz \<noteq> 0 \<longleftrightarrow> 0 < unat sz" by (simp_all add: word_neq_0_conv unat_gt_0)
    show "(if buf + of_nat (length out) \<le> ?e then m'(buf + of_nat (length out) := 0) else if sz > 0 then m'(?e := 0) else m') a =
      buffer_after m buf sz out a"
    proof (cases "sz = 0")
      case True
      then show ?thesis using le m' by (auto simp: buffer_after_def)
    next
      case False
      then show ?thesis unfolding le if_distribR fun_upd_apply eqs eqe [OF False] m' buffer_after_def using z by auto
    qed
  qed
  then show ?thesis using s e(1) loop by (simp add: vsnprintf_def Let_def)
qed

section \<open>Digits\<close>

lemma digit_tables:
  "small_digits = [48, 49, 50, 51, 52, 53, 54, 55, 56, 57, 97, 98, 99, 100, 101, 102, 103, 104, 105, 106, 107, 108,
     109, 110, 111, 112, 113, 114, 115, 116, 117, 118, 119, 120, 121, 122]"
  "large_digits = [48, 49, 50, 51, 52, 53, 54, 55, 56, 57, 65, 66, 67, 68, 69, 70, 71, 72, 73, 74, 75, 76,
     77, 78, 79, 80, 81, 82, 83, 84, 85, 86, 87, 88, 89, 90]"
  by (simp_all add: small_digits_def large_digits_def bytes_def)

lemma digit_loop_length: "n < base ^ k \<Longrightarrow> 2 \<le> base \<Longrightarrow> length (digit_loop ds base n) \<le> k"
proof (induction k arbitrary: n)
  case (Suc k)
  have "n div base < base ^ k" using Suc.prems by (simp add: less_mult_imp_div_less mult.commute)
  from Suc.IH [OF this Suc.prems(2)] show ?case by (subst digit_loop.simps) simp
qed (simp add: digit_loop.simps)

lemma below_16: "d < 16 \<Longrightarrow> d \<in> {0, 1, 2, 3, 4, 5, 6, 7, 8, 9, 10, 11, 12, 13, 14, 15 :: nat}"
  by simp arith

lemma small_digit:
  assumes "d < 16"
  shows "isxdigit (small_digits ! d)" "isdigit (small_digits ! d) \<longleftrightarrow> d < 10"
    "uu_toupper (small_digits ! d) = (if d < 10 then 48 + of_nat d else 55 + of_nat d)"
    "unat (small_digits ! d) = (if d < 10 then 48 + d else 87 + d)"
  using below_16 [OF assms]
  by (elim insertE emptyE; simp add: digit_tables isxdigit_range isdigit_range uu_toupper_def islower_range)+

lemma ucast_of_nat_unat: "(ucast (x :: 'b::len word) :: 'a::len word) = of_nat (unat x)"
  by simp

lemma digit_val_digit:
  assumes "d < 16"
  shows "(digit_val (small_digits ! d) :: 'a::len word) = of_nat d"
proof (cases "d < 10")
  case True
  then have "(ucast (small_digits ! d) :: 'a word) = of_nat (48 + d)"
    by (simp only: ucast_of_nat_unat small_digit(4) [OF assms] if_True)
  then show ?thesis using True small_digit(2) [OF assms] by (simp add: digit_val_def)
next
  case False
  have "unat (uu_toupper (small_digits ! d)) = 55 + d"
    using False assms small_digit(3) [OF assms] by (simp add: unat_word_ariths(1) unat_of_nat)
  then have "(ucast (uu_toupper (small_digits ! d)) :: 'a word) = of_nat (55 + d)" by (simp only: ucast_of_nat_unat)
  then show ?thesis using False small_digit(2) [OF assms] by (simp add: digit_val_def)
qed

lemma ucast_base: "base \<le> 16 \<Longrightarrow> (ucast (of_nat base :: u32) :: 'a::len word) = of_nat base"
proof -
  assume "base \<le> 16"
  then have "unat (of_nat base :: u32) = base" by (simp add: unat_of_nat)
  then show ?thesis by (simp only: ucast_of_nat_unat)
qed

lemma less_base:
  assumes "d < base" and "base \<le> 16" and "5 \<le> LENGTH('a::len)"
  shows "(of_nat d :: 'a word) < of_nat base"
proof -
  have "(2::nat) ^ 5 \<le> 2 ^ LENGTH('a)" by (rule power_increasing [OF assms(3)]) simp
  with assms(1,2) show ?thesis by (simp add: word_less_nat_alt unat_of_nat)
qed

lemma strto_loop_digits:
  assumes "2 \<le> base" and "base \<le> 16" and "5 \<le> LENGTH('a::len)"
  shows "strto_loop (of_nat base) (0 :: 'a word) (rev (digit_loop small_digits base n) @ rest) =
    strto_loop (of_nat base) (of_nat n) rest"
proof (induction n arbitrary: rest rule: less_induct)
  case (less n)
  show ?case
  proof (cases "n = 0")
    case False
    let ?d = "n mod base"
    have d: "?d < base" using assms(1) by simp
    with assms(2) have d16: "?d < 16" by simp
    have lt: "n div base < n" using False assms(1) by simp
    have u: "(ucast (of_nat base :: u32) :: 'a word) = of_nat base" by (rule ucast_base [OF assms(2)])
    have "(of_nat ?d :: 'a word) < of_nat base" by (rule less_base [OF d assms(2,3)])
    moreover have "of_nat (n div base) * of_nat base + of_nat ?d = (of_nat n :: 'a word)"
      by (metis div_mult_mod_eq of_nat_add of_nat_mult)
    moreover have "digit_loop small_digits base n = small_digits ! ?d # digit_loop small_digits base (n div base)"
      using False assms(1) by (subst digit_loop.simps) simp
    ultimately show ?thesis
      using less.IH [OF lt, of "small_digits ! ?d # rest"] small_digit(1) [OF d16] digit_val_digit [where 'a = 'a, OF d16] u by simp
  qed (simp add: digit_loop.simps)
qed

lemma strto_loop_stop: "\<not> isxdigit (cur rest) \<Longrightarrow> strto_loop base r rest = (r, rest)"
  by (cases rest) (simp_all add: cur_def)

text \<open>The digits of a number, most significant first, and where they can be told from a prefix.\<close>

definition num_chars :: "nat \<Rightarrow> nat \<Rightarrow> u8 list" where
  "num_chars base n = (if n = 0 then [48] else rev (digit_loop small_digits base n))"

lemma num_chars_strto:
  assumes "2 \<le> base" and "base \<le> 16" and "5 \<le> LENGTH('a::len)" and "\<not> isxdigit (cur rest)"
  shows "strto_loop (of_nat base) (0 :: 'a word) (num_chars base n @ rest) = (of_nat n, rest)"
proof (cases "n = 0")
  case True
  have "digit_val (48 :: u8) = (0 :: 'a word)" "isxdigit 48"
    using digit_val_digit [where 'a = 'a, of 0] small_digit(1) [of 0] by (simp_all add: digit_tables)
  moreover have "0 < (of_nat base :: 'a word)" using less_base [where 'a = 'a, of 0 base] assms by simp
  ultimately show ?thesis using True assms by (simp add: num_chars_def strto_loop_stop ucast_base)
next
  case False
  then show ?thesis using strto_loop_digits [OF assms(1-3), of n rest] strto_loop_stop [OF assms(4)]
    by (simp add: num_chars_def)
qed

lemma leading_digit:
  assumes "2 \<le> base" and "base \<le> 16" and "n \<noteq> 0"
  shows "\<exists>c cs. num_chars base n = c # cs \<and> c \<noteq> 48 \<and> isxdigit c"
  using assms(3)
proof (induction n rule: less_induct)
  case (less n)
  let ?d = "n mod base"
  have "?d < base" using assms(1) by simp
  with assms(2) have d: "?d < 16" by simp
  have dl: "digit_loop small_digits base n = small_digits ! ?d # digit_loop small_digits base (n div base)"
    using less.prems assms(1) by (subst digit_loop.simps) simp
  show ?case
  proof (cases "n div base = 0")
    case True
    then have "?d = n" using assms(1) by (metis div_mult_mod_eq mult_0 add_0)
    moreover have "unat (small_digits ! ?d) \<noteq> 48" using small_digit(4) [OF d] less.prems calculation by auto
    ultimately show ?thesis using dl True small_digit(1) [OF d] less.prems
      by (auto simp: num_chars_def digit_loop.simps [of _ _ 0])
  next
    case False
    moreover have "n div base < n" using less.prems assms(1) by simp
    ultimately show ?thesis using less.IH [of "n div base"] dl less.prems by (auto simp: num_chars_def)
  qed
qed

lemma num_chars_cur:
  assumes "2 \<le> base" and "base \<le> 16"
  shows "cur (num_chars base n @ rest) = 48 \<longleftrightarrow> n = 0" "isxdigit (cur (num_chars base n @ rest))"
    "n = 0 \<Longrightarrow> tl (num_chars base n @ rest) = rest"
proof -
  have x: "isxdigit 48" by (simp add: isxdigit_range)
  show "cur (num_chars base n @ rest) = 48 \<longleftrightarrow> n = 0" "isxdigit (cur (num_chars base n @ rest))"
    "n = 0 \<Longrightarrow> tl (num_chars base n @ rest) = rest"
    using leading_digit [OF assms, of n] x by (cases "n = 0"; auto simp: cur_def num_chars_def [of base 0])+
qed

text \<open>The number formats without width and precision.\<close>

lemma number_chars_plain:
  assumes "base \<in> {8, 10, 16}"
  shows "number_chars n base (- 1) (- 1) 0 = num_chars (nat base) (unat n)"
    "number_chars n base (- 1) (- 1) SPECIAL =
       (if base = 8 then [48] else if base = 16 then [48, 120] else []) @ num_chars (nat base) (unat n)"
  using assms
  by (auto simp: number_chars_def number_sign_def num_chars_def Let_def digit_tables unat_eq_0)

text \<open>A text that ends the digits and does not read as a hexadecimal prefix.\<close>

definition ends_number :: "cstr \<Rightarrow> bool" where
  "ends_number rest \<longleftrightarrow> \<not> isxdigit (cur rest) \<and> uu_toupper (cur rest) \<noteq> 88"

lemma xdigit_not_X: "isxdigit c \<Longrightarrow> uu_toupper c \<noteq> 88"
  by (auto simp: uu_toupper_def isxdigit_range diff_eq_eq split: if_splits)

lemma strto_base_plain:
  assumes "base \<in> {8, 10, 16 :: nat}" and "ends_number rest"
  shows "strto_base (num_chars base n @ rest) (of_nat base) = (of_nat base, num_chars base n @ rest)"
  using assms num_chars_cur [of base n rest]
  by (auto simp: strto_base_def ends_number_def)

lemma strto_base_special:
  assumes "base \<in> {8, 10, 16 :: nat}" and "ends_number rest"
  shows "strto_base ((if base = 8 then [48] else if base = 16 then [48, 120] else []) @ num_chars base n @ rest) 0 =
    (if base = 10 \<and> n = 0 then (8, rest) else (of_nat base, num_chars base n @ rest))"
proof -
  have "uu_toupper (cur (num_chars 8 n @ rest)) \<noteq> 88"
    using num_chars_cur(2) [of 8 n rest] by (intro xdigit_not_X) simp
  moreover have "uu_toupper 120 = 88" by (simp add: uu_toupper_def islower_range)
  ultimately show ?thesis
    using assms num_chars_cur [of base n rest] by (auto simp: strto_base_def ends_number_def Let_def cur_def)
qed

lemma unat_ucast_eq: "unat (ucast (n :: u32) :: u64) = unat n"
proof -
  have "unat n < 2 ^ 32" using unat_bound [of n] by simp
  then show ?thesis by (simp add: unsigned_ucast_eq take_bit_nat_eq_self_iff)
qed

lemma ucast_scast_eq: "(ucast (scast (n :: u32) :: u64) :: u32) = n"
  by (simp add: bit_eq_iff bit_simps)

lemma sint_scast_eq: "sint (scast (n :: u32) :: u64) = sint n"
  by (rule sint_up_scast) (simp add: is_up)

lemma ucast_minus: "(ucast (- x :: u64) :: u32) = - ucast x"
proof -
  have d: "is_down (ucast :: u64 \<Rightarrow> u32)" by (simp add: is_down)
  have m: "- x = word_of_int (- uint x)" by simp
  have "(ucast (- x) :: u32) = - word_of_int (uint x)" unfolding m ucast_down_wi [OF d] by (simp only: wi_hom_neg)
  also have "word_of_int (uint x) = (ucast x :: u32)" using ucast_down_wi [OF d, of "uint x"] by simp
  finally show ?thesis .
qed

lemma strtoul_num_chars:
  assumes "base \<in> {8, 10, 16 :: nat}" and "ends_number rest"
  shows "simple_strtoul (num_chars base n @ rest) (of_nat base) = (of_nat n, rest)"
  using assms strto_base_plain [OF assms, of n] num_chars_strto [where 'a = 32, of base rest n]
  by (auto simp: simple_strtoul_def ends_number_def)

lemma strtoul_special:
  assumes "base \<in> {8, 10, 16 :: nat}" and "ends_number rest"
  shows "simple_strtoul (((if base = 8 then [48] else if base = 16 then [48, 120] else []) @ num_chars base n) @ rest) 0 =
    (of_nat n, rest)"
  using assms strto_base_special [OF assms, of n] num_chars_strto [where 'a = 32, of base rest n]
  by (auto simp: simple_strtoul_def ends_number_def strto_loop_stop split: if_splits)

text \<open>The decimal text of a signed number.\<close>

lemma number_chars_signed:
  "number_chars (scast (n :: u32)) 10 (- 1) (- 1) SIGN =
     (if sint n < 0 then 45 # num_chars 10 (unat (- scast n :: u64)) else num_chars 10 (unat (scast n :: u64)))"
proof -
  have "sint n < 0 \<Longrightarrow> (scast n :: u64) \<noteq> 0" using sint_scast_eq [of n] by auto
  then show ?thesis by (auto simp: number_chars_def number_sign_def num_chars_def Let_def unat_eq_0 sint_scast_eq)
qed

lemma strtol_signed:
  assumes "ends_number rest"
  shows "simple_strtol (number_chars (scast (n :: u32)) 10 (- 1) (- 1) SIGN @ rest) 10 = (n, rest)"
proof (cases "sint n < 0")
  case True
  then show ?thesis using strtoul_num_chars [of 10 rest "unat (- scast n :: u64)"] assms
    by (simp add: number_chars_signed simple_strtol_def cur_def ucast_minus ucast_scast_eq)
next
  case False
  have "isxdigit (cur (num_chars 10 (unat (scast n :: u64)) @ rest))" by (rule num_chars_cur) simp_all
  then have "cur (num_chars 10 (unat (scast n :: u64)) @ rest) \<noteq> 45" by (auto simp: isxdigit_range)
  with False show ?thesis using strtoul_num_chars [of 10 rest "unat (scast n :: u64)"] assms
    by (simp add: number_chars_signed simple_strtol_def ucast_scast_eq)
qed

text \<open>The text of \<open>n\<close> bytes at an address, and the text that a call of \<open>number\<close> leaves in memory.\<close>

definition text_at :: "mem \<Rightarrow> u32 \<Rightarrow> nat \<Rightarrow> cstr" where
  "text_at m p n = map (\<lambda>i. m (p + of_nat i)) [0..<n]"

definition printed :: "u32 \<Rightarrow> mem \<Rightarrow> u32 \<Rightarrow> u64 \<Rightarrow> int \<Rightarrow> u32 \<Rightarrow> cstr option" where
  "printed e m str num base type =
     map_option (\<lambda>(m', str'). text_at m' str (unat (str' - str))) (number e (m, str) num base (- 1) (- 1) type)"

lemma text_at_fold_put:
  assumes "unat str + length cs \<le> unat e"
  shows "text_at (fst (fold (put e) cs (m, str))) str (length cs) = cs"
proof -
  have l: "unat str + length cs < 2 ^ 32" using assms unat_bound [of e] by simp
  have u: "unat (str + of_nat i) = unat str + i" if "i < length cs" for i
    using that l by (intro unat_add_small) simp
  show ?thesis
    by (rule nth_equalityI) (use assms in \<open>auto simp: text_at_def fold_put_mem [OF l] u word_le_nat_alt\<close>)
qed

lemma num_chars_length: "8 \<le> base \<Longrightarrow> length (num_chars base (unat (n :: u64))) \<le> 22"
proof -
  assume "8 \<le> base"
  then have "(8::nat) ^ 22 \<le> base ^ 22" by (rule power_mono) simp
  then have "unat n < base ^ 22" using unat_bound [of n] by simp
  from digit_loop_length [OF this, of small_digits] show ?thesis using \<open>8 \<le> base\<close> by (simp add: num_chars_def)
qed

lemma number_chars_length:
  assumes "base \<in> {8, 10, 16}" "type \<in> {0, SPECIAL} \<or> base = 10 \<and> type = SIGN"
  shows "length (number_chars n base (- 1) (- 1) type) \<le> 24"
proof -
  have l: "8 \<le> b \<Longrightarrow> 22 \<le> k \<Longrightarrow> length (num_chars b (unat x)) \<le> k" for b k and x :: u64
    using num_chars_length order_trans by blast
  moreover have "number_chars n 10 (- 1) (- 1) SIGN =
      (if sint n < 0 then 45 # num_chars 10 (unat (- n)) else num_chars 10 (unat n))"
    by (auto simp: number_chars_def number_sign_def num_chars_def Let_def unat_eq_0)
  ultimately show ?thesis
    using assms by (auto simp: number_chars_plain intro!: l)
qed

lemma printed_eq:
  assumes "unat str + 24 \<le> unat e" "base \<in> {8, 10, 16}" "type \<in> {0, SPECIAL} \<or> base = 10 \<and> type = SIGN"
  shows "printed e m str num base type = Some (number_chars num base (- 1) (- 1) type)"
proof -
  let ?cs = "number_chars num base (- 1) (- 1) type"
  have l: "length ?cs \<le> 24" by (rule number_chars_length [OF assms(2,3)])
  then have u: "unat (of_nat (length ?cs) :: u32) = length ?cs" by (simp add: unat_of_nat)
  have "number e (m, str) num base (- 1) (- 1) type = Some (fold (put e) ?cs (m, str))"
    using assms(2) by (intro number_eq) auto
  then show ?thesis
    using text_at_fold_put [of str ?cs e m] l assms(1) u
    by (simp add: printed_def split_beta snd_fold_put)
qed

section \<open>Bounded printing as an interface\<close>

text \<open>What callers rely on: for a well-formed call the buffer holds the output cut to its size and
  a NUL, and the return value is a function of the length of the output and the size.\<close>

definition printable :: "mem \<Rightarrow> u32 \<Rightarrow> u32 \<Rightarrow> cstr \<Rightarrow> varg list \<Rightarrow> u8 list \<Rightarrow> bool" where
  "printable m buf sz fmt args out \<longleftrightarrow>
     format (\<lambda>a. buf \<le> a \<and> a \<le> buf + sz - 1) m fmt args = Some out \<and> unat sz < 2 ^ 31 \<and> buf \<noteq> 0 \<and>
     unat buf + unat sz \<le> 2 ^ 32 \<and> unat buf + length out < 2 ^ 32"

locale bounded_printer =
  fixes printer :: "mem \<Rightarrow> u32 \<Rightarrow> u32 \<Rightarrow> cstr \<Rightarrow> varg list \<Rightarrow> (u32 \<times> mem) option"
    and ret :: "nat \<Rightarrow> u32 \<Rightarrow> u32"
  assumes prints: "printable m buf sz fmt args out \<Longrightarrow>
    printer m buf sz fmt args = Some (ret (length out) sz, buffer_after m buf sz out)"
begin

lemma outside_unchanged:
  assumes "printable m buf sz fmt args out" and "unat a < unat buf \<or> unat buf + unat sz \<le> unat a"
  shows "\<exists>r m'. printer m buf sz fmt args = Some (r, m') \<and> m' a = m a"
  using prints [OF assms(1)] assms(2) by (auto simp: buffer_after_def)

lemma buffer_string:
  assumes "printable m buf sz fmt args out" and "sz \<noteq> 0" and "k = min (length out) (unat sz - 1)"
  shows "\<exists>r m'. printer m buf sz fmt args = Some (r, m') \<and> (\<forall>i<k. m' (buf + of_nat i) = out ! i) \<and> m' (buf + of_nat k) = 0"
proof -
  have p: "unat buf + unat sz \<le> 2 ^ 32" "unat buf + length out < 2 ^ 32" using assms(1) by (auto simp: printable_def)
  have z: "0 < unat sz" using assms(2) by (simp add: unat_gt_0)
  have u: "unat (buf + of_nat i) = unat buf + i" if "i \<le> k" for i
    using that assms(3) p by (intro unat_add_small) auto
  have "buffer_after m buf sz out (buf + of_nat i) = out ! i" if "i < k" for i
    using u [of i] that assms(3) z by (auto simp: buffer_after_def)
  moreover have "buffer_after m buf sz out (buf + of_nat k) = 0"
    using u [of k] assms(3) z by (auto simp: buffer_after_def)
  ultimately show ?thesis using prints [OF assms(1)] by blast
qed

end

interpretation snp: bounded_printer snprintf "\<lambda>n sz. of_nat n"
  by unfold_locales (simp add: snprintf_def printable_def vsnprintf_eq)

lemma scn_return:
  assumes "n < 2 ^ 32"
  shows "(if of_nat n \<ge> (sz::u32) then sz - 1 else of_nat n) = (if sz = 0 then - 1 else of_nat (min n (unat sz - 1)))"
proof -
  have "of_nat n \<ge> sz \<longleftrightarrow> unat sz \<le> n" using assms by (simp add: word_le_nat_alt unat_of_nat)
  moreover have "sz - 1 = of_nat (unat sz - 1)" if "sz \<noteq> 0"
    unfolding unat_minus_one [OF that, symmetric] by simp
  ultimately show ?thesis by (auto simp: min_def)
qed

interpretation scn: bounded_printer scnprintf "\<lambda>n sz. if sz = 0 then - 1 else of_nat (min n (unat sz - 1))"
proof
  fix m buf sz fmt args out assume p: "printable m buf sz fmt args out"
  then have l: "length out < 2 ^ 32" and
    v: "vsnprintf m buf sz fmt args = Some (of_nat (length out), buffer_after m buf sz out)"
    by (auto simp: printable_def intro: vsnprintf_eq)
  show "scnprintf m buf sz fmt args =
      Some (if sz = 0 then - 1 else of_nat (min (length out) (unat sz - 1)), buffer_after m buf sz out)"
    by (simp only: scnprintf_def v option.case prod.case scn_return [OF l])
qed

section \<open>Properties\<close>

text \<open>
  C17. Formatted printing is bounded and exact. For a well-formed call (arguments present and of
  the right width, no \<open>%n\<close>, string arguments outside the buffer, a buffer that is not NULL and
  does not wrap around the address space) \<open>snprintf\<close> returns the length of the whole output,
  stores its first bytes and a NUL into the buffer, changes no byte outside \<open>size\<close> bytes of it,
  and for size zero stores nothing.
\<close>

theorem snprintf_bounded:
  assumes "printable m buf sz fmt args out"
  shows "\<exists>m'. snprintf m buf sz fmt args = Some (of_nat (length out), m') \<and>
    (\<forall>a. unat a < unat buf \<or> unat buf + unat sz \<le> unat a \<longrightarrow> m' a = m a) \<and>
    (sz \<noteq> 0 \<longrightarrow> (\<forall>i < min (length out) (unat sz - 1). m' (buf + of_nat i) = out ! i) \<and>
                m' (buf + of_nat (min (length out) (unat sz - 1))) = 0)"
proof -
  have "snprintf m buf sz fmt args = Some (of_nat (length out), buffer_after m buf sz out)" by (rule snp.prints [OF assms])
  then show ?thesis using snp.buffer_string [OF assms _ refl] by (auto simp: buffer_after_def)
qed

text \<open>
  C18. \<open>scnprintf\<close> returns the number of characters in the buffer, except that for size zero it
  returns -1 although its comment promises 0.
\<close>

theorem scnprintf_return:
  assumes "printable m buf sz fmt args out"
  shows "scnprintf m buf sz fmt args =
    Some (if sz = 0 then - 1 else of_nat (min (length out) (unat sz - 1)), buffer_after m buf sz out)"
  by (rule scn.prints [OF assms])

text \<open>
  C19. A NULL buffer is not a bounded buffer: the test for wrap-around takes it for one that runs
  to the end of the address space. For every size that is not negative as an \<open>int\<close>, 0 included,
  a well-formed call (arguments present and of the right width, no \<open>%n\<close>, string arguments away
  from the bytes written) stores its whole output and the NUL from address 0 on: even the C99
  idiom \<open>snprintf(NULL, 0, ...)\<close> for the length of the output.
\<close>

theorem snprintf_null_writes:
  assumes "format (\<lambda>a. a \<le> of_nat (length out)) m fmt args = Some out" "length out < 2 ^ 32" "unat sz < 2 ^ 31"
  shows "snprintf m 0 sz fmt args = Some (of_nat (length out),
    \<lambda>a. if unat a < length out then out ! unat a else if unat a = length out then 0 else m a)"
proof -
  let ?h = "of_nat (length out) :: u32"
  have h: "unat ?h = length out" using assms(2) by (simp add: unat_of_nat)
  have s: "\<not> sint sz < 0" using assms(3) by (simp add: sint_neg_iff)
  have e: "fst (if sz - 1 < - 1 then (- 1 :: u32, 0 :: u32) else (sz - 1, sz)) = - 1"
    by (simp add: order.strict_iff_order)
  obtain M where M: "fold (put (- 1)) out (m, 0) = (M, ?h)"
    using snd_fold_put [of "- 1" out "(m, 0)"] by (cases "fold (put (- 1)) out (m, 0)") simp
  have loop: "vsnprintf_loop (- 1) 0 fmt args (m, 0) = Some (M, ?h)"
    unfolding M [symmetric] by (rule vsnprintf_loop_eq [of 0 ?h m]) (use assms h in \<open>simp_all add: win_ok_def room_def\<close>)
  have Ma: "M a = (if unat a < length out then out ! unat a else m a)" "unat a = length out \<longleftrightarrow> a = ?h" for a
    using fold_put_mem [of 0 out "- 1" m a] assms(2) M h word_unat_eq_iff [of a ?h] by simp_all
  have "M(?h := 0) = (\<lambda>a. if unat a < length out then out ! unat a else if unat a = length out then 0 else m a)"
  proof
    fix a show "(M(?h := 0)) a = (if unat a < length out then out ! unat a else if unat a = length out then 0 else m a)"
      using Ma [of a] h by (cases "a = ?h") auto
  qed
  then show ?thesis
    using s e loop by (auto simp: snprintf_def vsnprintf_def Let_def split: if_splits)
qed

text \<open>
  C20. Printing and parsing numbers are inverse: the text that \<open>number\<close> leaves in memory for an
  unsigned number in base 8, 10 or 16 reads back in that base, with its prefix (\<open>#\<close>) it reads
  back with base 0, a signed one through \<open>simple_strtol\<close>, for 32 and 64 bits, up to the text
  that follows it. The buffer has room for 24 characters.
\<close>

theorem number_roundtrip:
  assumes "base \<in> {8, 10, 16 :: nat}" and "ends_number rest" and "unat str + 24 \<le> unat e"
  shows "map_option (\<lambda>cs. simple_strtoul (cs @ rest) (of_nat base)) (printed e m str (ucast (n :: u32)) (int base) 0) =
      Some (n, rest) \<and>
    map_option (\<lambda>cs. simple_strtoul (cs @ rest) 0) (printed e m str (ucast n) (int base) SPECIAL) = Some (n, rest) \<and>
    map_option (\<lambda>cs. simple_strtoull (cs @ rest) (of_nat base)) (printed e m str N (int base) 0) = Some (N, rest) \<and>
    map_option (\<lambda>cs. simple_strtol (cs @ rest) 10) (printed e m str (scast n) 10 SIGN) = Some (n, rest)"
proof -
  have b: "2 \<le> base" "base \<le> 16" "int base \<in> {8, 10, 16}" using assms(1) by auto
  have stop: "\<not> isxdigit (cur rest)" using assms(2) by (simp add: ends_number_def)
  note p = printed_eq [OF assms(3)]
  have "simple_strtoul (number_chars (ucast n) (int base) (- 1) (- 1) 0 @ rest) (of_nat base) = (n, rest)"
    using strtoul_num_chars [OF assms(1,2), of "unat n"] by (simp add: number_chars_plain [OF b(3)] unat_ucast_eq)
  moreover have "simple_strtoul (number_chars (ucast n) (int base) (- 1) (- 1) SPECIAL @ rest) 0 = (n, rest)"
    using strtoul_special [OF assms(1,2), of "unat n"]
    by (auto simp: number_chars_plain [OF b(3)] unat_ucast_eq split: if_splits)
  moreover have "simple_strtoull (number_chars N (int base) (- 1) (- 1) 0 @ rest) (of_nat base) = (N, rest)"
    using strto_base_plain [OF assms(1,2), of "unat N"] num_chars_strto [where 'a = 64, OF b(1,2) _ stop]
    by (simp add: simple_strtoull_def number_chars_plain [OF b(3)])
  moreover have "simple_strtol (number_chars (scast n) 10 (- 1) (- 1) SIGN @ rest) 10 = (n, rest)"
    by (rule strtol_signed [OF assms(2)])
  ultimately show ?thesis
    using p [OF b(3), of 0] p [OF b(3), of SPECIAL] p [of 10 SIGN] by simp
qed

text \<open>
  C21. The digits of a 64-bit number in a base of at least 2 fit the 66 bytes of \<open>tmp\<close>, and one
  digit is stored for zero.
\<close>

theorem number_tmp_bound:
  assumes "2 \<le> base"
  shows "length (if n = 0 then [48] else digit_loop digits base (unat (n :: u64))) \<le> 64 \<and>
    0 < length (if n = 0 then [48] else digit_loop digits base (unat n))"
proof -
  have "(2::nat) ^ 64 \<le> base ^ 64" using assms by (rule power_mono) simp
  with unat_bound [of n] have "unat n < base ^ 64" by simp
  from digit_loop_length [OF this assms] have "length (digit_loop digits base (unat n)) \<le> 64" .
  moreover have "n \<noteq> 0 \<Longrightarrow> digit_loop digits base (unat n) \<noteq> []"
    using assms by (subst digit_loop.simps) (simp add: unat_eq_0)
  ultimately show ?thesis by simp
qed

section \<open>Witnesses\<close>

text \<open>A call with a string argument at address \<open>0x2000\<close> and a number.\<close>

definition sample_mem :: mem where
  "sample_mem = (\<lambda>a. if a = 0x2000 then 107 else 0)"

lemma sample_strnlen: "strnlen sample_mem 0x2000 4294967295 = 1"
  by (simp add: sample_mem_def strnlen_numeral)

lemma sample_digits: "digit_loop small_digits 10 7 = [55]"
  by (simp add: digit_loop.simps digit_tables)

lemma sample_parse:
  "parse_directive (bytes ''s=%d'') [Arg32 0x2000, Arg32 (- 7)] = Some (Conv_s 0 (- 1) (- 1) 0x2000, bytes ''=%d'', [Arg32 (- 7)])"
  "parse_directive (bytes ''d'') [Arg32 (- 7)] = Some (Conv_int (- 7) 10 (- 1) (- 1) SIGN, [], [])"
  by (simp_all add: bytes_def parse_directive_def get_width_def get_precision_def get_qualifier_def
      cur_def isdigit_range int_format_def fetch_num_def)

lemma sample_number: "number_chars (- 7) 10 (- 1) (- 1) SIGN = [45, 55]"
  by (simp add: number_chars_def number_sign_def Let_def sample_digits)

lemma sample_string:
  "conv_chars W sample_mem (Conv_s 0 (- 1) (- 1) 0x2000) = (if W 0x2000 \<or> W 0x2001 then None else Some [107])"
proof -
  have u: "unat (- 1 :: u32) = 4294967295" by (simp add: unsigned_minus_1_eq_mask mask_numeral)
  show ?thesis by (simp add: conv_chars_def Let_def u sample_strnlen padded_def) (simp add: sample_mem_def)
qed

lemma sample_int: "conv_chars W m (Conv_int (- 7) 10 (- 1) (- 1) SIGN) = Some [45, 55]"
  by (simp add: conv_chars_def sample_number)

lemma sample_printable:
  "printable sample_mem 0x1000 4 (bytes ''%s=%d'') [Arg32 0x2000, Arg32 (- 7)] [107, 61, 45, 55]"
proof -
  have "bytes ''%s=%d'' = 37 # bytes ''s=%d''" "bytes ''=%d'' = [61, 37] @ bytes ''d''" by (simp_all add: bytes_def)
  then show ?thesis by (simp add: printable_def sample_parse sample_string sample_int)
qed

theorem snprintf_bounded_witness:
  "\<exists>m'. snprintf sample_mem 0x1000 4 (bytes ''%s=%d'') [Arg32 0x2000, Arg32 (- 7)] = Some (4, m') \<and>
     m' 0x1000 = 107 \<and> m' 0x1002 = 45 \<and> m' 0x1003 = 0 \<and> m' 0x1004 = sample_mem 0x1004"
proof -
  obtain m' where m': "snprintf sample_mem 0x1000 4 (bytes ''%s=%d'') [Arg32 0x2000, Arg32 (- 7)] = Some (of_nat 4, m')"
    "\<forall>a. unat a < unat (0x1000 :: u32) \<or> unat (0x1000 :: u32) + unat (4 :: u32) \<le> unat a \<longrightarrow> m' a = sample_mem a"
    "\<forall>i<3. m' (0x1000 + of_nat i) = [107, 61, 45, 55] ! i" "m' (0x1000 + of_nat 3) = 0"
    using snprintf_bounded [OF sample_printable] by auto
  from m'(2) [rule_format, of "0x1004"] m'(3) [rule_format, of 0] m'(3) [rule_format, of 2] m' show ?thesis by simp
qed

theorem scnprintf_return_witness:
  "\<exists>m'. scnprintf sample_mem 0x1000 4 (bytes ''%s=%d'') [Arg32 0x2000, Arg32 (- 7)] = Some (3, m')"
  using scnprintf_return [OF sample_printable] by simp

theorem snprintf_null_writes_witness:
  "snprintf sample_mem 0 0 (bytes ''%s=%d'') [Arg32 0x2000, Arg32 (- 7)] = Some (4,
     \<lambda>a. if unat a < 4 then [107, 61, 45, 55] ! unat a else if unat a = 4 then 0 else sample_mem a)"
proof -
  have "bytes ''%s=%d'' = 37 # bytes ''s=%d''" "bytes ''=%d'' = [61, 37] @ bytes ''d''" by (simp_all add: bytes_def)
  then have "format (\<lambda>a. a \<le> 4) sample_mem (bytes ''%s=%d'') [Arg32 0x2000, Arg32 (- 7)] = Some [107, 61, 45, 55]"
    by (simp add: sample_parse sample_string sample_int)
  moreover have l: "length [107, 61, 45, 55 :: u8] = 4" by simp
  ultimately show ?thesis
    using snprintf_null_writes [of "[107, 61, 45, 55]" sample_mem "bytes ''%s=%d''" "[Arg32 0x2000, Arg32 (- 7)]" 0]
    unfolding l by simp
qed

theorem number_roundtrip_witness:
  "map_option (\<lambda>cs. simple_strtoul (cs @ bytes '' kB'') 0) (printed 0x2000 sample_mem 0x1000 (ucast (255 :: u32)) 16 SPECIAL) =
     Some (255, bytes '' kB'') \<and>
   map_option (\<lambda>cs. simple_strtol (cs @ bytes '' kB'') 10) (printed 0x2000 sample_mem 0x1000 (scast (- 5 :: u32)) 10 SIGN) =
     Some (- 5, bytes '' kB'')"
proof -
  have e: "ends_number (bytes '' kB'')" by (simp add: ends_number_def bytes_def cur_def isxdigit_range uu_toupper_def islower_range)
  show ?thesis
    using number_roundtrip [of 16 "bytes '' kB''" "0x1000" "0x2000" sample_mem 255 0]
      number_roundtrip [of 16 "bytes '' kB''" "0x1000" "0x2000" sample_mem "- 5" 0] e by simp
qed

theorem number_tmp_bound_witness:
  "length (digit_loop small_digits 2 (unat (- 1 :: u64))) \<le> 64"
  using number_tmp_bound [of 2 "- 1" small_digits] by simp

end
