(* ===== verification/Vsscanf.thy ===== *)
theory Vsscanf
  imports Vsprintf
begin

text \<open>
  Formatted input: \<open>vsscanf\<close> and \<open>sscanf\<close> of \<open>lib/vsprintf.c\<close>. The input and the format
  are read-only strings, the arguments are pointers into memory, and a result is stored there
  with the width its qualifier selects. A missing argument is \<open>None\<close>.
\<close>

section \<open>Definitions\<close>

definition store8 :: "mem \<Rightarrow> u32 \<Rightarrow> u32 \<Rightarrow> mem" where
  "store8 m p v = m(p := ucast v)"

definition store16 :: "mem \<Rightarrow> u32 \<Rightarrow> u32 \<Rightarrow> mem" where
  "store16 m p v = m(p := ucast v, p + 1 := ucast (drop_bit 8 v))"

definition store64 :: "mem \<Rightarrow> u32 \<Rightarrow> u64 \<Rightarrow> mem" where
  "store64 m p v = store32 (store32 m p (ucast v)) (p + 4) (ucast (drop_bit 32 v))"

text \<open>The conversion qualifier, 0 for none; a doubled \<open>h\<close> is \<open>H\<close> and a doubled \<open>l\<close> is
  \<open>L\<close>.\<close>

definition scan_qualifier :: "cstr \<Rightarrow> u8 \<times> cstr" where
  "scan_qualifier fmt =
     (if cur fmt \<in> {104, 108, 76, 90, 122} then
        let qualifier = cur fmt; fmt = tl fmt
        in if qualifier = cur fmt then
             if qualifier = 104 then (72, tl fmt)
             else if qualifier = 108 then (76, tl fmt) else (qualifier, fmt)
           else (qualifier, fmt)
      else (0, fmt))"

text \<open>\<open>do *s++ = *str++; while (--field_width > 0 && *str)\<close>\<close>

function scan_c :: "mem \<Rightarrow> u32 \<Rightarrow> cstr \<Rightarrow> int \<Rightarrow> mem \<times> cstr" where
  "scan_c m s str field_width =
     (let m = m(s := cur str); str = tl str; field_width = field_width - 1
      in if field_width > 0 \<and> cur str \<noteq> 0 then scan_c m (s + 1) str field_width else (m, str))"
  by auto
termination by (relation "measure (\<lambda>(_, _, _, field_width). nat field_width)") auto

text \<open>The copy loop of \<open>%s\<close>, with the terminating NUL.\<close>

fun scan_s :: "mem \<Rightarrow> u32 \<Rightarrow> cstr \<Rightarrow> int \<Rightarrow> mem \<times> cstr" where
  "scan_s m s [] field_width = (m(s := 0), [])"
| "scan_s m s (c # str) field_width =
     (if c \<noteq> 0 \<and> \<not> isspace c \<and> field_width \<noteq> 0 then scan_s (m(s := c)) (s + 1) str (field_width - 1)
      else (m(s := 0), c # str))"

declare scan_c.simps [simp del]

text \<open>Base and sign of an integer conversion.\<close>

definition scan_format :: "u8 \<Rightarrow> (u32 \<times> bool) option" where
  "scan_format c =
     (if c = 111 then Some (8, False)
      else if c = 120 \<or> c = 88 then Some (16, False)
      else if c = 105 then Some (0, True)
      else if c = 100 then Some (10, True)
      else if c = 117 then Some (10, False)
      else None)"

definition bad_digit :: "u32 \<Rightarrow> u8 \<Rightarrow> bool" where
  "bad_digit base digit \<longleftrightarrow>
     digit = 0 \<or> (base = 16 \<and> \<not> isxdigit digit) \<or> (base = 10 \<and> \<not> isdigit digit) \<or>
     (base = 8 \<and> (\<not> isdigit digit \<or> digit > 55)) \<or> (base = 0 \<and> \<not> isdigit digit)"

text \<open>Parsing and storing one integer: the new memory and the rest of the input.\<close>

definition scan_int :: "u8 \<Rightarrow> bool \<Rightarrow> u32 \<Rightarrow> u32 \<Rightarrow> cstr \<Rightarrow> mem \<Rightarrow> mem \<times> cstr" where
  "scan_int qualifier is_sign base p str m =
     (let strtol = (if is_sign then simple_strtol str base else simple_strtoul str base)
      in if qualifier = 72 then (store8 m p (fst strtol), snd strtol)
         else if qualifier = 104 then (store16 m p (fst strtol), snd strtol)
         else if qualifier = 76 then
           let strtoll = (if is_sign then simple_strtoll str base else simple_strtoull str base)
           in (store64 m p (fst strtoll), snd strtoll)
         else if qualifier = 90 \<or> qualifier = 122 then
           let (r, endp) = simple_strtoul str base in (store32 m p r, endp)
         else (store32 m p (fst strtol), snd strtol))"

definition pop_arg :: "u32 list \<Rightarrow> (u32 \<times> u32 list) option" where
  "pop_arg args = (case args of [] \<Rightarrow> None | a # args \<Rightarrow> Some (a, args))"

definition skip_ws :: "cstr \<Rightarrow> cstr" where
  "skip_ws str = dropWhile isspace str"

definition skip_word :: "cstr \<Rightarrow> cstr" where
  "skip_word str = dropWhile (\<lambda>c. \<not> isspace c \<and> c \<noteq> 0) str"

text \<open>What one round of the loop does: stop with the count, or go on with the rest of the input
  and the format.\<close>

datatype scan_step =
    Stop
  | Go cstr cstr "u32 list" mem nat

definition scan_conv :: "cstr \<Rightarrow> int \<Rightarrow> u8 \<Rightarrow> u8 \<Rightarrow> cstr \<Rightarrow> cstr \<Rightarrow> u32 list \<Rightarrow> mem \<Rightarrow> scan_step option" where
  "scan_conv buf field_width qualifier c str fmt args m =
     (if c = 99 then
        case pop_arg args of None \<Rightarrow> None
        | Some (s, args) \<Rightarrow>
            let (m, str) = scan_c m s str (if field_width = - 1 then 1 else field_width)
            in Some (Go str fmt args m 1)
      else if c = 115 then
        case pop_arg args of None \<Rightarrow> None
        | Some (s, args) \<Rightarrow>
            let (m, str) = scan_s m s (skip_ws str) (if field_width = - 1 then 0x7fffffff else field_width)
            in Some (Go str fmt args m 1)
      else if c = 110 then
        case pop_arg args of None \<Rightarrow> None
        | Some (i, args) \<Rightarrow> Some (Go str fmt args (store32 m i (of_nat (length buf - length str))) 0)
      else if c = 37 then Some (if cur str \<noteq> 37 then Stop else Go (tl str) fmt args m 0)
      else case scan_format c of None \<Rightarrow> Some Stop
        | Some (base, is_sign) \<Rightarrow>
            let str = skip_ws str;
                digit = cur str;
                digit = (if is_sign \<and> digit = 45 then cur (tl str) else digit)
            in if bad_digit base digit then Some Stop
               else case pop_arg args of None \<Rightarrow> None
               | Some (p, args) \<Rightarrow>
                   let (m, str) = scan_int qualifier is_sign base p str m in Some (Go str fmt args m 1))"

definition scan_round :: "cstr \<Rightarrow> cstr \<Rightarrow> cstr \<Rightarrow> u32 list \<Rightarrow> mem \<Rightarrow> scan_step option" where
  "scan_round buf str fmt args m =
     (let (fmt, str) = (if isspace (cur fmt) then (skip_ws fmt, skip_ws str) else (fmt, str))
      in if cur fmt \<noteq> 37 \<and> cur fmt \<noteq> 0 then
           Some (if cur fmt \<noteq> cur str then Stop else Go (tl str) (tl fmt) args m 0)
         else if cur fmt = 0 then Some Stop
         else
           let fmt = tl fmt
           in if cur fmt = 42 then Some (Go (skip_word str) (skip_word fmt) args m 0)
              else
                let (field_width, fmt) = (if isdigit (cur fmt) then skip_atoi fmt else (- 1, fmt));
                    (qualifier, fmt) = scan_qualifier fmt
                in if cur fmt = 0 \<or> cur str = 0 then Some Stop
                   else scan_conv buf field_width qualifier (cur fmt) str (tl fmt) args m)"

lemma scan_conv_fmt: "scan_conv buf w q c str fmt args m = Some (Go str' fmt' args' m' k) \<Longrightarrow> fmt' = fmt"
  by (auto simp: scan_conv_def Let_def split: if_splits option.splits prod.splits)

lemma cur_simps: "cur [] = 0" "cur (c # s) = c"
  by (simp_all add: cur_def)

lemma cur_length: "cur s \<noteq> 0 \<Longrightarrow> length (tl s) < length s"
  by (auto simp: cur_def split: list.splits)

lemma skip_word_length: "length (skip_word s) \<le> length s"
  by (simp add: skip_word_def length_dropWhile_le)

lemma skip_ws_length: "length (skip_ws s) \<le> length s"
  by (simp add: skip_ws_def length_dropWhile_le)

lemma scan_round_length:
  assumes "scan_round buf str fmt args m = Some (Go str' fmt' args' m' k)" and "cur fmt \<noteq> 0"
  shows "length fmt' < length fmt"
proof -
  obtain f1 s1 where f1: "(if isspace (cur fmt) then (skip_ws fmt, skip_ws str) else (fmt, str)) = (f1, s1)" by fastforce
  then have l1: "length f1 \<le> length fmt" using skip_ws_length [of fmt] by (auto split: if_splits)
  have nz: "cur f1 \<noteq> 0" using assms(1) f1 by (auto simp: scan_round_def split: if_splits)
  note t1 = cur_length [OF nz]
  obtain w f2 where f2: "(if isdigit (cur (tl f1)) then skip_atoi (tl f1) else (- 1, tl f1)) = (w, f2)" by fastforce
  then have l2: "length f2 \<le> length (tl f1)"
    using skip_atoi_loop_length [of 0 "tl f1"] by (auto simp: skip_atoi_def split: if_splits)
  obtain q f3 where f3: "scan_qualifier f2 = (q, f3)" by fastforce
  then have l3: "length f3 \<le> length f2" by (auto simp: scan_qualifier_def Let_def split: if_splits)
  have "fmt' = tl f1 \<or> fmt' = skip_word (tl f1) \<or> fmt' = tl f3"
    using assms(1) unfolding scan_round_def f1 prod.case Let_def f2 f3
    by (auto split: if_splits dest: scan_conv_fmt)
  then show ?thesis using l1 t1 l2 l3 skip_word_length [of "tl f1"] by auto
qed

function vsscanf_loop :: "cstr \<Rightarrow> cstr \<Rightarrow> cstr \<Rightarrow> u32 list \<Rightarrow> mem \<Rightarrow> nat \<Rightarrow> (nat \<times> mem) option" where
  "vsscanf_loop buf str fmt args m num =
     (if cur fmt \<noteq> 0 \<and> cur str \<noteq> 0 then
        case scan_round buf str fmt args m of None \<Rightarrow> None
        | Some step \<Rightarrow>
           (case step of Stop \<Rightarrow> Some (num, m)
            | Go str fmt args m k \<Rightarrow> vsscanf_loop buf str fmt args m (num + k))
      else Some (num, m))"
  by auto
termination
  by (relation "measure (\<lambda>(_, _, fmt, _, _, _). length fmt)") (auto dest: scan_round_length)

declare vsscanf_loop.simps [simp del]

definition vsscanf :: "cstr \<Rightarrow> cstr \<Rightarrow> u32 list \<Rightarrow> mem \<Rightarrow> (nat \<times> mem) option" where
  "vsscanf buf fmt args m = vsscanf_loop buf buf fmt args m 0"

definition sscanf :: "cstr \<Rightarrow> cstr \<Rightarrow> u32 list \<Rightarrow> mem \<Rightarrow> (nat \<times> mem) option" where
  "sscanf buf fmt args m = vsscanf buf fmt args m"

section \<open>Reading back what was printed\<close>

lemma digit_loop_digits:
  "2 \<le> base \<Longrightarrow> x \<in> set (digit_loop ds base n) \<Longrightarrow> \<exists>d < base. x = ds ! d"
proof (induction n rule: less_induct)
  case (less n)
  show ?case
  proof (cases "n = 0")
    case False
    with less.prems have "x = ds ! (n mod base) \<or> x \<in> set (digit_loop ds base (n div base))"
      by (subst (asm) digit_loop.simps) auto
    moreover have "n mod base < base" "n div base < n" using less.prems(1) False by simp_all
    ultimately show ?thesis using less.IH [of "n div base"] less.prems(1) by blast
  qed (use less.prems in \<open>simp add: digit_loop.simps\<close>)
qed

lemma num_chars_digits:
  assumes "base \<in> {8, 10, 16 :: nat}" and "x \<in> set (num_chars base n)"
  shows "\<exists>d < base. x = small_digits ! d"
proof (cases "n = 0")
  case True
  with assms show ?thesis by (intro exI [of _ 0]) (auto simp: num_chars_def digit_tables)
next
  case False
  with assms digit_loop_digits [of base x small_digits n] show ?thesis by (auto simp: num_chars_def)
qed

lemma scan_number_text:
  assumes "base \<in> {8, 10, 16 :: nat}"
  shows "\<exists>c cs. num_chars base n = c # cs \<and> isxdigit c \<and> (base = 10 \<longrightarrow> isdigit c) \<and> (base = 8 \<longrightarrow> isdigit c \<and> \<not> c > 55)"
proof -
  obtain c cs where c: "num_chars base n = c # cs" using assms leading_digit [of base n]
    by (cases "n = 0") (auto simp: num_chars_def)
  have "c \<in> set (num_chars base n)" using c by simp
  moreover have "\<exists>d < base. x = small_digits ! d" if "x \<in> set (num_chars base n)" for x
    using that num_chars_digits [OF assms] by blast
  ultimately obtain d where d: "d < base" "c = small_digits ! d" by blast
  then have "d < 16" using assms by auto
  from small_digit [OF this] d assms c show ?thesis by (auto simp: word_less_nat_alt)
qed

lemma xdigit_not_special: "isxdigit c \<Longrightarrow> c \<noteq> 0 \<and> c \<noteq> 45 \<and> \<not> isspace c"
  by (auto simp: isxdigit_range isspace_range)

lemma bad_digit_text:
  assumes "base \<in> {8, 10, 16 :: nat}"
  shows "\<not> bad_digit (of_nat base) (cur (num_chars base n @ rest))"
  using scan_number_text [OF assms, of n] assms xdigit_not_special by (auto simp: bad_digit_def cur_def)

lemma skip_ws_text:
  assumes "base \<in> {8, 10, 16 :: nat}"
  shows "skip_ws (num_chars base n @ rest) = num_chars base n @ rest"
  using scan_number_text [OF assms, of n] xdigit_not_special by (auto simp: skip_ws_def)

text \<open>One integer directive at the end of the format.\<close>

lemma sscanf_int:
  assumes "scan_format c = Some (base, is_sign)" and "cur str \<noteq> 0" and "skip_ws str = str"
    and "\<not> bad_digit base (if is_sign \<and> cur str = 45 then cur (tl str) else cur str)"
  shows "sscanf str [37, c] [p] m = Some (1, fst (scan_int 0 is_sign base p str m))"
proof -
  have c: "c \<notin> {0, 37, 42, 99, 110, 115, 104, 108, 76, 90, 122}" "\<not> isdigit c" "\<not> isspace c"
    using assms(1) by (auto simp: scan_format_def isdigit_range isspace_range split: if_splits)
  have s37: "\<not> isspace 37" by (simp add: isspace_range)
  obtain m' str' where r: "scan_int 0 is_sign base p str m = (m', str')" by fastforce
  have "scan_round str str [37, c] [p] m = Some (Go str' [] [] m' 1)"
    using c s37 assms r unfolding scan_round_def scan_conv_def
    by (simp add: cur_simps scan_qualifier_def Let_def pop_arg_def)
  then show ?thesis using assms(2) r
    by (simp add: sscanf_def vsscanf_def vsscanf_loop.simps [of _ _ "[37, c]"] vsscanf_loop.simps [of _ _ "[]"] cur_simps)
qed

text \<open>What \<open>snprintf\<close> prints for a format of one integer conversion.\<close>

lemma format_int:
  assumes "fc \<in> {(117, 10, 0), (111, 8, 0), (120, 16, 0), (100, 10, SIGN)}" "fc = (c, base, flags)"
  shows "format W m [37, c] [Arg32 n] =
    Some (number_chars (if flags = SIGN then scast n else ucast n) base (- 1) (- 1) flags)"
proof -
  have "parse_directive [c] [Arg32 n] =
      Some (Conv_int (if flags = SIGN then scast n else ucast n) base (- 1) (- 1) flags, [], [])"
    using assms by (auto simp: parse_directive_def get_width_def get_precision_def get_qualifier_def
        cur_def isdigit_range int_format_def fetch_num_def)
  then show ?thesis
    using assms by (auto simp: conv_chars_def)
qed

lemma snprintf_int:
  assumes "fc \<in> {(117, 10, 0), (111, 8, 0), (120, 16, 0), (100, 10, SIGN)}" "fc = (c, base, flags)"
    and "buf \<noteq> 0" "24 < unat sz" "unat sz < 2 ^ 31" "unat buf + unat sz \<le> 2 ^ 32"
  obtains r m' where "snprintf m buf sz [37, c] [Arg32 n] = Some (r, m')"
    "text_at m' buf (unat r) = number_chars (if flags = SIGN then scast n else ucast n) base (- 1) (- 1) flags"
proof -
  let ?cs = "number_chars (if flags = SIGN then scast n else ucast n) base (- 1) (- 1) flags"
  have l: "length ?cs \<le> 24"
    using assms(1,2) by (intro number_chars_length) auto
  have p: "printable m buf sz [37, c] [Arg32 n] ?cs"
    using format_int [OF assms(1,2)] assms(3-6) l by (simp add: printable_def)
  have "sz \<noteq> 0" "min (length ?cs) (unat sz - 1) = length ?cs"
    using assms(4) l by auto
  then obtain r m' where m': "snprintf m buf sz [37, c] [Arg32 n] = Some (r, m')"
    "\<forall>i < length ?cs. m' (buf + of_nat i) = ?cs ! i"
    using snp.buffer_string [OF p _ refl] by auto
  have "r = of_nat (length ?cs)" using snp.prints [OF p] m'(1) by simp
  then have "unat r = length ?cs" using l by (simp add: unat_of_nat)
  then have "text_at m' buf (unat r) = ?cs"
    using m'(2) by (intro nth_equalityI) (simp_all add: text_at_def)
  with m'(1) show thesis by (rule that)
qed

lemma sscanf_unsigned:
  assumes "scan_format c = Some (of_nat base, False)" "base \<in> {8, 10, 16 :: nat}" "ends_number rest"
  shows "sscanf (number_chars (ucast (n :: u32)) (int base) (- 1) (- 1) 0 @ rest) [37, c] [p] m = Some (1, store32 m p n)"
proof -
  have b': "int base \<in> {8, 10, 16}" using assms(2) by auto
  have t: "number_chars (ucast n) (int base) (- 1) (- 1) 0 = num_chars base (unat n)"
    using number_chars_plain(1) [OF b'] by (simp add: unat_ucast_eq)
  have "cur (num_chars base (unat n) @ rest) \<noteq> 0"
    using scan_number_text [OF assms(2), of "unat n"] xdigit_not_special by (auto simp: cur_def)
  then show ?thesis unfolding t
    using sscanf_int [OF assms(1) _ skip_ws_text [OF assms(2)]] bad_digit_text [OF assms(2)]
      strtoul_num_chars [OF assms(2,3), of "unat n"]
    by (simp add: scan_int_def)
qed

lemma sscanf_signed:
  assumes "ends_number rest"
  shows "sscanf (number_chars (scast (n :: u32)) 10 (- 1) (- 1) SIGN @ rest) [37, 100] [p] m = Some (1, store32 m p n)"
proof -
  let ?t = "number_chars (scast n) 10 (- 1) (- 1) SIGN @ rest"
  have x: "\<exists>c cs. num_chars 10 k = c # cs \<and> isxdigit c \<and> isdigit c" for k
    using scan_number_text [of 10 k] by auto
  have "cur ?t \<noteq> 0" "skip_ws ?t = ?t" "\<not> bad_digit 10 (if cur ?t = 45 then cur (tl ?t) else cur ?t)"
    using x [of "unat (- scast n :: u64)"] x [of "unat (scast n :: u64)"] xdigit_not_special
    by (auto simp: number_chars_signed cur_def skip_ws_def bad_digit_def isspace_range)
  then show ?thesis using sscanf_int [of 100 10 True ?t p m] strtol_signed [OF assms, of n]
    by (simp add: scan_format_def scan_int_def)
qed

section \<open>Input that does not match\<close>

definition literal :: "u8 \<Rightarrow> bool" where
  "literal c \<longleftrightarrow> c \<notin> {0, 37} \<and> \<not> isspace c"

text \<open>The digits of a base; base 0 reads a decimal digit first.\<close>

definition base_digits :: "u32 \<Rightarrow> u8 set" where
  "base_digits base =
     (if base = 16 then {48..57} \<union> {65..70} \<union> {97..102} else if base = 8 then {48..55} else {48..57})"

text \<open>The first digit of a number, after its sign.\<close>

definition first_digit :: "bool \<Rightarrow> cstr \<Rightarrow> u8" where
  "first_digit is_sign str = (if is_sign \<and> cur str = 45 then cur (tl str) else cur str)"

lemma bad_digit_iff:
  assumes "scan_format c = Some (base, is_sign)"
  shows "bad_digit base d \<longleftrightarrow> d \<notin> base_digits base"
proof -
  have "base \<in> {0, 8, 10, 16}"
    using assms by (auto simp: scan_format_def split: if_splits)
  then show ?thesis
    by (auto simp: bad_digit_def base_digits_def isdigit_range isxdigit_range word_le_nat_alt word_less_nat_alt)
qed

lemma scan_literal:
  "list_all literal lit \<Longrightarrow> vsscanf_loop buf (lit @ str) (lit @ fmt) args m num = vsscanf_loop buf str fmt args m num"
proof (induction lit)
  case (Cons c lit)
  then have "scan_round buf ((c # lit) @ str) ((c # lit) @ fmt) args m = Some (Go (lit @ str) (lit @ fmt) args m 0)"
    by (simp add: scan_round_def cur_simps literal_def)
  then show ?case
    using Cons by (simp add: vsscanf_loop.simps [of _ "c # _"] cur_simps literal_def)
qed simp

definition qualifiers :: "cstr set" where
  "qualifiers = {[], [104], [104, 104], [108], [108, 108], [76], [90], [122]}"

lemma scan_int_stop:
  assumes "scan_format c = Some (base, is_sign)" "q \<in> qualifiers" "cur str \<noteq> 0"
    "first_digit is_sign (skip_ws str) \<notin> base_digits base"
  shows "scan_round buf str (37 # q @ c # fmt) args m = Some Stop"
proof -
  have c: "c \<notin> {0, 37, 42, 99, 110, 115, 104, 108, 76, 90, 122}" "\<not> isdigit c"
    using assms(1) by (auto simp: scan_format_def isdigit_range split: if_splits)
  have bad: "bad_digit base (if is_sign \<and> cur (skip_ws str) = 45 then cur (tl (skip_ws str)) else cur (skip_ws str))"
    using assms(4) by (simp add: bad_digit_iff [OF assms(1)] first_digit_def)
  have "\<not> isspace 37" "cur (q @ c # fmt) \<noteq> 42" "\<not> isdigit (cur (q @ c # fmt))"
    using c assms(2) by (auto simp: isspace_range qualifiers_def cur_simps isdigit_range)
  moreover have "\<exists>qual. scan_qualifier (q @ c # fmt) = (qual, c # fmt)"
    using c assms(2) by (auto simp: qualifiers_def scan_qualifier_def cur_simps)
  ultimately show ?thesis
    using c assms(1,3) bad unfolding scan_round_def scan_conv_def
    by (auto simp: cur_simps Let_def)
qed

section \<open>Properties\<close>

text \<open>
  C22. The scanner reads back what the printer wrote: for each of \<open>%u\<close>, \<open>%d\<close>, \<open>%o\<close> and \<open>%x\<close>, the
  text that \<open>snprintf\<close> leaves in a buffer for a 32-bit number is read by \<open>sscanf\<close> with the same
  format, which stores the number unchanged through its argument and reports one conversion.
\<close>

theorem sscanf_number_roundtrip:
  assumes "f \<in> {''%u'', ''%d'', ''%o'', ''%x''}"
    and "buf \<noteq> 0" "24 < unat sz" "unat sz < 2 ^ 31" "unat buf + unat sz \<le> 2 ^ 32"
  shows "\<exists>r m'. snprintf m buf sz (bytes f) [Arg32 n] = Some (r, m') \<and>
    sscanf (text_at m' buf (unat r)) (bytes f) [p] m' = Some (1, store32 m' p n)"
proof -
  obtain c base flags where f: "bytes f = [37, c]"
    "(c, base :: int, flags :: u32) \<in> {(117, 10, 0), (111, 8, 0), (120, 16, 0), (100, 10, SIGN)}"
    using assms(1) by (auto simp: bytes_def)
  obtain r m' where p: "snprintf m buf sz [37, c] [Arg32 n] = Some (r, m')"
    "text_at m' buf (unat r) = number_chars (if flags = SIGN then scast n else ucast n) base (- 1) (- 1) flags"
    using snprintf_int [OF f(2) refl assms(2-5)] by blast
  have "ends_number []" by (simp add: ends_number_def cur_def isxdigit_range uu_toupper_def islower_range)
  then have "sscanf (number_chars (if flags = SIGN then scast n else ucast n) base (- 1) (- 1) flags) [37, c] [p] m' =
      Some (1, store32 m' p n)"
    using f(2) sscanf_unsigned [of c 10 "[]"] sscanf_unsigned [of c 8 "[]"] sscanf_unsigned [of c 16 "[]"] sscanf_signed [of "[]"]
    by (auto simp: scan_format_def)
  then show ?thesis using f(1) p by auto
qed

text \<open>
  C23. Input that does not match stores nothing: when, after a literal text that matches, the next
  character of the format differs from the input, or the input of an integer conversion (with or
  without a qualifier, after white space and, for a signed one, a minus sign) does not go on with
  a digit of its base, no conversion is reported and memory is unchanged.
\<close>

theorem sscanf_mismatch:
  assumes "list_all literal lit" and "literal c" and "cur str \<noteq> c"
    and "scan_format k = Some (base, is_sign)" and "q \<in> qualifiers"
    and "first_digit is_sign (skip_ws inp) \<notin> base_digits base"
  shows "sscanf (lit @ str) (lit @ c # fmt) args m = Some (0, m) \<and>
    sscanf (lit @ inp) (lit @ 37 # q @ k # fmt) args m = Some (0, m)"
proof -
  have "scan_round buf str (c # fmt) args m = Some Stop" for buf
    using assms(2,3) by (auto simp: scan_round_def cur_simps literal_def)
  then have "vsscanf_loop buf str (c # fmt) args m 0 = Some (0, m)" for buf
    by (subst vsscanf_loop.simps) simp
  moreover have "vsscanf_loop buf inp (37 # q @ k # fmt) args m 0 = Some (0, m)" for buf
    using scan_int_stop [OF assms(4,5) _ assms(6), of buf fmt args m] by (subst vsscanf_loop.simps) simp
  ultimately show ?thesis
    by (simp add: sscanf_def vsscanf_def scan_literal [OF assms(1)])
qed

section \<open>Witnesses\<close>

theorem sscanf_number_roundtrip_witness:
  "\<exists>r m'. snprintf (\<lambda>_. 0) 0x1000 32 (bytes ''%d'') [Arg32 (- 5)] = Some (r, m') \<and>
     sscanf (text_at m' 0x1000 (unat r)) (bytes ''%d'') [0x2000] m' = Some (1, store32 m' 0x2000 (- 5))"
  by (rule sscanf_number_roundtrip) simp_all

theorem sscanf_mismatch_witness:
  "sscanf (bytes ''v=y'') (bytes ''v=x%d'') [] (\<lambda>_. 0) = Some (0, \<lambda>_. 0) \<and>
   sscanf (bytes ''v= 9'') (bytes ''v=%lo%d'') [] (\<lambda>_. 0) = Some (0, \<lambda>_. 0)"
  using sscanf_mismatch [of "bytes ''v=''" 120 "bytes ''y''" 111 8 False "[108]" "bytes '' 9''" "bytes ''%d''" "[]" "\<lambda>_. 0"]
  by (simp add: literal_def bytes_def cur_def isspace_range skip_ws_def scan_format_def qualifiers_def first_digit_def base_digits_def)

end
