(* ===== verification/Creds.thy ===== *)
theory Creds
  imports Kernel_Prelude
begin

text \<open>
  Credentials of a process: capability sets (\<open>include/linux/capability.h\<close>,
  \<open>security/commoncap.c\<close>, \<open>kernel/capability.c\<close>), the per-user accounting of
  \<open>kernel/user.c\<close> and the system calls of \<open>kernel/sys.c\<close> that change user and group
  ids. The configuration is that of \<open>motorola_ljap_defconfig\<close>:
  \<open>CONFIG_MOT_FEAT_SECURE_CLOCK\<close> is set and the security module is Motorola's, which
  takes its capability hooks from \<open>commoncap.c\<close> and has no \<open>task_setuid\<close> or
  \<open>task_setgid\<close> hook of its own, so that those two return 0. Each call is atomic. Keyrings
  are not modelled.

  A system call yields its result and the new state also on its error paths, since
  \<open>capable\<close> marks the task as having used a privilege.
\<close>

section \<open>Capability sets\<close>

type_synonym kernel_cap_t = u32

definition CAP_SETGID :: nat where "CAP_SETGID = 6"
definition CAP_SETUID :: nat where "CAP_SETUID = 7"
definition CAP_SETPCAP :: nat where "CAP_SETPCAP = 8"
definition CAP_SYS_PTRACE :: nat where "CAP_SYS_PTRACE = 19"
definition CAP_SYS_ADMIN :: nat where "CAP_SYS_ADMIN = 21"
definition CAP_SYS_RESOURCE :: nat where "CAP_SYS_RESOURCE = 24"
definition CAP_SYS_TIME :: nat where "CAP_SYS_TIME = 25"
definition CAP_SECURE_CLOCK :: nat where "CAP_SECURE_CLOCK = 29"

definition CAP_FS_MASK :: kernel_cap_t where "CAP_FS_MASK = 0x1f"

definition CAP_TO_MASK :: "nat \<Rightarrow> kernel_cap_t" where
  "CAP_TO_MASK x = push_bit x 1"

definition CAP_FULL_SET :: kernel_cap_t where
  "CAP_FULL_SET = NOT (CAP_TO_MASK CAP_SECURE_CLOCK)"

definition CAP_INIT_EFF_SET :: kernel_cap_t where
  "CAP_INIT_EFF_SET = NOT 0 AND NOT (CAP_TO_MASK CAP_SETPCAP OR CAP_TO_MASK CAP_SECURE_CLOCK)"

definition CAP_INIT_INH_SET :: kernel_cap_t where
  "CAP_INIT_INH_SET = 0"

definition cap_raise :: "kernel_cap_t \<Rightarrow> nat \<Rightarrow> kernel_cap_t" where
  "cap_raise c flag = c OR CAP_TO_MASK flag"

definition cap_raised :: "kernel_cap_t \<Rightarrow> nat \<Rightarrow> bool" where
  "cap_raised c flag \<longleftrightarrow> c AND CAP_TO_MASK flag \<noteq> 0"

definition cap_combine :: "kernel_cap_t \<Rightarrow> kernel_cap_t \<Rightarrow> kernel_cap_t" where
  "cap_combine a b = a OR b"

definition cap_intersect :: "kernel_cap_t \<Rightarrow> kernel_cap_t \<Rightarrow> kernel_cap_t" where
  "cap_intersect a b = a AND b"

definition cap_issubset :: "kernel_cap_t \<Rightarrow> kernel_cap_t \<Rightarrow> bool" where
  "cap_issubset a b \<longleftrightarrow> a AND NOT b = 0"

definition cap_set_full :: kernel_cap_t where
  "cap_set_full = NOT (CAP_TO_MASK CAP_SECURE_CLOCK)"

section \<open>Tasks and users\<close>

text \<open>
  The fields of \<open>task_struct\<close> the credential code reads and writes. \<open>c_user\<close> stands for
  the pointer to the user structure, which is identified by its uid; \<open>c_security\<close> is the
  domain mask that Motorola's module keeps in the \<open>security\<close> pointer.
\<close>

record cred =
  c_pid :: int
  c_uid :: u32
  c_euid :: u32
  c_suid :: u32
  c_fsuid :: u32
  c_gid :: u32
  c_egid :: u32
  c_sgid :: u32
  c_fsgid :: u32
  c_effective :: kernel_cap_t
  c_inheritable :: kernel_cap_t
  c_permitted :: kernel_cap_t
  c_keep :: bool
  c_superpriv :: bool
  c_dumpable :: bool
  c_nproc :: u32
  c_user :: u32
  c_security :: u32

text \<open>The hash table of user structures and their counters.\<close>

record users =
  uidhash :: "u32 \<Rightarrow> u32 list"
  u_count :: "u32 \<Rightarrow> u32"
  u_processes :: "u32 \<Rightarrow> u32"

record csys =
  cs_cur :: cred
  cs_usr :: users

type_synonym 'a sysret = "(errno + 'a) \<times> csys"

definition uu_uidhashfn :: "u32 \<Rightarrow> u32" where
  "uu_uidhashfn uid = (drop_bit 8 uid + uid) AND 255"

definition uid_hash_insert :: "u32 \<Rightarrow> u32 \<Rightarrow> users \<Rightarrow> users" where
  "uid_hash_insert up hashent s = s\<lparr>uidhash := (uidhash s)(hashent := up # uidhash s hashent)\<rparr>"

definition uid_hash_remove :: "u32 \<Rightarrow> users \<Rightarrow> users" where
  "uid_hash_remove up s =
     s\<lparr>uidhash := (uidhash s)(uu_uidhashfn up := remove1 up (uidhash s (uu_uidhashfn up)))\<rparr>"

definition uid_hash_find :: "u32 \<Rightarrow> u32 \<Rightarrow> users \<Rightarrow> bool \<times> users" where
  "uid_hash_find uid hashent s =
     (if List.find (\<lambda>user. user = uid) (uidhash s hashent) \<noteq> None
      then (True, s\<lparr>u_count := (u_count s)(uid := u_count s uid + 1)\<rparr>)
      else (False, s))"

definition find_user :: "u32 \<Rightarrow> users \<Rightarrow> bool \<times> users" where
  "find_user uid s = uid_hash_find uid (uu_uidhashfn uid) s"

definition free_uid :: "u32 \<Rightarrow> users \<Rightarrow> users" where
  "free_uid up s =
     (let s1 = s\<lparr>u_count := (u_count s)(up := u_count s up - 1)\<rparr> in
      if u_count s1 up = 0 then uid_hash_remove up s1 else s1)"

text \<open>
  \<open>alloc_uid\<close> runs in two sections under \<open>uidhash_lock\<close> with an allocation in between that can
  sleep: the lookup, which is \<open>uid_hash_find\<close>, and the section \<open>alloc_uid_add\<close>, which looks
  again and inserts the new structure unless another task was faster, in which case it drops
  the new structure. The counters of the new structure, private until then, are set when it
  becomes visible. \<open>alloc_uid\<close> is the call that no other task interrupts; theory
  \<open>UserRuns\<close> interleaves the sections. The first argument tells whether the slab cache and
  the keyrings can be allocated.
\<close>

definition alloc_uid_add :: "u32 \<Rightarrow> users \<Rightarrow> users" where
  "alloc_uid_add uid s =
     (let hashent = uu_uidhashfn uid; (found, s1) = uid_hash_find uid hashent s in
      if found then s1
      else uid_hash_insert uid hashent
             (s1\<lparr>u_count := (u_count s1)(uid := 1), u_processes := (u_processes s1)(uid := 0)\<rparr>))"

definition alloc_uid :: "bool \<Rightarrow> u32 \<Rightarrow> users \<Rightarrow> users option" where
  "alloc_uid mem uid s =
     (let hashent = uu_uidhashfn uid; (found, s1) = uid_hash_find uid hashent s in
      if found then Some s1
      else if \<not> mem then None
      else Some (alloc_uid_add uid s1))"

definition switch_uid :: "u32 \<Rightarrow> csys \<Rightarrow> csys" where
  "switch_uid new_user s =
     (let old_user = c_user (cs_cur s);
          p1 = (u_processes (cs_usr s))(new_user := u_processes (cs_usr s) new_user + 1);
          p2 = p1(old_user := p1 old_user - 1)
      in s\<lparr>cs_cur := (cs_cur s)\<lparr>c_user := new_user\<rparr>,
           cs_usr := free_uid old_user ((cs_usr s)\<lparr>u_processes := p2\<rparr>)\<rparr>)"

section \<open>The hooks of commoncap.c\<close>

definition cap_capable :: "cred \<Rightarrow> nat \<Rightarrow> errno option" where
  "cap_capable tsk cap = (if cap_raised (c_effective tsk) cap then None else Some EPERM)"

text \<open>\<open>capable\<close> of \<open>security/security.c\<close>.\<close>

definition capable :: "nat \<Rightarrow> cred \<Rightarrow> bool \<times> cred" where
  "capable cap t =
     (if cap_capable t cap \<noteq> None then (False, t) else (True, t\<lparr>c_superpriv := True\<rparr>))"

text \<open>The short-circuit disjunction \<open>b || capable(cap)\<close>.\<close>

definition or_capable :: "bool \<Rightarrow> nat \<Rightarrow> cred \<Rightarrow> bool \<times> cred" where
  "or_capable b cap t = (if b then (True, t) else capable cap t)"

definition cap_settime :: "cred \<Rightarrow> (errno + unit) \<times> cred" where
  "cap_settime t = (let (ok, t1) = capable CAP_SYS_TIME t in
     if \<not> ok then (Inl EPERM, t1) else (Inr (), t1))"

definition cap_ptrace :: "cred \<Rightarrow> cred \<Rightarrow> (errno + unit) \<times> cred" where
  "cap_ptrace child t =
     (let (ok, t1) = or_capable (cap_issubset (c_permitted child) (c_permitted t)) CAP_SYS_PTRACE t in
      if \<not> ok then (Inl EPERM, t1) else (Inr (), t1))"

definition cap_capget :: "cred \<Rightarrow> kernel_cap_t \<times> kernel_cap_t \<times> kernel_cap_t" where
  "cap_capget target = (c_effective target, c_inheritable target, c_permitted target)"

definition cap_capset_check ::
    "cred \<Rightarrow> cred \<Rightarrow> kernel_cap_t \<Rightarrow> kernel_cap_t \<Rightarrow> kernel_cap_t \<Rightarrow> errno option" where
  "cap_capset_check t target effective inheritable permitted =
     (if \<not> cap_issubset inheritable (cap_combine (c_inheritable target) (c_permitted t))
      then Some EPERM
      else if \<not> cap_issubset permitted (cap_combine (c_permitted target) (c_permitted t))
      then Some EPERM
      else if \<not> cap_issubset effective permitted then Some EPERM
      else None)"

definition cap_capset_set ::
    "cred \<Rightarrow> kernel_cap_t \<Rightarrow> kernel_cap_t \<Rightarrow> kernel_cap_t \<Rightarrow> cred" where
  "cap_capset_set target effective inheritable permitted =
     target\<lparr>c_effective := effective, c_inheritable := inheritable, c_permitted := permitted\<rparr>"

text \<open>The fields of \<open>linux_binprm\<close> that carry credentials.\<close>

record binprm =
  e_uid :: u32
  e_gid :: u32
  b_inheritable :: kernel_cap_t
  b_permitted :: kernel_cap_t
  b_effective :: kernel_cap_t
  b_security :: u32

text \<open>The kernel never writes \<open>securebits\<close>, which starts as \<open>SECUREBITS_DEFAULT\<close>.\<close>

definition SECURE_NOROOT :: nat where "SECURE_NOROOT = 0"
definition SECURE_NO_SETUID_FIXUP :: nat where "SECURE_NO_SETUID_FIXUP = 2"
definition SECUREBITS_DEFAULT :: u32 where "SECUREBITS_DEFAULT = 0"
definition securebits :: u32 where "securebits = SECUREBITS_DEFAULT"

definition issecure :: "nat \<Rightarrow> bool" where
  "issecure X \<longleftrightarrow>
     (if push_bit (X + 1) 1 AND SECUREBITS_DEFAULT \<noteq> 0 then push_bit X 1 AND SECUREBITS_DEFAULT
      else push_bit X 1 AND securebits) \<noteq> 0"

definition cap_bprm_set_security :: "cred \<Rightarrow> binprm \<Rightarrow> binprm" where
  "cap_bprm_set_security t b =
     (let b1 = b\<lparr>b_inheritable := 0, b_permitted := 0, b_effective := 0\<rparr> in
      if \<not> issecure SECURE_NOROOT then
        let b2 = (if e_uid b1 = 0 \<or> c_uid t = 0
                  then b1\<lparr>b_inheritable := cap_set_full, b_permitted := cap_set_full\<rparr> else b1)
        in (if e_uid b2 = 0 then b2\<lparr>b_effective := cap_set_full\<rparr> else b2)
      else b1)"

definition LSM_UNSAFE_SHARE :: u32 where "LSM_UNSAFE_SHARE = 1"
definition LSM_UNSAFE_PTRACE :: u32 where "LSM_UNSAFE_PTRACE = 2"
definition LSM_UNSAFE_PTRACE_CAP :: u32 where "LSM_UNSAFE_PTRACE_CAP = 4"

text \<open>
  \<open>cap_bset\<close>, the bounding set, is a global that the sysctl interface can change: the
  current value is the first argument.
\<close>

definition cap_bprm_apply_creds :: "kernel_cap_t \<Rightarrow> binprm \<Rightarrow> u32 \<Rightarrow> cred \<Rightarrow> binprm \<times> cred" where
  "cap_bprm_apply_creds cap_bset b unsafe t =
     (let working = cap_intersect (b_inheritable b) (c_inheritable t);
          new_permitted = cap_combine (cap_intersect (b_permitted b) cap_bset) working;
          (b1, np1, t1) =
            (if e_uid b \<noteq> c_uid t \<or> e_gid b \<noteq> c_gid t \<or>
                \<not> cap_issubset new_permitted (c_permitted t)
             then
               let t2 = t\<lparr>c_dumpable := False\<rparr> in
               if unsafe AND NOT LSM_UNSAFE_PTRACE_CAP \<noteq> 0 then
                 let (ok1, t3) = capable CAP_SETUID t2;
                     b2 = (if \<not> ok1 then b\<lparr>e_uid := c_uid t3, e_gid := c_gid t3\<rparr> else b);
                     (ok2, t4) = capable CAP_SETPCAP t3;
                     np2 = (if \<not> ok2 then cap_intersect new_permitted (c_permitted t4)
                            else new_permitted)
                 in (b2, np2, t4)
               else (b, new_permitted, t2)
             else (b, new_permitted, t));
          t5 = t1\<lparr>c_suid := e_uid b1, c_euid := e_uid b1, c_fsuid := e_uid b1,
                  c_sgid := e_gid b1, c_egid := e_gid b1, c_fsgid := e_gid b1\<rparr>;
          t6 = (if c_pid t5 \<noteq> 1
                then t5\<lparr>c_permitted := np1, c_effective := cap_intersect np1 (b_effective b1)\<rparr>
                else t5)
      in (b1, t6\<lparr>c_keep := False\<rparr>))"

definition cap_bprm_secureexec :: "cred \<Rightarrow> bool" where
  "cap_bprm_secureexec t \<longleftrightarrow> c_euid t \<noteq> c_uid t \<or> c_egid t \<noteq> c_gid t"

definition cap_emulate_setxuid :: "u32 \<Rightarrow> u32 \<Rightarrow> u32 \<Rightarrow> cred \<Rightarrow> cred" where
  "cap_emulate_setxuid old_ruid old_euid old_suid t =
     (let t1 = (if (old_ruid = 0 \<or> old_euid = 0 \<or> old_suid = 0) \<and>
                   (c_uid t \<noteq> 0 \<and> c_euid t \<noteq> 0 \<and> c_suid t \<noteq> 0) \<and> \<not> c_keep t
                then t\<lparr>c_permitted := 0, c_effective := 0\<rparr> else t);
          t2 = (if old_euid = 0 \<and> c_euid t1 \<noteq> 0 then t1\<lparr>c_effective := 0\<rparr> else t1)
      in (if old_euid \<noteq> 0 \<and> c_euid t2 = 0 then t2\<lparr>c_effective := c_permitted t2\<rparr> else t2))"

datatype lsm_setid = LSM_SETID_ID | LSM_SETID_RE | LSM_SETID_RES | LSM_SETID_FS

fun cap_task_post_setuid :: "u32 \<Rightarrow> u32 \<Rightarrow> u32 \<Rightarrow> lsm_setid \<Rightarrow> cred \<Rightarrow> cred" where
  "cap_task_post_setuid old_ruid old_euid old_suid LSM_SETID_FS t =
     (let old_fsuid = old_ruid in
      if \<not> issecure SECURE_NO_SETUID_FIXUP then
        let t1 = (if old_fsuid = 0 \<and> c_fsuid t \<noteq> 0
                  then t\<lparr>c_effective := c_effective t AND NOT CAP_FS_MASK\<rparr> else t)
        in (if old_fsuid \<noteq> 0 \<and> c_fsuid t1 = 0
            then t1\<lparr>c_effective := c_effective t1 OR (c_permitted t1 AND CAP_FS_MASK)\<rparr> else t1)
      else t)"
| "cap_task_post_setuid old_ruid old_euid old_suid flags t =
     (if \<not> issecure SECURE_NO_SETUID_FIXUP
      then cap_emulate_setxuid old_ruid old_euid old_suid t else t)"

definition cap_task_reparent_to_init :: "cred \<Rightarrow> cred" where
  "cap_task_reparent_to_init p =
     p\<lparr>c_effective := CAP_INIT_EFF_SET, c_inheritable := CAP_INIT_INH_SET,
       c_permitted := CAP_FULL_SET, c_keep := False\<rparr>"

definition cap_syslog :: "int \<Rightarrow> cred \<Rightarrow> (errno + unit) \<times> cred" where
  "cap_syslog type t =
     (let (ok, t1) = or_capable (type = 3 \<or> type = 10) CAP_SYS_ADMIN t in
      if \<not> ok then (Inl EPERM, t1) else (Inr (), t1))"

section \<open>System calls on user and group ids\<close>

definition set_cur :: "cred \<Rightarrow> csys \<Rightarrow> csys" where
  "set_cur t s = s\<lparr>cs_cur := t\<rparr>"

definition clear_dumpable :: "bool \<Rightarrow> cred \<Rightarrow> cred" where
  "clear_dumpable b t = (if b then t\<lparr>c_dumpable := False\<rparr> else t)"

definition sys_setregid :: "u32 \<Rightarrow> u32 \<Rightarrow> cred \<Rightarrow> (errno + unit) \<times> cred" where
  "sys_setregid rgid egid t =
     (let old_rgid = c_gid t; old_egid = c_egid t;
          (ok1, t1) = (if rgid \<noteq> -1
             then or_capable (old_rgid = rgid \<or> c_egid t = rgid) CAP_SETGID t else (True, t));
          new_rgid = (if rgid \<noteq> -1 then rgid else old_rgid)
      in if \<not> ok1 then (Inl EPERM, t1) else
      let (ok2, t2) = (if egid \<noteq> -1
             then or_capable (old_rgid = egid \<or> c_egid t1 = egid \<or> c_sgid t1 = egid) CAP_SETGID t1
             else (True, t1));
          new_egid = (if egid \<noteq> -1 then egid else old_egid)
      in if \<not> ok2 then (Inl EPERM, t2) else
      let t3 = clear_dumpable (new_egid \<noteq> old_egid) t2;
          t4 = (if rgid \<noteq> -1 \<or> (egid \<noteq> -1 \<and> egid \<noteq> old_rgid)
                then t3\<lparr>c_sgid := new_egid\<rparr> else t3)
      in (Inr (), t4\<lparr>c_fsgid := new_egid, c_egid := new_egid, c_gid := new_rgid\<rparr>))"

definition sys_setgid :: "u32 \<Rightarrow> cred \<Rightarrow> (errno + unit) \<times> cred" where
  "sys_setgid gid t =
     (let old_egid = c_egid t; (ok, t1) = capable CAP_SETGID t in
      if ok then
        (Inr (), (clear_dumpable (old_egid \<noteq> gid) t1)
           \<lparr>c_gid := gid, c_egid := gid, c_sgid := gid, c_fsgid := gid\<rparr>)
      else if gid = c_gid t1 \<or> gid = c_sgid t1 then
        (Inr (), (clear_dumpable (old_egid \<noteq> gid) t1)\<lparr>c_egid := gid, c_fsgid := gid\<rparr>)
      else (Inl EPERM, t1))"

text \<open>The user with uid 0 is \<open>root_user\<close>.\<close>

definition set_user :: "bool \<Rightarrow> u32 \<Rightarrow> bool \<Rightarrow> csys \<Rightarrow> unit sysret" where
  "set_user mem new_ruid dumpclear s =
     (case alloc_uid mem new_ruid (cs_usr s) of
        None \<Rightarrow> (Inl EAGAIN, s)
      | Some us \<Rightarrow>
          if c_nproc (cs_cur s) \<le> u_processes us new_ruid \<and> new_ruid \<noteq> 0
          then (Inl EAGAIN, s\<lparr>cs_usr := free_uid new_ruid us\<rparr>)
          else
            let s1 = switch_uid new_ruid (s\<lparr>cs_usr := us\<rparr>);
                t1 = clear_dumpable dumpclear (cs_cur s1)
            in (Inr (), s1\<lparr>cs_cur := t1\<lparr>c_uid := new_ruid\<rparr>\<rparr>))"

definition sys_setreuid :: "bool \<Rightarrow> u32 \<Rightarrow> u32 \<Rightarrow> csys \<Rightarrow> unit sysret" where
  "sys_setreuid mem ruid euid s =
     (let t = cs_cur s; old_ruid = c_uid t; old_euid = c_euid t; old_suid = c_suid t;
          new_ruid = (if ruid \<noteq> -1 then ruid else old_ruid);
          (ok1, t1) = (if ruid \<noteq> -1
             then or_capable (\<not> (old_ruid \<noteq> ruid \<and> c_euid t \<noteq> ruid)) CAP_SETUID t else (True, t))
      in if \<not> ok1 then (Inl EPERM, set_cur t1 s) else
      let new_euid = (if euid \<noteq> -1 then euid else old_euid);
          (ok2, t2) = (if euid \<noteq> -1
             then or_capable (\<not> (old_ruid \<noteq> euid \<and> c_euid t1 \<noteq> euid \<and> c_suid t1 \<noteq> euid)) CAP_SETUID t1
             else (True, t1))
      in if \<not> ok2 then (Inl EPERM, set_cur t2 s) else
      let (r, s3) = (if new_ruid \<noteq> old_ruid
             then set_user mem new_ruid (new_euid \<noteq> old_euid) (set_cur t2 s)
             else (Inr (), set_cur t2 s))
      in if r \<noteq> Inr () then (Inl EAGAIN, s3) else
      let t4 = clear_dumpable (new_euid \<noteq> old_euid) (cs_cur s3);
          t5 = t4\<lparr>c_fsuid := new_euid, c_euid := new_euid\<rparr>;
          t6 = (if ruid \<noteq> -1 \<or> (euid \<noteq> -1 \<and> euid \<noteq> old_ruid)
                then t5\<lparr>c_suid := c_euid t5\<rparr> else t5);
          t7 = t6\<lparr>c_fsuid := c_euid t6\<rparr>
      in (Inr (), set_cur (cap_task_post_setuid old_ruid old_euid old_suid LSM_SETID_RE t7) s3))"

definition sys_setuid :: "bool \<Rightarrow> u32 \<Rightarrow> csys \<Rightarrow> unit sysret" where
  "sys_setuid mem uid s =
     (let t = cs_cur s; old_euid = c_euid t; old_ruid = c_uid t; old_suid = c_suid t;
          (ok, t1) = capable CAP_SETUID t;
          s1 = set_cur t1 s;
          (r, new_suid, s2) =
            (if ok then
               let (r', s') = (if uid \<noteq> old_ruid then set_user mem uid (old_euid \<noteq> uid) s1
                               else (Inr (), s1))
               in (if r' \<noteq> Inr () then Inl EAGAIN else Inr (), uid, s')
             else if uid \<noteq> c_uid t1 \<and> uid \<noteq> old_suid then (Inl EPERM, old_suid, s1)
             else (Inr (), old_suid, s1))
      in if r \<noteq> Inr () then (r, s2) else
      let t3 = clear_dumpable (old_euid \<noteq> uid) (cs_cur s2);
          t4 = t3\<lparr>c_fsuid := uid, c_euid := uid, c_suid := new_suid\<rparr>
      in (Inr (), set_cur (cap_task_post_setuid old_ruid old_euid old_suid LSM_SETID_ID t4) s2))"

definition sys_setresuid :: "bool \<Rightarrow> u32 \<Rightarrow> u32 \<Rightarrow> u32 \<Rightarrow> csys \<Rightarrow> unit sysret" where
  "sys_setresuid mem ruid euid suid s =
     (let t = cs_cur s; old_ruid = c_uid t; old_euid = c_euid t; old_suid = c_suid t;
          (ok, t1) = capable CAP_SETUID t;
          bad = (\<lambda>x. x \<noteq> -1 \<and> x \<noteq> c_uid t1 \<and> x \<noteq> c_euid t1 \<and> x \<noteq> c_suid t1);
          s1 = set_cur t1 s
      in if \<not> ok \<and> (bad ruid \<or> bad euid \<or> bad suid) then (Inl EPERM, s1) else
      let (r, s2) = (if ruid \<noteq> -1 \<and> ruid \<noteq> c_uid t1
             then set_user mem ruid (euid \<noteq> c_euid t1) s1 else (Inr (), s1))
      in if r \<noteq> Inr () then (Inl EAGAIN, s2) else
      let t2 = cs_cur s2;
          t3 = (if euid \<noteq> -1 then (clear_dumpable (euid \<noteq> c_euid t2) t2)\<lparr>c_euid := euid\<rparr> else t2);
          t4 = t3\<lparr>c_fsuid := c_euid t3\<rparr>;
          t5 = (if suid \<noteq> -1 then t4\<lparr>c_suid := suid\<rparr> else t4)
      in (Inr (), set_cur (cap_task_post_setuid old_ruid old_euid old_suid LSM_SETID_RES t5) s2))"

text \<open>
  \<open>sys_getresuid\<close> and \<open>sys_getresgid\<close>: the arguments tell which of the three user
  addresses can be written; the result lists the values stored.
\<close>

definition put3 :: "bool \<Rightarrow> bool \<Rightarrow> bool \<Rightarrow> 'a \<Rightarrow> 'a \<Rightarrow> 'a \<Rightarrow> (errno + unit) \<times> 'a list" where
  "put3 w1 w2 w3 x y z =
     (if \<not> w1 then (Inl EFAULT, []) else if \<not> w2 then (Inl EFAULT, [x])
      else if \<not> w3 then (Inl EFAULT, [x, y]) else (Inr (), [x, y, z]))"

definition sys_getresuid :: "bool \<Rightarrow> bool \<Rightarrow> bool \<Rightarrow> cred \<Rightarrow> (errno + unit) \<times> u32 list" where
  "sys_getresuid w1 w2 w3 t = put3 w1 w2 w3 (c_uid t) (c_euid t) (c_suid t)"

definition sys_getresgid :: "bool \<Rightarrow> bool \<Rightarrow> bool \<Rightarrow> cred \<Rightarrow> (errno + unit) \<times> u32 list" where
  "sys_getresgid w1 w2 w3 t = put3 w1 w2 w3 (c_gid t) (c_egid t) (c_sgid t)"

definition sys_setresgid :: "u32 \<Rightarrow> u32 \<Rightarrow> u32 \<Rightarrow> cred \<Rightarrow> (errno + unit) \<times> cred" where
  "sys_setresgid rgid egid sgid t =
     (let (ok, t1) = capable CAP_SETGID t;
          bad = (\<lambda>x. x \<noteq> -1 \<and> x \<noteq> c_gid t1 \<and> x \<noteq> c_egid t1 \<and> x \<noteq> c_sgid t1)
      in if \<not> ok \<and> (bad rgid \<or> bad egid \<or> bad sgid) then (Inl EPERM, t1) else
      let t2 = (if egid \<noteq> -1 then (clear_dumpable (egid \<noteq> c_egid t1) t1)\<lparr>c_egid := egid\<rparr> else t1);
          t3 = t2\<lparr>c_fsgid := c_egid t2\<rparr>;
          t4 = (if rgid \<noteq> -1 then t3\<lparr>c_gid := rgid\<rparr> else t3);
          t5 = (if sgid \<noteq> -1 then t4\<lparr>c_sgid := sgid\<rparr> else t4)
      in (Inr (), t5))"

definition sys_setfsuid :: "u32 \<Rightarrow> cred \<Rightarrow> u32 \<times> cred" where
  "sys_setfsuid uid t =
     (let old_fsuid = c_fsuid t;
          (ok, t1) = or_capable (uid = c_uid t \<or> uid = c_euid t \<or> uid = c_suid t \<or> uid = c_fsuid t)
                       CAP_SETUID t;
          t2 = (if ok then (clear_dumpable (uid \<noteq> old_fsuid) t1)\<lparr>c_fsuid := uid\<rparr> else t1)
      in (old_fsuid, cap_task_post_setuid old_fsuid (-1) (-1) LSM_SETID_FS t2))"

definition sys_setfsgid :: "u32 \<Rightarrow> cred \<Rightarrow> u32 \<times> cred" where
  "sys_setfsgid gid t =
     (let old_fsgid = c_fsgid t;
          (ok, t1) = or_capable (gid = c_gid t \<or> gid = c_egid t \<or> gid = c_sgid t \<or> gid = c_fsgid t)
                       CAP_SETGID t
      in (old_fsgid,
          if ok then (clear_dumpable (gid \<noteq> old_fsgid) t1)\<lparr>c_fsgid := gid\<rparr> else t1))"

text \<open>\<open>prctl(PR_SET_KEEPCAPS)\<close> and \<open>PR_GET_KEEPCAPS\<close>.\<close>

definition prctl_set_keepcaps :: "u32 \<Rightarrow> cred \<Rightarrow> (errno + unit) \<times> cred" where
  "prctl_set_keepcaps arg2 t =
     (if arg2 \<noteq> 0 \<and> arg2 \<noteq> 1 then (Inl EINVAL, t) else (Inr (), t\<lparr>c_keep := (arg2 \<noteq> 0)\<rparr>))"

section \<open>capget and capset\<close>

text \<open>
  The process table: tasks by pid, the threads that follow a task in the ring of its thread
  group, the processes of a process group and all threads in list order.
\<close>

record tasklist =
  task_of :: "int \<Rightarrow> cred option"
  other_threads :: "int \<Rightarrow> int list"
  pgrp_tasks :: "int \<Rightarrow> int list"
  all_threads :: "int list"

definition LINUX_CAPABILITY_VERSION :: u32 where "LINUX_CAPABILITY_VERSION = 0x19980330"

text \<open>
  The header in user memory: \<open>None\<close> where \<open>get_user\<close> faults, and whether the version can
  be written.
\<close>

record cap_header =
  h_version :: "u32 option"
  h_writable :: bool
  h_pid :: "int option"

definition cap_check_header :: "cap_header \<Rightarrow> errno + int" where
  "cap_check_header h =
     (case h_version h of
        None \<Rightarrow> Inl EFAULT
      | Some version \<Rightarrow>
          if version \<noteq> LINUX_CAPABILITY_VERSION
          then (if \<not> h_writable h then Inl EFAULT else Inl EINVAL)
          else (case h_pid h of None \<Rightarrow> Inl EFAULT | Some pid \<Rightarrow> Inr pid))"

definition sys_capget ::
    "cap_header \<Rightarrow> bool \<Rightarrow> int \<Rightarrow> tasklist \<Rightarrow> errno + (kernel_cap_t \<times> kernel_cap_t \<times> kernel_cap_t)" where
  "sys_capget h writable current s =
     (case cap_check_header h of
        Inl e \<Rightarrow> Inl e
      | Inr pid \<Rightarrow>
          if pid < 0 then Inl EINVAL else
          (case task_of s (if pid \<noteq> 0 \<and> pid \<noteq> current then pid else current) of
             None \<Rightarrow> Inl ESRCH
           | Some target \<Rightarrow> if \<not> writable then Inl EFAULT else Inr (cap_capget target)))"

text \<open>
  One round of the loops of \<open>cap_set_pg\<close> and \<open>cap_set_all\<close>: check the target against the
  permitted set of the caller and set its capabilities. The state is \<open>(ret, task_of)\<close>,
  \<open>ret = None\<close> standing for 0.
\<close>

definition capset_one ::
    "int \<Rightarrow> kernel_cap_t \<Rightarrow> kernel_cap_t \<Rightarrow> kernel_cap_t \<Rightarrow> int \<Rightarrow>
     errno option \<times> (int \<Rightarrow> cred option) \<Rightarrow> errno option \<times> (int \<Rightarrow> cred option)" where
  "capset_one current effective inheritable permitted pid st =
     (case (snd st current, snd st pid) of
        (Some t, Some target) \<Rightarrow>
          if cap_capset_check t target effective inheritable permitted = None
          then (None, (snd st)(pid \<mapsto> cap_capset_set target effective inheritable permitted))
          else st
      | _ \<Rightarrow> st)"

text \<open>
  \<open>cap_set_pg\<close>. The loop \<open>target = g; while_each_thread(g, target)\<close> moves to the next
  thread before its body runs and stops at \<open>g\<close>: the body sees the other threads of the
  group and never \<open>g\<close>.
\<close>

definition cap_set_pg ::
    "int \<Rightarrow> int \<Rightarrow> kernel_cap_t \<Rightarrow> kernel_cap_t \<Rightarrow> kernel_cap_t \<Rightarrow> tasklist \<Rightarrow> errno option \<times> tasklist" where
  "cap_set_pg current pgrp effective inheritable permitted s =
     (let targets = concat (map (other_threads s) (pgrp_tasks s pgrp));
          (ret, ts) = fold (capset_one current effective inheritable permitted) targets
                        (Some EPERM, task_of s);
          found = (targets \<noteq> [])
      in (if \<not> found then None else ret, s\<lparr>task_of := ts\<rparr>))"

definition cap_set_all ::
    "int \<Rightarrow> kernel_cap_t \<Rightarrow> kernel_cap_t \<Rightarrow> kernel_cap_t \<Rightarrow> tasklist \<Rightarrow> errno option \<times> tasklist" where
  "cap_set_all current effective inheritable permitted s =
     (let targets = filter (\<lambda>p. \<not> (p = current \<or> p = 1)) (all_threads s);
          (ret, ts) = fold (capset_one current effective inheritable permitted) targets
                        (Some EPERM, task_of s);
          found = (targets \<noteq> [])
      in (if \<not> found then None else ret, s\<lparr>task_of := ts\<rparr>))"

text \<open>
  The part of \<open>sys_capset\<close> that runs under \<open>task_capability_lock\<close> and \<open>tasklist_lock\<close>.
\<close>

definition capset_locked ::
    "int \<Rightarrow> int \<Rightarrow> kernel_cap_t \<Rightarrow> kernel_cap_t \<Rightarrow> kernel_cap_t \<Rightarrow> tasklist \<Rightarrow> errno option \<times> tasklist" where
  "capset_locked current pid effective inheritable permitted s =
     (let target = (if 0 < pid \<and> pid \<noteq> current then pid else current) in
      case (task_of s current, task_of s target) of
        (Some t, Some tt) \<Rightarrow>
          if pid < 0 then
            (if pid = -1 then cap_set_all current effective inheritable permitted s
             else cap_set_pg current (- pid) effective inheritable permitted s)
          else if cap_capset_check t tt effective inheritable permitted \<noteq> None
          then (cap_capset_check t tt effective inheritable permitted, s)
          else (None, s\<lparr>task_of := (task_of s)(target \<mapsto>
                   cap_capset_set tt effective inheritable permitted)\<rparr>)
      | _ \<Rightarrow> (Some ESRCH, s))"

text \<open>
  \<open>sys_capset\<close>: \<open>data\<close> is \<open>None\<close> where reading the three sets from user memory faults.
\<close>

definition sys_capset ::
    "cap_header \<Rightarrow> (kernel_cap_t \<times> kernel_cap_t \<times> kernel_cap_t) option \<Rightarrow> int \<Rightarrow> tasklist \<Rightarrow>
     errno option \<times> tasklist" where
  "sys_capset h data current s =
     (case cap_check_header h of
        Inl e \<Rightarrow> (Some e, s)
      | Inr pid \<Rightarrow>
          (case task_of s current of
             None \<Rightarrow> (Some ESRCH, s)
           | Some t \<Rightarrow>
               let (ok, t1) = or_capable (\<not> (pid \<noteq> 0 \<and> pid \<noteq> current)) CAP_SETPCAP t;
                   s1 = s\<lparr>task_of := (task_of s)(current \<mapsto> t1)\<rparr>
               in if \<not> ok then (Some EPERM, s1) else
               (case data of
                  None \<Rightarrow> (Some EFAULT, s1)
                | Some (e, i, p) \<Rightarrow>
                    let m = NOT (CAP_TO_MASK CAP_SECURE_CLOCK) in
                    capset_locked current pid (e AND m) (i AND m) (p AND m) s1)))"

text \<open>The calls of one task on its own ids.\<close>

datatype id_call =
    Setregid u32 u32 | Setgid u32 | Setreuid bool u32 u32 | Setuid bool u32
  | Setresuid bool u32 u32 u32 | Setresgid u32 u32 u32 | Setfsuid u32 | Setfsgid u32
  | Keepcaps u32

fun do_id_call :: "id_call \<Rightarrow> csys \<Rightarrow> csys" where
  "do_id_call (Setregid r e) s = set_cur (snd (sys_setregid r e (cs_cur s))) s"
| "do_id_call (Setgid g) s = set_cur (snd (sys_setgid g (cs_cur s))) s"
| "do_id_call (Setreuid m r e) s = snd (sys_setreuid m r e s)"
| "do_id_call (Setuid m u) s = snd (sys_setuid m u s)"
| "do_id_call (Setresuid m r e u) s = snd (sys_setresuid m r e u s)"
| "do_id_call (Setresgid r e g) s = set_cur (snd (sys_setresgid r e g (cs_cur s))) s"
| "do_id_call (Setfsuid u) s = set_cur (snd (sys_setfsuid u (cs_cur s))) s"
| "do_id_call (Setfsgid g) s = set_cur (snd (sys_setfsgid g (cs_cur s))) s"
| "do_id_call (Keepcaps a) s = set_cur (snd (prctl_set_keepcaps a (cs_cur s))) s"

section \<open>Lemmas\<close>

lemma bit_CAP_TO_MASK: "bit (CAP_TO_MASK c) n \<longleftrightarrow> n = c \<and> c < 32"
  by (auto simp: CAP_TO_MASK_def bit_exp_iff)

lemma cap_raised_bit: "cap_raised s c \<longleftrightarrow> bit s c"
proof
  assume "cap_raised s c"
  then obtain n where "bit (s AND CAP_TO_MASK c) n"
    by (auto simp: cap_raised_def bit_eq_iff)
  then show "bit s c" by (auto simp: bit_and_iff bit_CAP_TO_MASK)
next
  assume "bit s c"
  then have "bit (s AND CAP_TO_MASK c) c"
    by (auto simp: bit_and_iff bit_CAP_TO_MASK dest: bit_imp_le_length)
  then show "cap_raised s c" by (auto simp: cap_raised_def)
qed

lemma cap_issubset_bits: "cap_issubset a b \<longleftrightarrow> (\<forall>n. bit a n \<longrightarrow> bit b n)"
  using bit_imp_le_length [of a] by (force simp: cap_issubset_def bit_eq_iff bit_and_iff bit_not_iff)

lemmas cap_bits = cap_issubset_bits cap_raised_bit cap_combine_def cap_intersect_def bit_and_iff
  bit_or_iff

lemma cap_issubset_refl [simp]: "cap_issubset a a" and cap_issubset_0 [simp]: "cap_issubset 0 a"
  by (simp_all add: cap_issubset_bits)

lemma capable_iff:
  "capable cap t = (bit (c_effective t) cap, if bit (c_effective t) cap then t\<lparr>c_superpriv := True\<rparr> else t)"
  by (simp add: capable_def cap_capable_def cap_raised_bit)

lemma or_capable_iff:
  "or_capable b cap t = (b \<or> bit (c_effective t) cap,
     if \<not> b \<and> bit (c_effective t) cap then t\<lparr>c_superpriv := True\<rparr> else t)"
  by (simp add: or_capable_def capable_iff)

lemma issecure_False [simp]: "issecure X \<longleftrightarrow> False"
  by (simp add: issecure_def SECUREBITS_DEFAULT_def securebits_def)

lemma sum_unit_neq: "(r :: errno + unit) \<noteq> Inr () \<longleftrightarrow> (\<exists>e. r = Inl e)"
  by (cases r) auto

lemma set_cur_simps [simp]:
  "cs_cur (set_cur t s) = t" "cs_usr (set_cur t s) = cs_usr s"
  by (simp_all add: set_cur_def)

text \<open>\<open>set_user\<close> changes the real uid, the user pointer and the dumpable flag.\<close>

lemma set_user_fields:
  assumes "set_user m u d s = (r, s')"
  shows "c_permitted (cs_cur s') = c_permitted (cs_cur s) \<and>
    c_effective (cs_cur s') = c_effective (cs_cur s) \<and>
    c_inheritable (cs_cur s') = c_inheritable (cs_cur s) \<and>
    c_security (cs_cur s') = c_security (cs_cur s) \<and> c_pid (cs_cur s') = c_pid (cs_cur s) \<and>
    c_keep (cs_cur s') = c_keep (cs_cur s) \<and> c_euid (cs_cur s') = c_euid (cs_cur s) \<and>
    c_suid (cs_cur s') = c_suid (cs_cur s) \<and> c_fsuid (cs_cur s') = c_fsuid (cs_cur s) \<and>
    c_uid (cs_cur s') = (if r = Inr () then u else c_uid (cs_cur s)) \<and>
    c_user (cs_cur s') = (if r = Inr () then u else c_user (cs_cur s)) \<and>
    (r \<noteq> Inr () \<longrightarrow> cs_cur s' = cs_cur s \<and> r = Inl EAGAIN)"
  using assms
  by (auto simp: set_user_def switch_uid_def clear_dumpable_def Let_def split: option.splits if_splits)

lemmas id_call_defs = sys_setregid_def sys_setgid_def sys_setreuid_def sys_setuid_def
  sys_setresuid_def sys_setresgid_def sys_setfsuid_def sys_setfsgid_def prctl_set_keepcaps_def
  capable_iff or_capable_iff Let_def clear_dumpable_def

lemma emulate_subset:
  "cap_issubset (c_effective t) (c_permitted t) \<Longrightarrow>
   cap_issubset (c_effective (cap_emulate_setxuid r e u t)) (c_permitted (cap_emulate_setxuid r e u t))"
  by (simp add: cap_emulate_setxuid_def Let_def)

lemma post_setuid_subset:
  "cap_issubset (c_effective t) (c_permitted t) \<Longrightarrow>
   cap_issubset (c_effective (cap_task_post_setuid r e u f t)) (c_permitted (cap_task_post_setuid r e u f t))"
  by (cases f) (simp_all add: emulate_subset, auto simp: Let_def cap_bits)

lemma post_setuid_permitted:
  "cap_issubset (c_permitted (cap_task_post_setuid r e u f t)) (c_permitted t)"
  by (cases f) (auto simp: cap_emulate_setxuid_def Let_def)

lemma post_setuid_ids [simp]:
  "c_uid (cap_task_post_setuid r e u f t) = c_uid t"
  "c_euid (cap_task_post_setuid r e u f t) = c_euid t"
  "c_suid (cap_task_post_setuid r e u f t) = c_suid t"
  "c_fsuid (cap_task_post_setuid r e u f t) = c_fsuid t"
  "c_pid (cap_task_post_setuid r e u f t) = c_pid t"
  "c_user (cap_task_post_setuid r e u f t) = c_user t"
  "c_security (cap_task_post_setuid r e u f t) = c_security t"
  "c_inheritable (cap_task_post_setuid r e u f t) = c_inheritable t"
  by (cases f; auto simp: cap_emulate_setxuid_def Let_def)+

text \<open>What one call on the ids can do to the credentials of the task that makes it.\<close>

definition id_call_ok :: "cred \<Rightarrow> cred \<Rightarrow> bool" where
  "id_call_ok t t' \<longleftrightarrow>
     cap_issubset (c_permitted t') (c_permitted t) \<and>
     c_inheritable t' = c_inheritable t \<and>
     (cap_issubset (c_effective t) (c_permitted t) \<longrightarrow> cap_issubset (c_effective t') (c_permitted t')) \<and>
     (\<not> bit (c_effective t) CAP_SETUID \<longrightarrow>
        {c_uid t', c_euid t', c_suid t', c_fsuid t'} \<subseteq> {c_uid t, c_euid t, c_suid t, c_fsuid t}) \<and>
     c_security t' = c_security t \<and> c_pid t' = c_pid t"

lemma id_call_ok_regid: "id_call_ok t (snd (sys_setregid r e t))"
  and id_call_ok_gid: "id_call_ok t (snd (sys_setgid g t))"
  and id_call_ok_resgid: "id_call_ok t (snd (sys_setresgid r e g t))"
  and id_call_ok_fsgid: "id_call_ok t (snd (sys_setfsgid g t))"
  and id_call_ok_keep: "id_call_ok t (snd (prctl_set_keepcaps a t))"
  by (simp_all add: id_call_ok_def id_call_defs)

lemma id_call_ok_post:
  assumes "c_permitted t' = c_permitted t" "c_effective t' = c_effective t"
    "c_inheritable t' = c_inheritable t" "c_security t' = c_security t" "c_pid t' = c_pid t"
    "\<not> bit (c_effective t) CAP_SETUID \<Longrightarrow>
        {c_uid t', c_euid t', c_suid t', c_fsuid t'} \<subseteq> {c_uid t, c_euid t, c_suid t, c_fsuid t}"
  shows "id_call_ok t (cap_task_post_setuid a b c f t')"
  using assms post_setuid_subset [of t' a b c f] post_setuid_permitted [of a b c f t']
  by (simp add: id_call_ok_def)

lemma id_call_ok_same: "id_call_ok t t"
  and id_call_ok_superpriv: "id_call_ok t (t\<lparr>c_superpriv := b\<rparr>)"
  by (simp_all add: id_call_ok_def)

text \<open>The outcomes of an optional privilege check and of an optional \<open>set_user\<close>.\<close>

lemma superpriv_same: "(t :: cred)\<lparr>c_superpriv := c_superpriv t\<rparr> = t"
  by simp

lemma check_outcome:
  assumes "(if g then or_capable b cap t else (True, t)) = (ok, t')"
  shows "\<exists>x. t' = t\<lparr>c_superpriv := x\<rparr> \<and> (ok \<longrightarrow> g \<longrightarrow> b \<or> bit (c_effective t) cap)"
proof -
  have "t' = t \<or> t' = t\<lparr>c_superpriv := True\<rparr>" "ok \<longrightarrow> g \<longrightarrow> b \<or> bit (c_effective t) cap"
    using assms unfolding or_capable_iff by (simp_all split: if_splits)
  then show ?thesis using superpriv_same [of t] by metis
qed

lemma capable_outcome:
  assumes "capable cap t = (ok, t')"
  shows "(\<exists>x. t' = t\<lparr>c_superpriv := x\<rparr>) \<and> ok = bit (c_effective t) cap"
proof -
  have "t' = t \<or> t' = t\<lparr>c_superpriv := True\<rparr>" "ok = bit (c_effective t) cap"
    using assms unfolding capable_iff by (simp_all split: if_splits)
  then show ?thesis using superpriv_same [of t] by metis
qed

lemma user_outcome:
  assumes "(if g then set_user m u d s else (Inr (), s)) = (r, s')"
  shows "c_permitted (cs_cur s') = c_permitted (cs_cur s) \<and>
    c_effective (cs_cur s') = c_effective (cs_cur s) \<and>
    c_inheritable (cs_cur s') = c_inheritable (cs_cur s) \<and>
    c_security (cs_cur s') = c_security (cs_cur s) \<and> c_pid (cs_cur s') = c_pid (cs_cur s) \<and>
    c_keep (cs_cur s') = c_keep (cs_cur s) \<and> c_euid (cs_cur s') = c_euid (cs_cur s) \<and>
    c_suid (cs_cur s') = c_suid (cs_cur s) \<and> c_fsuid (cs_cur s') = c_fsuid (cs_cur s) \<and>
    (r = Inr () \<longrightarrow> c_uid (cs_cur s') = (if g then u else c_uid (cs_cur s)) \<and>
       c_user (cs_cur s') = (if g then u else c_user (cs_cur s))) \<and>
    (r \<noteq> Inr () \<longrightarrow> cs_cur s' = cs_cur s \<and> r = Inl EAGAIN)"
  using assms by (cases g) (simp_all, auto dest: set_user_fields)

lemma id_call_ok_fsuid: "id_call_ok t (snd (sys_setfsuid u t))"
proof -
  obtain ok t1 where 1: "or_capable (u = c_uid t \<or> u = c_euid t \<or> u = c_suid t \<or> u = c_fsuid t)
      CAP_SETUID t = (ok, t1)" by (meson surj_pair)
  from 1 obtain x where t1: "t1 = t\<lparr>c_superpriv := x\<rparr>" and
    ok: "ok \<Longrightarrow> \<not> bit (c_effective t) CAP_SETUID \<Longrightarrow>
       u \<in> {c_uid t, c_euid t, c_suid t, c_fsuid t}"
    using check_outcome [of True _ CAP_SETUID t ok t1] by auto
  show ?thesis
    unfolding sys_setfsuid_def Let_def 1 prod.case snd_conv
    by (rule id_call_ok_post) (use ok in \<open>auto simp: clear_dumpable_def t1\<close>)
qed

lemma id_call_ok_reuid: "id_call_ok (cs_cur s) (cs_cur (snd (sys_setreuid m r e s)))"
proof -
  define t where "t = cs_cur s"
  obtain ok1 t1 where 1: "(if r \<noteq> -1 then or_capable (\<not> (c_uid t \<noteq> r \<and> c_euid t \<noteq> r)) CAP_SETUID t
      else (True, t)) = (ok1, t1)" by (meson surj_pair)
  then obtain x1 where t1: "t1 = t\<lparr>c_superpriv := x1\<rparr>" and
    ok1: "ok1 \<Longrightarrow> r \<noteq> -1 \<Longrightarrow> \<not> bit (c_effective t) CAP_SETUID \<Longrightarrow> r = c_uid t \<or> r = c_euid t"
    by (blast dest: check_outcome)
  obtain ok2 t2 where 2: "(if e \<noteq> -1 then or_capable (\<not> (c_uid t \<noteq> e \<and> c_euid t1 \<noteq> e \<and> c_suid t1 \<noteq> e))
      CAP_SETUID t1 else (True, t1)) = (ok2, t2)" by (meson surj_pair)
  then obtain x2 where t2: "t2 = t1\<lparr>c_superpriv := x2\<rparr>" and
    ok2: "ok2 \<Longrightarrow> e \<noteq> -1 \<Longrightarrow> \<not> bit (c_effective t) CAP_SETUID \<Longrightarrow>
       e = c_uid t \<or> e = c_euid t \<or> e = c_suid t"
    using check_outcome [OF 2] by (auto simp: t1)
  define nr where "nr = (if r \<noteq> -1 then r else c_uid t)"
  define ne where "ne = (if e \<noteq> -1 then e else c_euid t)"
  obtain q s3 where 3: "(if nr \<noteq> c_uid t then set_user m nr (ne \<noteq> c_euid t) (set_cur t2 s)
      else (Inr (), set_cur t2 s)) = (q, s3)" by (meson surj_pair)
  note s3 = user_outcome [OF 3, simplified]
  show ?thesis
  proof (cases "ok1 \<and> ok2 \<and> q = Inr ()")
    case False
    then have "cs_cur (snd (sys_setreuid m r e s)) \<in> {t1, t2}"
      using 1 2 3 s3 unfolding sys_setreuid_def Let_def t_def [symmetric] nr_def [symmetric] ne_def [symmetric]
      by auto
    then show ?thesis by (auto simp: t1 t2 t_def id_call_ok_superpriv)
  next
    case True
    have "id_call_ok t (cs_cur (snd (sys_setreuid m r e s)))"
      using True unfolding sys_setreuid_def Let_def t_def [symmetric] nr_def [symmetric] ne_def [symmetric] 1 2 3
        prod.case
      by (simp del: cap_task_post_setuid.simps,
          use s3 ok1 ok2 in \<open>auto simp: clear_dumpable_def t1 t2 nr_def ne_def simp del: cap_task_post_setuid.simps
            intro!: id_call_ok_post\<close>)
    then show ?thesis by (simp add: t_def)
  qed
qed

text \<open>\<open>setuid\<close> either fails and leaves the credentials alone, or sets the ids as follows.\<close>

lemma setuid_outcome:
  assumes "sys_setuid m u s = (res, s')"
  obtains (err) e x where "res = Inl e" "cs_cur s' = (cs_cur s)\<lparr>c_superpriv := x\<rparr>"
  | (ok) t where "res = Inr ()" "cs_cur s' = cap_task_post_setuid (c_uid (cs_cur s))
         (c_euid (cs_cur s)) (c_suid (cs_cur s)) LSM_SETID_ID t"
       "c_euid t = u" "c_fsuid t = u" "c_permitted t = c_permitted (cs_cur s)"
       "c_effective t = c_effective (cs_cur s)" "c_inheritable t = c_inheritable (cs_cur s)"
       "c_security t = c_security (cs_cur s)" "c_pid t = c_pid (cs_cur s)" "c_keep t = c_keep (cs_cur s)"
       "bit (c_effective (cs_cur s)) CAP_SETUID \<Longrightarrow> c_uid t = u \<and> c_suid t = u"
       "\<not> bit (c_effective (cs_cur s)) CAP_SETUID \<Longrightarrow>
          c_uid t = c_uid (cs_cur s) \<and> c_suid t = c_suid (cs_cur s) \<and> u \<in> {c_uid t, c_suid t}"
proof -
  define t where "t = cs_cur s"
  obtain ok t1 where 1: "capable CAP_SETUID t = (ok, t1)" by (meson surj_pair)
  then obtain x where t1: "t1 = t\<lparr>c_superpriv := x\<rparr>" and okb: "ok = bit (c_effective t) CAP_SETUID"
    by (blast dest: capable_outcome)
  obtain q s2 where 2: "(if u \<noteq> c_uid t then set_user m u (c_euid t \<noteq> u) (set_cur t1 s)
      else (Inr (), set_cur t1 s)) = (q, s2)" by (meson surj_pair)
  note s2 = user_outcome [OF 2, simplified]
  note eq = assms [unfolded sys_setuid_def Let_def t_def [symmetric] 1 2 prod.case]
  show thesis
  proof (cases "ok \<and> q \<noteq> Inr () \<or> \<not> ok \<and> u \<noteq> c_uid t \<and> u \<noteq> c_suid t")
    case True
    then have "\<exists>e. res = Inl e \<and> cs_cur s' = t1" using eq s2 t1 by (auto split: if_splits)
    then show thesis using err t1 t_def by metis
  next
    case False
    have uid1: "c_uid t1 = c_uid t" by (simp add: t1)
    define sx where "sx = (if ok then s2 else set_cur t1 s)"
    define t4 where "t4 = (clear_dumpable (c_euid t \<noteq> u) (cs_cur sx))
      \<lparr>c_fsuid := u, c_euid := u, c_suid := (if ok then u else c_suid t)\<rparr>"
    have "res = Inr () \<and> cs_cur s' = cap_task_post_setuid (c_uid t) (c_euid t) (c_suid t) LSM_SETID_ID t4"
      using False eq uid1 by (cases ok) (auto simp: t4_def sx_def simp del: cap_task_post_setuid.simps split: if_splits)
    then show thesis
      using s2 t1 okb False by (intro ok [of t4])
        (auto simp: t_def t4_def sx_def clear_dumpable_def split: if_splits)
  qed
qed

lemma id_call_ok_setuid: "id_call_ok (cs_cur s) (cs_cur (snd (sys_setuid m u s)))"
proof -
  obtain res s' where r: "sys_setuid m u s = (res, s')" by (meson surj_pair)
  then show ?thesis
  proof (cases rule: setuid_outcome)
    case (err e x)
    then show ?thesis by (simp add: r id_call_ok_superpriv)
  next
    case (ok t)
    have "id_call_ok (cs_cur s) (cs_cur s')"
      unfolding ok(2)
      by (rule id_call_ok_post) (use ok(3-) in \<open>auto simp del: cap_task_post_setuid.simps\<close>)
    then show ?thesis by (simp add: r)
  qed
qed

lemma id_call_ok_resuid: "id_call_ok (cs_cur s) (cs_cur (snd (sys_setresuid m r e u s)))"
proof -
  define t where "t = cs_cur s"
  obtain ok t1 where 1: "capable CAP_SETUID t = (ok, t1)" by (meson surj_pair)
  then obtain x where t1: "t1 = t\<lparr>c_superpriv := x\<rparr>" and okb: "ok = bit (c_effective t) CAP_SETUID"
    by (blast dest: capable_outcome)
  define bad where "bad = (\<lambda>x. x \<noteq> -1 \<and> x \<noteq> c_uid t1 \<and> x \<noteq> c_euid t1 \<and> x \<noteq> c_suid t1)"
  obtain q s2 where 2: "(if r \<noteq> -1 \<and> r \<noteq> c_uid t1 then set_user m r (e \<noteq> c_euid t1) (set_cur t1 s)
      else (Inr (), set_cur t1 s)) = (q, s2)" by (meson surj_pair)
  note s2 = user_outcome [OF 2, simplified]
  define t5 where "t5 = (let t2 = cs_cur s2;
        t3 = (if e \<noteq> -1 then (clear_dumpable (e \<noteq> c_euid t2) t2)\<lparr>c_euid := e\<rparr> else t2);
        t4 = t3\<lparr>c_fsuid := c_euid t3\<rparr>
    in (if u \<noteq> -1 then t4\<lparr>c_suid := u\<rparr> else t4))"
  have eq: "sys_setresuid m r e u s = (if \<not> ok \<and> (bad r \<or> bad e \<or> bad u) then (Inl EPERM, set_cur t1 s)
      else if q \<noteq> Inr () then (Inl EAGAIN, s2)
      else (Inr (), set_cur (cap_task_post_setuid (c_uid t) (c_euid t) (c_suid t) LSM_SETID_RES t5) s2))"
    by (simp only: sys_setresuid_def Let_def t_def [symmetric] 1 2 prod.case bad_def t5_def)
  show ?thesis
  proof (cases "\<not> ok \<and> (bad r \<or> bad e \<or> bad u) \<or> q \<noteq> Inr ()")
    case True
    then have "cs_cur (snd (sys_setresuid m r e u s)) = t1"
      using s2 by (auto simp: eq)
    then show ?thesis by (simp add: t1 t_def id_call_ok_superpriv)
  next
    case False
    then have good: "\<not> ok \<Longrightarrow> \<not> bad r \<and> \<not> bad e \<and> \<not> bad u" and q: "q = Inr ()" by auto
    have cur': "cs_cur (snd (sys_setresuid m r e u s)) =
        cap_task_post_setuid (c_uid t) (c_euid t) (c_suid t) LSM_SETID_RES t5"
      using False by (auto simp: eq simp del: cap_task_post_setuid.simps)
    have "c_permitted t5 = c_permitted t" "c_effective t5 = c_effective t"
      "c_inheritable t5 = c_inheritable t" "c_security t5 = c_security t" "c_pid t5 = c_pid t"
      "c_uid t5 = (if r \<noteq> -1 then r else c_uid t)" "c_euid t5 = (if e \<noteq> -1 then e else c_euid t)"
      "c_suid t5 = (if u \<noteq> -1 then u else c_suid t)" "c_fsuid t5 = c_euid t5"
      using s2 q by (simp_all add: t5_def Let_def clear_dumpable_def t1)
    moreover have "\<not> ok \<Longrightarrow> (x \<noteq> -1 \<and> \<not> bad x \<longrightarrow> x \<in> {c_uid t, c_euid t, c_suid t, c_fsuid t})" for x
      by (auto simp: bad_def t1)
    ultimately have "id_call_ok t (cap_task_post_setuid (c_uid t) (c_euid t) (c_suid t) LSM_SETID_RES t5)"
      using good okb by (intro id_call_ok_post) simp_all
    with cur' show ?thesis by (simp add: t_def)
  qed
qed

lemma do_id_call_ok: "id_call_ok (cs_cur s) (cs_cur (do_id_call c s))"
  by (cases c) (simp_all add: id_call_ok_regid id_call_ok_gid id_call_ok_reuid id_call_ok_setuid
      id_call_ok_resuid id_call_ok_resgid id_call_ok_fsuid id_call_ok_fsgid id_call_ok_keep)

text \<open>What \<open>capset\<close> by a caller with permitted set \<open>P\<close> can do to a task.\<close>

definition capset_ok :: "kernel_cap_t \<Rightarrow> cred \<Rightarrow> cred \<Rightarrow> bool" where
  "capset_ok P t t' \<longleftrightarrow>
     c_pid t' = c_pid t \<and> c_uid t' = c_uid t \<and> c_euid t' = c_euid t \<and> c_suid t' = c_suid t \<and>
     c_fsuid t' = c_fsuid t \<and> c_user t' = c_user t \<and> c_security t' = c_security t \<and>
     cap_issubset (c_permitted t') (cap_combine (c_permitted t) P) \<and>
     (cap_issubset (c_effective t) (c_permitted t) \<longrightarrow> cap_issubset (c_effective t') (c_permitted t')) \<and>
     (bit (c_permitted t') CAP_SECURE_CLOCK \<longrightarrow> bit (c_permitted t) CAP_SECURE_CLOCK) \<and>
     (bit (c_inheritable t') CAP_SECURE_CLOCK \<longrightarrow> bit (c_inheritable t) CAP_SECURE_CLOCK)"

definition capset_all :: "kernel_cap_t \<Rightarrow> (int \<Rightarrow> cred option) \<Rightarrow> (int \<Rightarrow> cred option) \<Rightarrow> bool" where
  "capset_all P ts ts' \<longleftrightarrow> (\<forall>q. rel_option (capset_ok P) (ts q) (ts' q))"

lemma capset_ok_refl: "capset_ok P t t"
  by (auto simp: capset_ok_def cap_bits)

lemma capset_ok_superpriv: "capset_ok P t (t\<lparr>c_superpriv := x\<rparr>)"
  by (auto simp: capset_ok_def cap_bits)

lemma capset_all_refl: "capset_all P ts ts"
  by (auto simp: capset_all_def capset_ok_refl intro: option.rel_refl)

lemma capset_ok_trans:
  "capset_ok P t t' \<Longrightarrow> capset_ok P t' t'' \<Longrightarrow> capset_ok P t t''"
  by (auto simp: capset_ok_def cap_bits)

lemma capset_all_trans:
  assumes "capset_all P ts ts'" "capset_all P ts' ts''"
  shows "capset_all P ts ts''"
  unfolding capset_all_def
proof
  fix q
  have "rel_option (capset_ok P) (ts q) (ts' q)" "rel_option (capset_ok P) (ts' q) (ts'' q)"
    using assms by (auto simp: capset_all_def)
  then show "rel_option (capset_ok P) (ts q) (ts'' q)"
    by (auto simp: rel_option_iff split: option.splits intro: capset_ok_trans)
qed

lemma capset_all_upd: "ts q = Some t \<Longrightarrow> capset_ok P t t' \<Longrightarrow> capset_all P ts (ts(q \<mapsto> t'))"
  by (auto simp: capset_all_def capset_ok_refl intro: option.rel_refl)

text \<open>Setting sets that pass the check of a caller with permitted set at most \<open>P\<close>.\<close>

lemma capset_set_ok:
  assumes "cap_capset_check t tt e i p = None" "cap_issubset (c_permitted t) P"
    "\<not> bit i CAP_SECURE_CLOCK" "\<not> bit p CAP_SECURE_CLOCK"
  shows "capset_ok P tt (cap_capset_set tt e i p)"
  using assms by (auto simp: cap_capset_check_def cap_capset_set_def capset_ok_def cap_bits split: if_splits)

lemma capset_all_caller:
  assumes "capset_all P ts ts'" "ts q = Some t" "ts' q = Some t'" "cap_issubset (c_permitted t) P"
  shows "cap_issubset (c_permitted t') P"
proof -
  have "capset_ok P t t'" using assms(1-3) by (auto simp: capset_all_def dest: spec [of _ q])
  with assms(4) show ?thesis by (auto simp: capset_ok_def cap_bits)
qed

lemma capset_fold:
  assumes "\<not> bit i CAP_SECURE_CLOCK" "\<not> bit p CAP_SECURE_CLOCK"
    "ts c = Some t" "cap_issubset (c_permitted t) P" "capset_all P ts (snd st)"
  shows "capset_all P ts (snd (fold (capset_one c e i p) targets st))"
  using assms(5)
proof (induction targets arbitrary: st)
  case (Cons q targets)
  have "capset_all P ts (snd (capset_one c e i p q st))"
  proof (cases "snd st c = None \<or> snd st q = None")
    case True
    then show ?thesis using Cons.prems by (auto simp: capset_one_def split: option.splits)
  next
    case False
    then obtain tc tq where tc: "snd st c = Some tc" and tq: "snd st q = Some tq" by auto
    have "cap_issubset (c_permitted tc) P"
      using capset_all_caller Cons.prems assms(3,4) tc by blast
    then have "cap_capset_check tc tq e i p = None \<Longrightarrow> capset_ok P tq (cap_capset_set tq e i p)"
      using capset_set_ok assms(1,2) by blast
    then have "capset_all P (snd st) (snd (capset_one c e i p q st))"
      using tc tq by (auto simp: capset_one_def capset_all_refl intro: capset_all_upd)
    then show ?thesis using Cons.prems capset_all_trans by blast
  qed
  then show ?case using Cons.IH by simp
qed simp

lemma bit_mask_clock: "\<not> bit (x AND NOT (CAP_TO_MASK CAP_SECURE_CLOCK)) CAP_SECURE_CLOCK"
  by (simp add: bit_and_iff bit_not_iff bit_CAP_TO_MASK CAP_SECURE_CLOCK_def)

lemma capset_locked_all:
  assumes "\<not> bit i CAP_SECURE_CLOCK" "\<not> bit q CAP_SECURE_CLOCK"
    "task_of s c = Some t" "cap_issubset (c_permitted t) P"
  shows "capset_all P (task_of s) (task_of (snd (capset_locked c pid e i q s)))"
proof -
  have f: "capset_all P (task_of s) (snd (fold (capset_one c e i q) ts (Some EPERM, task_of s)))" for ts
    by (rule capset_fold [where c = c and t = t]) (simp_all add: assms capset_all_refl)
  have "task_of (snd (cap_set_all c e i q s)) =
      snd (fold (capset_one c e i q) (filter (\<lambda>p. \<not> (p = c \<or> p = 1)) (all_threads s)) (Some EPERM, task_of s))"
    by (simp add: cap_set_all_def Let_def split_beta)
  with f have all: "capset_all P (task_of s) (task_of (snd (cap_set_all c e i q s)))" by metis
  have "task_of (snd (cap_set_pg c g e i q s)) =
      snd (fold (capset_one c e i q) (concat (map (other_threads s) (pgrp_tasks s g))) (Some EPERM, task_of s))" for g
    by (simp add: cap_set_pg_def Let_def split_beta)
  with f have pg: "capset_all P (task_of s) (task_of (snd (cap_set_pg c g e i q s)))" for g by metis
  have set1: "capset_all P (task_of s) ((task_of s)(g \<mapsto> cap_capset_set tt e i q))"
    if "task_of s g = Some tt" "cap_capset_check t tt e i q = None" for g tt
    using that capset_set_ok [OF that(2) assms(4,1,2)] capset_all_upd by blast
  show ?thesis
    using all pg set1 assms(3)
    by (simp add: capset_locked_def Let_def capset_all_refl split: option.split)
qed

lemma sys_capset_all:
  assumes "sys_capset h data p s = (r, s')" "task_of s p = Some t"
  shows "capset_all (c_permitted t) (task_of s) (task_of s')"
proof (cases "cap_check_header h")
  case (Inl e)
  then show ?thesis using assms by (auto simp: sys_capset_def capset_all_refl)
next
  case (Inr pid)
  obtain ok t1 where 1: "or_capable (\<not> (pid \<noteq> 0 \<and> pid \<noteq> p)) CAP_SETPCAP t = (ok, t1)" by (meson surj_pair)
  then obtain x where t1: "t1 = t\<lparr>c_superpriv := x\<rparr>"
    using check_outcome [of True _ CAP_SETPCAP t ok t1] by auto
  define s1 where "s1 = s\<lparr>task_of := (task_of s)(p \<mapsto> t1)\<rparr>"
  have s1: "capset_all (c_permitted t) (task_of s) (task_of s1)"
    using assms(2) by (simp add: s1_def t1 capset_all_upd capset_ok_superpriv)
  have p1: "task_of s1 p = Some t1" "cap_issubset (c_permitted t1) (c_permitted t)"
    by (simp_all add: s1_def t1)
  note eq = assms(1) [unfolded sys_capset_def Inr sum.case assms(2) option.case Let_def 1 prod.case s1_def [symmetric]]
  have "capset_all (c_permitted t) (task_of s1) (task_of s')"
  proof (cases data)
    case None
    then have "s' = s1" using eq by (cases ok) simp_all
    then show ?thesis by (simp add: capset_all_refl)
  next
    case (Some d)
    obtain e i q where d: "d = (e, i, q)" by (cases d)
    have "s' = s1 \<or> s' = snd (capset_locked p pid (e AND NOT (CAP_TO_MASK CAP_SECURE_CLOCK))
        (i AND NOT (CAP_TO_MASK CAP_SECURE_CLOCK)) (q AND NOT (CAP_TO_MASK CAP_SECURE_CLOCK)) s1)"
      using eq unfolding Some d option.case prod.case by (metis snd_conv)
    then show ?thesis
      using capset_locked_all [OF bit_mask_clock bit_mask_clock p1] capset_all_refl by metis
  qed
  then show ?thesis using s1 capset_all_trans by blast
qed
end
