(* ===== verification/CredRuns.thy ===== *)
theory CredRuns
  imports Creds
begin

text \<open>
  A system of tasks that call the credential system calls of theory \<open>Creds\<close> in any order:
  the step relation, the invariants of its runs (capability sets, confinement of
  unprivileged tasks) and the error paths. The steps are whole calls; theory \<open>UserRuns\<close>
  interleaves the sections of the calls that change the user structures. \<open>execve\<close> is not
  among the steps.
\<close>

declare cap_task_post_setuid.simps [simp del]

section \<open>Steps\<close>

inductive cred_step :: "int \<Rightarrow> tasklist \<times> users \<Rightarrow> tasklist \<times> users \<Rightarrow> bool" where
  id: "task_of s p = Some t \<Longrightarrow> do_id_call c \<lparr>cs_cur = t, cs_usr = us\<rparr> = s' \<Longrightarrow>
     cred_step p (s, us) (s\<lparr>task_of := (task_of s)(p \<mapsto> cs_cur s')\<rparr>, cs_usr s')"
| capset: "task_of s p = Some t \<Longrightarrow> sys_capset h data p s = (r, s') \<Longrightarrow> cred_step p (s, us) (s', us)"



inductive_cases cred_stepE: "cred_step p (s, us) b"

section \<open>Capability sets along a run\<close>


text \<open>What a step by \<open>p\<close> does to the task \<open>q\<close>.\<close>

lemma step_task:
  assumes "cred_step p (s, us) (s', us')" "task_of s' q = Some t'"
  obtains t tp where "task_of s q = Some t" "task_of s p = Some tp"
    "q = p \<and> id_call_ok t t' \<or> t' = t \<or> capset_ok (c_permitted tp) t t'"
  using assms(1)
proof (cases rule: cred_step.cases)
  case (id t c s2)
  have "id_call_ok t (cs_cur s2)"
    using do_id_call_ok [of "\<lparr>cs_cur = t, cs_usr = us\<rparr>" c] id by simp
  then show thesis
    using id assms(2) that by (cases "q = p") auto
next
  case (capset t h data r)
  then have "capset_all (c_permitted t) (task_of s) (task_of s')"
    by (blast intro: sys_capset_all)
  then have "rel_option (capset_ok (c_permitted t)) (task_of s q) (Some t')"
    using assms(2) by (metis capset_all_def)
  then show thesis using capset that by (auto simp: rel_option_iff split: option.splits)
qed

lemma step_task_Some:
  assumes "cred_step p (s, us) (s', us')" "task_of s q = Some t"
  shows "\<exists>t'. task_of s' q = Some t'"
  using assms(1)
proof (cases rule: cred_step.cases)
  case (id t c s2)
  then show ?thesis using assms(2) by auto
next
  case (capset t h data r)
  then have "capset_all (c_permitted t) (task_of s) (task_of s')"
    by (blast intro: sys_capset_all)
  then show ?thesis using assms(2) unfolding capset_all_def
    by (metis option.exhaust option.rel_distinct(2))
qed



section \<open>Unprivileged tasks\<close>

lemma confined_step:
  assumes "cred_step p (s, us) (s', us')" "task_of s p = Some t"
    "cap_issubset (c_effective t) (c_permitted t)" "\<not> bit (c_permitted t) CAP_SETUID"
  obtains t' where "task_of s' p = Some t'" "cap_issubset (c_effective t') (c_permitted t')"
    "cap_issubset (c_permitted t') (c_permitted t)"
    "{c_uid t', c_euid t', c_suid t', c_fsuid t'} \<subseteq> {c_uid t, c_euid t, c_suid t, c_fsuid t}"
proof -
  obtain t' where t': "task_of s' p = Some t'" using step_task_Some assms(1,2) by blast
  from assms(1) t' have "id_call_ok t t' \<or> t' = t \<or> capset_ok (c_permitted t) t t'"
    by (rule step_task) (use assms(2) in auto)
  moreover have "\<not> bit (c_effective t) CAP_SETUID" using assms(3,4) by (auto simp: cap_bits)
  ultimately have "cap_issubset (c_effective t') (c_permitted t') \<and>
    cap_issubset (c_permitted t') (c_permitted t) \<and>
    {c_uid t', c_euid t', c_suid t', c_fsuid t'} \<subseteq> {c_uid t, c_euid t, c_suid t, c_fsuid t}"
    using assms(3) by (elim disjE) (simp_all add: id_call_ok_def capset_ok_def cap_bits)
  then show thesis using that t' by blast
qed

lemma confined_run:
  assumes "(cred_step p)\<^sup>*\<^sup>* (s, us) (s', us')" "task_of s p = Some t"
    "cap_issubset (c_effective t) (c_permitted t)" "\<not> bit (c_permitted t) CAP_SETUID"
  shows "\<exists>t'. task_of s' p = Some t' \<and> cap_issubset (c_effective t') (c_permitted t') \<and>
    cap_issubset (c_permitted t') (c_permitted t) \<and>
    {c_uid t', c_euid t', c_suid t', c_fsuid t'} \<subseteq> {c_uid t, c_euid t, c_suid t, c_fsuid t}"
  using assms(1)
proof (induction rule: rtranclp_induct2)
  case refl
  then show ?case using assms by simp
next
  case (step s1 us1 s2 us2)
  then obtain t1 where t1: "task_of s1 p = Some t1" "cap_issubset (c_effective t1) (c_permitted t1)"
    "cap_issubset (c_permitted t1) (c_permitted t)"
    "{c_uid t1, c_euid t1, c_suid t1, c_fsuid t1} \<subseteq> {c_uid t, c_euid t, c_suid t, c_fsuid t}" by blast
  then have "\<not> bit (c_permitted t1) CAP_SETUID" using assms(4) by (auto simp: cap_bits)
  with step.hyps(2) t1(1,2) obtain t2 where t2: "task_of s2 p = Some t2" "cap_issubset (c_effective t2) (c_permitted t2)"
    "cap_issubset (c_permitted t2) (c_permitted t1)"
    "{c_uid t2, c_euid t2, c_suid t2, c_fsuid t2} \<subseteq> {c_uid t1, c_euid t1, c_suid t1, c_fsuid t1}"
    by (rule confined_step)
  moreover have "cap_issubset (c_permitted t2) (c_permitted t)"
    using t1(3) t2(3) by (auto simp: cap_bits)
  ultimately show ?case using t1(4) by blast
qed

text \<open>
  C24. A task without \<open>CAP_SETUID\<close> in its permitted set cannot reach, by any sequence of its
  own calls of the set-id system calls and \<open>capset\<close>, a user id that is not already one of its
  four, nor a new permitted capability. (It can by \<open>execve\<close>, which is not a step here.)
\<close>

theorem unprivileged_confined:
  assumes "(cred_step p)\<^sup>*\<^sup>* (s, us) (s', us')" "task_of s p = Some t"
    "cap_issubset (c_effective t) (c_permitted t)" "\<not> cap_raised (c_permitted t) CAP_SETUID"
  shows "\<exists>t'. task_of s' p = Some t' \<and> cap_issubset (c_permitted t') (c_permitted t) \<and>
    {c_uid t', c_euid t', c_suid t', c_fsuid t'} \<subseteq> {c_uid t, c_euid t, c_suid t, c_fsuid t}"
  using confined_run [OF assms(1-3)] assms(4) unfolding cap_raised_bit by blast

text \<open>
  C25. A root task that calls \<open>setuid\<close> with a uid other than 0, without having asked to keep
  its capabilities, gives up its privileges: its four user ids are that uid and its
  capability sets are empty, and stay so whatever set-id calls and \<open>capset\<close> calls it makes
  afterwards.
\<close>

theorem setuid_drops_root:
  assumes "task_of s p = Some t" "cap_raised (c_effective t) CAP_SETUID" "\<not> c_keep t"
    "0 \<in> {c_uid t, c_euid t, c_suid t}" "u \<noteq> 0"
    "sys_setuid mem u \<lparr>cs_cur = t, cs_usr = us\<rparr> = (Inr (), c)"
    "(cred_step p)\<^sup>*\<^sup>* (s\<lparr>task_of := (task_of s)(p \<mapsto> cs_cur c)\<rparr>, cs_usr c) (s', us')"
  shows "\<exists>t'. task_of s' p = Some t' \<and> c_permitted t' = 0 \<and> c_effective t' = 0 \<and>
    c_uid t' = u \<and> c_euid t' = u \<and> c_suid t' = u \<and> c_fsuid t' = u"
proof -
  have c: "c_permitted (cs_cur c) = 0 \<and> c_effective (cs_cur c) = 0 \<and> c_uid (cs_cur c) = u \<and>
     c_euid (cs_cur c) = u \<and> c_suid (cs_cur c) = u \<and> c_fsuid (cs_cur c) = u"
    using assms(6)
  proof (cases rule: setuid_outcome)
    case (ok t1)
    then have "c_uid t1 = u" "c_suid t1 = u" using assms(2) by (auto simp: cap_raised_bit)
    moreover have "\<not> c_keep t1" using ok(10) assms(3) by simp
    ultimately show ?thesis
      using ok(3,4) assms(4,5) unfolding ok(2)
      by (simp add: cap_task_post_setuid.simps cap_emulate_setxuid_def Let_def)
  qed simp
  then obtain t' where "task_of s' p = Some t'" "cap_issubset (c_effective t') (c_permitted t')"
    "cap_issubset (c_permitted t') 0" "{c_uid t', c_euid t', c_suid t', c_fsuid t'} \<subseteq> {u}"
    using confined_run [OF assms(7), of "cs_cur c"] by auto
  moreover have zero: "cap_issubset x 0 \<Longrightarrow> x = 0" for x by (simp add: cap_issubset_def)
  ultimately have "c_permitted t' = 0" "c_effective t' = 0" by metis+
  then show ?thesis
    using \<open>task_of s' p = Some t'\<close> \<open>{c_uid t', c_euid t', c_suid t', c_fsuid t'} \<subseteq> {u}\<close> by simp
qed

section \<open>Process groups\<close>

text \<open>
  C28. \<open>capset\<close> on a process group whose processes are single-threaded reports success and
  changes no capability: the loop of \<open>cap_set_pg\<close> skips the task it starts from.
\<close>

theorem capset_pgrp_no_effect:
  assumes "cap_check_header h = Inr (- pg)" "1 < pg" "task_of s c = Some t" "- pg \<noteq> c"
    "cap_raised (c_effective t) CAP_SETPCAP" "\<And>g. g \<in> set (pgrp_tasks s pg) \<Longrightarrow> other_threads s g = []"
  shows "sys_capset h (Some (e, i, p)) c s =
    (None, s\<lparr>task_of := (task_of s)(c \<mapsto> t\<lparr>c_superpriv := True\<rparr>)\<rparr>)"
proof -
  have empty: "concat (map (other_threads s) (pgrp_tasks s pg)) = []" using assms(6) by simp
  have "cap_set_pg c pg e' i' p' (s\<lparr>task_of := ts\<rparr>) = (None, s\<lparr>task_of := ts\<rparr>)" for e' i' p' ts
    by (simp add: cap_set_pg_def empty)
  moreover have "or_capable (\<not> (- pg \<noteq> 0 \<and> - pg \<noteq> c)) CAP_SETPCAP t = (True, t\<lparr>c_superpriv := True\<rparr>)"
    using assms(2,4,5) by (simp add: or_capable_iff cap_raised_bit)
  ultimately show ?thesis
    using assms(1-3) by (simp add: sys_capset_def capset_locked_def Let_def)
qed

section \<open>Examples\<close>

definition sample_cred :: cred where
  "sample_cred = \<lparr>c_pid = 100, c_uid = 0, c_euid = 0, c_suid = 0, c_fsuid = 0, c_gid = 0, c_egid = 0,
     c_sgid = 0, c_fsgid = 0, c_effective = 0x1ff, c_inheritable = 0, c_permitted = 0x1ff, c_keep = False,
     c_superpriv = False, c_dumpable = True, c_nproc = 10, c_user = 0, c_security = 0\<rparr>"

definition sample_tasks :: "cred \<Rightarrow> tasklist" where
  "sample_tasks t = \<lparr>task_of = [100 \<mapsto> t], other_threads = \<lambda>_. [], pgrp_tasks = \<lambda>_. [100], all_threads = [100]\<rparr>"

definition sample_users :: users where
  "sample_users = \<lparr>uidhash = (\<lambda>_. [])(0 := [0]), u_count = \<lambda>_. 1, u_processes = \<lambda>_. 1\<rparr>"

lemma sample_hash: "uu_uidhashfn 0 = 0" "uu_uidhashfn 1000 = 235"
  by (simp_all add: uu_uidhashfn_def)

lemma sample_capable: "CAP_SETUID < 32" "CAP_SETPCAP < 32" "bit (0x1ff :: int) CAP_SETUID" "bit (0x1ff :: int) CAP_SETPCAP"
  by (simp_all add: CAP_SETUID_def CAP_SETPCAP_def bit_numeral_rec)

lemma sample_setuid: "fst (sys_setuid True 1000 \<lparr>cs_cur = sample_cred, cs_usr = sample_users\<rparr>) = Inr ()"
  by (simp add: sys_setuid_def Let_def capable_iff sample_cred_def sample_capable set_user_def alloc_uid_def alloc_uid_add_def
      uid_hash_find_def sample_users_def sample_hash uid_hash_insert_def split_beta set_cur_def)




text \<open>
  A task that runs a program set to uid 2000, first as its real user, then as 2000 again.
\<close>

definition sample_suid :: cred where
  "sample_suid = sample_cred\<lparr>c_uid := 1000, c_user := 1000, c_euid := 2000, c_suid := 2000, c_fsuid := 2000,
     c_permitted := 0, c_effective := 0\<rparr>"

lemma sample_call:
  "cred_step 100 (sample_tasks t, us)
     (sample_tasks (cs_cur (do_id_call c \<lparr>cs_cur = t, cs_usr = us\<rparr>)), cs_usr (do_id_call c \<lparr>cs_cur = t, cs_usr = us\<rparr>))"
  using cred_step.id [of "sample_tasks t" 100 t c us] by (simp add: sample_tasks_def)

lemma sample_switch:
  "do_id_call (Setresuid True (- 1) 1000 (- 1)) \<lparr>cs_cur = sample_suid, cs_usr = sample_users\<rparr> =
     \<lparr>cs_cur = sample_suid\<lparr>c_dumpable := False, c_euid := 1000, c_fsuid := 1000\<rparr>, cs_usr = sample_users\<rparr>"
  "do_id_call (Setuid True 2000)
     \<lparr>cs_cur = sample_suid\<lparr>c_dumpable := False, c_euid := 1000, c_fsuid := 1000\<rparr>, cs_usr = sample_users\<rparr> =
     \<lparr>cs_cur = sample_suid\<lparr>c_dumpable := False\<rparr>, cs_usr = sample_users\<rparr>"
  by (simp_all add: sys_setresuid_def sys_setuid_def Let_def capable_iff sample_suid_def sample_cred_def cap_raised_bit
      set_cur_def clear_dumpable_def cap_task_post_setuid.simps cap_emulate_setxuid_def)

theorem unprivileged_confined_witness:
  "(cred_step 100)\<^sup>*\<^sup>* (sample_tasks sample_suid, sample_users)
     (sample_tasks (sample_suid\<lparr>c_dumpable := False\<rparr>), sample_users) \<and>
   (\<exists>t'. task_of (sample_tasks (sample_suid\<lparr>c_dumpable := False\<rparr>)) 100 = Some t' \<and> c_permitted t' = 0 \<and>
      {c_uid t', c_euid t', c_suid t', c_fsuid t'} \<subseteq> {1000, 2000})"
proof
  let ?t = "sample_suid\<lparr>c_dumpable := False, c_euid := 1000, c_fsuid := 1000\<rparr>"
  have "cred_step 100 (sample_tasks sample_suid, sample_users) (sample_tasks ?t, sample_users)"
    using sample_call [of sample_suid sample_users "Setresuid True (- 1) 1000 (- 1)"] by (simp only: sample_switch csys.select_convs)
  moreover have "cred_step 100 (sample_tasks ?t, sample_users) (sample_tasks (sample_suid\<lparr>c_dumpable := False\<rparr>), sample_users)"
    using sample_call [of ?t sample_users "Setuid True 2000"] by (simp only: sample_switch csys.select_convs)
  ultimately show run: "(cred_step 100)\<^sup>*\<^sup>* (sample_tasks sample_suid, sample_users)
      (sample_tasks (sample_suid\<lparr>c_dumpable := False\<rparr>), sample_users)"
    by (simp add: rtranclp.rtrancl_into_rtrancl)
  have "cap_issubset x 0 \<Longrightarrow> x = 0" for x by (simp add: cap_issubset_def)
  with unprivileged_confined [OF run, of sample_suid]
  show "\<exists>t'. task_of (sample_tasks (sample_suid\<lparr>c_dumpable := False\<rparr>)) 100 = Some t' \<and> c_permitted t' = 0 \<and>
      {c_uid t', c_euid t', c_suid t', c_fsuid t'} \<subseteq> {1000, 2000}"
    by (simp add: sample_tasks_def sample_suid_def cap_raised_bit sample_capable)
qed

theorem setuid_drops_root_witness:
  "let c = snd (sys_setuid True 1000 \<lparr>cs_cur = sample_cred, cs_usr = sample_users\<rparr>);
       t' = cs_cur (do_id_call (Setuid True 0) c)
   in c_permitted t' = 0 \<and> c_uid t' = 1000 \<and> c_euid t' = 1000"
proof -
  let ?c = "snd (sys_setuid True 1000 \<lparr>cs_cur = sample_cred, cs_usr = sample_users\<rparr>)"
  have ok: "sys_setuid True 1000 \<lparr>cs_cur = sample_cred, cs_usr = sample_users\<rparr> = (Inr (), ?c)"
    using sample_setuid by (metis prod.collapse)
  have upd: "(sample_tasks sample_cred)\<lparr>task_of := (task_of (sample_tasks sample_cred))(100 \<mapsto> t)\<rparr> = sample_tasks t" for t
    by (simp add: sample_tasks_def)
  have eta: "\<lparr>cs_cur = cs_cur c, cs_usr = cs_usr c\<rparr> = c" for c :: csys by simp
  have "(cred_step 100)\<^sup>*\<^sup>* ((sample_tasks sample_cred)\<lparr>task_of := (task_of (sample_tasks sample_cred))(100 \<mapsto> cs_cur ?c)\<rparr>, cs_usr ?c)
      (sample_tasks (cs_cur (do_id_call (Setuid True 0) ?c)), cs_usr (do_id_call (Setuid True 0) ?c))"
    unfolding upd using sample_call [of "cs_cur ?c" "cs_usr ?c" "Setuid True 0", unfolded eta] by (rule r_into_rtranclp)
  from setuid_drops_root [OF _ _ _ _ _ ok this]
  show ?thesis by (simp add: sample_tasks_def sample_cred_def cap_raised_bit sample_capable)
qed

theorem capset_pgrp_no_effect_witness:
  "sys_capset \<lparr>h_version = Some LINUX_CAPABILITY_VERSION, h_writable = True, h_pid = Some (- 50)\<rparr>
     (Some (0, 0, 0)) 100 (sample_tasks sample_cred) =
   (None, sample_tasks (sample_cred\<lparr>c_superpriv := True\<rparr>))"
  using capset_pgrp_no_effect [of "\<lparr>h_version = Some LINUX_CAPABILITY_VERSION, h_writable = True, h_pid = Some (- 50)\<rparr>"
      50 "sample_tasks sample_cred" 100 sample_cred 0 0 0]
  by (simp add: cap_check_header_def cap_raised_bit) (simp add: sample_tasks_def sample_cred_def sample_capable)
end
