(* ===== verification/SuppGroups.thy ===== *)
theory SuppGroups
  imports Creds "HOL-Library.Multiset" "HOL-Library.Monad_Syntax"
begin

text \<open>
  Supplementary groups, from \<open>kernel/sys.c\<close> and \<open>include/linux/sched.h\<close>. A \<open>group_info\<close>
  is a reference-counted object that keeps its ids in blocks: the small block inside the
  object, or whole pages. The state holds the live objects by address, the number of pages
  in use and the tasks with the address of their \<open>group_info\<close>. An access outside the
  blocks, an access to an object that is not live and the release of a page that is not in
  use give \<open>None\<close>. A user array is a map from indices to ids; \<open>None\<close> is an address that
  faults. The \<open>int\<close> counters of the source stay between 0 and 65536 and are natural
  numbers, except \<open>left\<close> in \<open>groups_sort\<close>, which becomes negative.
\<close>

section \<open>Group objects\<close>

definition NGROUPS_SMALL :: nat where "NGROUPS_SMALL = 32"
definition NGROUPS_PER_BLOCK :: nat where "NGROUPS_PER_BLOCK = 1024"
definition NGROUPS_MAX :: nat where "NGROUPS_MAX = 65536"
definition PID_MAX_LIMIT :: nat where "PID_MAX_LIMIT = 32768"

text \<open>
  \<open>gi_small\<close> tells whether \<open>blocks[0]\<close> points to \<open>small_block\<close>; \<open>gi_blocks\<close> holds the
  contents of the blocks.
\<close>

record group_info =
  ngroups :: nat
  usage :: u32
  gi_small :: bool
  gi_blocks :: "u32 list list"

record gtask =
  gt_cred :: cred
  gt_info :: nat

record gsys =
  g_objs :: "nat \<rightharpoonup> group_info"
  g_pages :: nat
  g_tasks :: "nat \<rightharpoonup> gtask"

text \<open>\<open>init_groups\<close>, at address 0: no groups and no blocks.\<close>

definition init_groups :: group_info where
  "init_groups = \<lparr>ngroups = 0, usage = 2, gi_small = False, gi_blocks = []\<rparr>"

definition GROUP_AT :: "group_info \<Rightarrow> nat \<Rightarrow> u32 option" where
  "GROUP_AT gi i =
     (let b = i div NGROUPS_PER_BLOCK; k = i mod NGROUPS_PER_BLOCK in
      if b < length (gi_blocks gi) \<and> k < length (gi_blocks gi ! b)
      then Some (gi_blocks gi ! b ! k) else None)"

text \<open>The assignment \<open>GROUP_AT(gi, i) = v\<close>.\<close>

definition GROUP_SET :: "group_info \<Rightarrow> nat \<Rightarrow> u32 \<Rightarrow> group_info option" where
  "GROUP_SET gi i v =
     (let b = i div NGROUPS_PER_BLOCK; k = i mod NGROUPS_PER_BLOCK in
      if b < length (gi_blocks gi) \<and> k < length (gi_blocks gi ! b)
      then Some (gi\<lparr>gi_blocks := (gi_blocks gi)[b := (gi_blocks gi ! b)[k := v]]\<rparr>) else None)"

section \<open>Allocation and reference counts\<close>

text \<open>
  What the allocator answers: the address of the object, whether the i-th page is available,
  and the contents of fresh memory.
\<close>

record galloc =
  ga_obj :: "nat option"
  ga_page :: "nat \<Rightarrow> bool"
  ga_junk :: "nat \<Rightarrow> nat \<Rightarrow> u32"

definition groups_nblocks :: "nat \<Rightarrow> nat" where
  "groups_nblocks gidsetsize =
     (let nblocks = (gidsetsize + NGROUPS_PER_BLOCK - 1) div NGROUPS_PER_BLOCK in
      if nblocks = 0 then 1 else nblocks)"

text \<open>
  The loop over the pages: the blocks, or the index whose page is missing, and the number of
  pages in use.
\<close>

function groups_alloc_loop ::
  "galloc \<Rightarrow> nat \<Rightarrow> nat \<Rightarrow> u32 list list \<Rightarrow> nat \<Rightarrow> (nat + u32 list list) \<times> nat" where
  "groups_alloc_loop env i nblocks blocks pages =
     (if i < nblocks
      then if ga_page env i
           then groups_alloc_loop env (i + 1) nblocks
                  (blocks @ [map (ga_junk env i) [0..<NGROUPS_PER_BLOCK]]) (pages + 1)
           else (Inl i, pages)
      else (Inr blocks, pages))"
  by pat_completeness auto
termination
  by (relation "measure (\<lambda>(env, i, nblocks, blocks, pages). nblocks - i)") auto

definition free_pages :: "nat \<Rightarrow> gsys \<Rightarrow> gsys option" where
  "free_pages n s = (if n \<le> g_pages s then Some (s\<lparr>g_pages := g_pages s - n\<rparr>) else None)"

text \<open>The result is the address of the new object, or no address for \<open>NULL\<close>.\<close>

definition groups_alloc :: "galloc \<Rightarrow> nat \<Rightarrow> gsys \<Rightarrow> (nat option \<times> gsys) option" where
  "groups_alloc env gidsetsize s =
     (let nblocks = groups_nblocks gidsetsize in
      case ga_obj env of
        None \<Rightarrow> Some (None, s)
      | Some p \<Rightarrow>
          let gi = \<lparr>ngroups = gidsetsize, usage = 1, gi_small = (gidsetsize \<le> NGROUPS_SMALL),
                    gi_blocks = []\<rparr>
          in if gidsetsize \<le> NGROUPS_SMALL
             then let b = map (ga_junk env 0) [0..<NGROUPS_SMALL] in
                  Some (Some p, s\<lparr>g_objs := (g_objs s)(p \<mapsto> gi\<lparr>gi_blocks := [b]\<rparr>)\<rparr>)
             else case groups_alloc_loop env 0 nblocks [] (g_pages s) of
                    (Inr bs, pages) \<Rightarrow>
                      Some (Some p, s\<lparr>g_objs := (g_objs s)(p \<mapsto> gi\<lparr>gi_blocks := bs\<rparr>),
                                      g_pages := pages\<rparr>)
                  | (Inl i, pages) \<Rightarrow>
                      free_pages i (s\<lparr>g_pages := pages\<rparr>) \<bind> (\<lambda>s1. Some (None, s1)))"

text \<open>\<open>groups_free\<close> reads \<open>blocks[0]\<close>, which must exist.\<close>

definition groups_free :: "nat \<Rightarrow> gsys \<Rightarrow> gsys option" where
  "groups_free p s =
     (case g_objs s p of
        None \<Rightarrow> None
      | Some gi \<Rightarrow>
          if gi_blocks gi = [] then None
          else (if gi_small gi then Some s else free_pages (length (gi_blocks gi)) s)
               \<bind> (\<lambda>s1. Some (s1\<lparr>g_objs := (g_objs s1)(p := None)\<rparr>)))"

definition get_group_info :: "nat \<Rightarrow> gsys \<Rightarrow> gsys option" where
  "get_group_info p s =
     (case g_objs s p of
        None \<Rightarrow> None
      | Some gi \<Rightarrow> Some (s\<lparr>g_objs := (g_objs s)(p \<mapsto> gi\<lparr>usage := usage gi + 1\<rparr>)\<rparr>))"

definition put_group_info :: "nat \<Rightarrow> gsys \<Rightarrow> gsys option" where
  "put_group_info p s =
     (case g_objs s p of
        None \<Rightarrow> None
      | Some gi \<Rightarrow>
          let s1 = s\<lparr>g_objs := (g_objs s)(p \<mapsto> gi\<lparr>usage := usage gi - 1\<rparr>)\<rparr> in
          if usage gi - 1 = 0 then groups_free p s1 else Some s1)"

section \<open>User arrays\<close>

type_synonym 'a uarray = "nat \<rightharpoonup> 'a"

text \<open>\<open>copy_to_user\<close> and \<open>copy_from_user\<close> on arrays; they stop at the first fault.\<close>

fun copy_to_user :: "'a uarray \<Rightarrow> nat \<Rightarrow> 'a list \<Rightarrow> bool \<times> 'a uarray" where
  "copy_to_user u off [] = (True, u)"
| "copy_to_user u off (x # xs) =
     (if u off = None then (False, u) else copy_to_user (u(off \<mapsto> x)) (off + 1) xs)"

fun copy_from_user :: "'a uarray \<Rightarrow> nat \<Rightarrow> nat \<Rightarrow> 'a list option" where
  "copy_from_user u off 0 = Some []"
| "copy_from_user u off (Suc n) =
     (case u off of None \<Rightarrow> None | Some x \<Rightarrow> map_option ((#) x) (copy_from_user u (off + 1) n))"

text \<open>The loop of \<open>groups_to_user\<close> over the blocks from number \<open>i\<close> on.\<close>

fun groups_to_user_loop :: "u32 list list \<Rightarrow> nat \<Rightarrow> nat \<Rightarrow> u32 uarray \<Rightarrow> (errno option \<times> u32 uarray) option"
where
  "groups_to_user_loop [] i cnt u = Some (None, u)"
| "groups_to_user_loop (b # bs) i cnt u =
     (let cp_count = min NGROUPS_PER_BLOCK cnt; off = i * NGROUPS_PER_BLOCK in
      if length b < cp_count then None
      else case copy_to_user u off (take cp_count b) of
             (False, u1) \<Rightarrow> Some (Some EFAULT, u1)
           | (True, u1) \<Rightarrow> groups_to_user_loop bs (i + 1) (cnt - cp_count) u1)"

definition groups_to_user :: "group_info \<Rightarrow> u32 uarray \<Rightarrow> (errno option \<times> u32 uarray) option" where
  "groups_to_user gi grouplist = groups_to_user_loop (gi_blocks gi) 0 (ngroups gi) grouplist"

text \<open>
  \<open>groups_from_user\<close> yields the filled object. After a fault its caller drops the object,
  whose contents are then of no interest.
\<close>

fun groups_from_user_loop ::
  "u32 list list \<Rightarrow> nat \<Rightarrow> nat \<Rightarrow> u32 uarray \<Rightarrow> (errno + u32 list list) option"
where
  "groups_from_user_loop [] i cnt u = Some (Inr [])"
| "groups_from_user_loop (b # bs) i cnt u =
     (let cp_count = min NGROUPS_PER_BLOCK cnt; off = i * NGROUPS_PER_BLOCK in
      if length b < cp_count then None
      else case copy_from_user u off cp_count of
             None \<Rightarrow> Some (Inl EFAULT)
           | Some xs \<Rightarrow>
               groups_from_user_loop bs (i + 1) (cnt - cp_count) u \<bind>
               (\<lambda>r. Some (map_sum id ((#) (xs @ drop cp_count b)) r)))"

definition groups_from_user :: "group_info \<Rightarrow> u32 uarray \<Rightarrow> (errno + group_info) option" where
  "groups_from_user gi grouplist =
     map_option (map_sum id (\<lambda>bs. gi\<lparr>gi_blocks := bs\<rparr>))
       (groups_from_user_loop (gi_blocks gi) 0 (ngroups gi) grouplist)"

section \<open>Sorting and searching\<close>

function groups_sort_stride :: "nat \<Rightarrow> nat \<Rightarrow> nat" where
  "groups_sort_stride stride gidsetsize =
     (if stride < gidsetsize then groups_sort_stride (3 * stride + 1) gidsetsize else stride)"
  by pat_completeness auto
termination
  by (relation "measure (\<lambda>(stride, gidsetsize). gidsetsize - stride)") auto

text \<open>
  The innermost loop shifts larger elements up by \<open>stride\<close>; it yields the object and the
  final \<open>right\<close>. With \<open>stride = 0\<close> it would not return.
\<close>

partial_function (option) groups_sort_shift ::
  "nat \<Rightarrow> u32 \<Rightarrow> int \<Rightarrow> nat \<Rightarrow> group_info \<Rightarrow> (group_info \<times> nat) option" where
  "groups_sort_shift stride tmp left right gi =
     (if 0 \<le> left
      then GROUP_AT gi (nat left) \<bind> (\<lambda>v.
             if tmp < v
             then GROUP_SET gi right v \<bind>
                  groups_sort_shift stride tmp (left - int stride) (nat left)
             else Some (gi, right))
      else Some (gi, right))"

definition groups_sort_insert :: "nat \<Rightarrow> nat \<Rightarrow> group_info \<Rightarrow> group_info option" where
  "groups_sort_insert stride base gi =
     GROUP_AT gi (base + stride) \<bind> (\<lambda>tmp.
     groups_sort_shift stride tmp (int base) (base + stride) gi \<bind> (\<lambda>(gi1, right).
     GROUP_SET gi1 right tmp))"

function groups_sort_pass :: "nat \<Rightarrow> nat \<Rightarrow> nat \<Rightarrow> group_info \<Rightarrow> group_info option" where
  "groups_sort_pass stride base lim gi =
     (if base < lim
      then groups_sort_insert stride base gi \<bind> groups_sort_pass stride (base + 1) lim
      else Some gi)"
  by pat_completeness auto
termination
  by (relation "measure (\<lambda>(stride, base, lim, gi). lim - base)") auto

function groups_sort_loop :: "nat \<Rightarrow> nat \<Rightarrow> group_info \<Rightarrow> group_info option" where
  "groups_sort_loop stride gidsetsize gi =
     (if stride \<noteq> 0
      then groups_sort_pass stride 0 (gidsetsize - stride) gi \<bind>
           groups_sort_loop (stride div 3) gidsetsize
      else Some gi)"
  by pat_completeness auto
termination
  by (relation "measure (\<lambda>(stride, gidsetsize, gi). stride)") auto

definition groups_sort :: "group_info \<Rightarrow> group_info option" where
  "groups_sort gi =
     groups_sort_loop (groups_sort_stride 1 (ngroups gi) div 3) (ngroups gi) gi"

text \<open>\<open>cmp\<close> is a signed \<open>int\<close>, the ids are unsigned.\<close>

function groups_search_loop :: "group_info \<Rightarrow> u32 \<Rightarrow> nat \<Rightarrow> nat \<Rightarrow> bool option" where
  "groups_search_loop gi grp left right =
     (if left < right
      then let mid = (left + right) div 2 in
           case GROUP_AT gi mid of
             None \<Rightarrow> None
           | Some v \<Rightarrow>
               let cmp = sint (grp - v) in
               if cmp > 0 then groups_search_loop gi grp (mid + 1) right
               else if cmp < 0 then groups_search_loop gi grp left mid
               else Some True
      else Some False)"
  by pat_completeness auto
termination
  by (relation "measure (\<lambda>(gi, grp, left, right). right - left)") auto

definition groups_search :: "group_info \<Rightarrow> u32 \<Rightarrow> bool option" where
  "groups_search gi grp = groups_search_loop gi grp 0 (ngroups gi)"

declare groups_alloc_loop.simps [simp del] groups_sort_stride.simps [simp del]
  groups_sort_pass.simps [simp del] groups_sort_loop.simps [simp del]
  groups_search_loop.simps [simp del]

section \<open>System calls\<close>

text \<open>The hook \<open>task_setgroups\<close> is the one of \<open>security/dummy.c\<close>.\<close>

definition security_task_setgroups :: "group_info \<Rightarrow> errno option" where
  "security_task_setgroups gi = None"

text \<open>\<open>set_current_groups\<close> for the task \<open>cur\<close> and the object at \<open>p\<close>.\<close>

definition set_current_groups :: "nat \<Rightarrow> nat \<Rightarrow> gsys \<Rightarrow> (errno option \<times> gsys) option" where
  "set_current_groups cur p s =
     g_objs s p \<bind> (\<lambda>gi.
     case security_task_setgroups gi of
       Some e \<Rightarrow> Some (Some e, s)
     | None \<Rightarrow>
         groups_sort gi \<bind> (\<lambda>gi1.
         get_group_info p (s\<lparr>g_objs := (g_objs s)(p \<mapsto> gi1)\<rparr>) \<bind> (\<lambda>s1.
         g_tasks s1 cur \<bind> (\<lambda>t.
         put_group_info (gt_info t) (s1\<lparr>g_tasks := (g_tasks s1)(cur \<mapsto> t\<lparr>gt_info := p\<rparr>)\<rparr>) \<bind> (\<lambda>s2.
         Some (None, s2))))))"

text \<open>
  The bodies that \<open>sys_getgroups\<close> and \<open>sys_setgroups\<close> share with their 16-bit variants; the
  first argument copies the ids to or from user space.
\<close>

definition getgroups_with ::
  "(group_info \<Rightarrow> 'a uarray \<Rightarrow> (errno option \<times> 'a uarray) option) \<Rightarrow> nat \<Rightarrow> u32 \<Rightarrow> 'a uarray \<Rightarrow> gsys
    \<Rightarrow> ((errno + nat) \<times> 'a uarray \<times> gsys) option" where
  "getgroups_with to_user cur gidsetsize grouplist s =
     (if gidsetsize <s 0 then Some (Inl EINVAL, grouplist, s)
      else g_tasks s cur \<bind> (\<lambda>t.
           get_group_info (gt_info t) s \<bind> (\<lambda>s1.
           g_objs s1 (gt_info t) \<bind> (\<lambda>gi.
           (if gidsetsize = 0 then Some (Inr (ngroups gi), grouplist)
            else if sint gidsetsize < int (ngroups gi) then Some (Inl EINVAL, grouplist)
            else to_user gi grouplist \<bind> (\<lambda>(r, u).
                 Some (case r of None \<Rightarrow> Inr (ngroups gi) | Some e \<Rightarrow> Inl EFAULT, u)))
           \<bind> (\<lambda>(r, u). put_group_info (gt_info t) s1 \<bind> (\<lambda>s2. Some (r, u, s2)))))))"

definition setgroups_with ::
  "(group_info \<Rightarrow> 'a uarray \<Rightarrow> (errno + group_info) option) \<Rightarrow> galloc \<Rightarrow> nat \<Rightarrow> u32 \<Rightarrow> 'a uarray \<Rightarrow> gsys
    \<Rightarrow> (errno option \<times> gsys) option" where
  "setgroups_with from_user env cur gidsetsize grouplist s =
     g_tasks s cur \<bind> (\<lambda>t.
     let (ok, c) = capable CAP_SETGID (gt_cred t);
         s1 = s\<lparr>g_tasks := (g_tasks s)(cur \<mapsto> t\<lparr>gt_cred := c\<rparr>)\<rparr>
     in if \<not> ok then Some (Some EPERM, s1)
        else if NGROUPS_MAX < unat gidsetsize then Some (Some EINVAL, s1)
        else groups_alloc env (unat gidsetsize) s1 \<bind> (\<lambda>(r, s2).
             case r of
               None \<Rightarrow> Some (Some ENOMEM, s2)
             | Some p \<Rightarrow>
                 g_objs s2 p \<bind> (\<lambda>gi.
                 from_user gi grouplist \<bind> (\<lambda>r.
                 case r of
                   Inl e \<Rightarrow> put_group_info p s2 \<bind> (\<lambda>s3. Some (Some e, s3))
                 | Inr gi1 \<Rightarrow>
                     set_current_groups cur p (s2\<lparr>g_objs := (g_objs s2)(p \<mapsto> gi1)\<rparr>) \<bind> (\<lambda>(r, s3).
                     put_group_info p s3 \<bind> (\<lambda>s4. Some (r, s4)))))))"

definition sys_getgroups ::
  "nat \<Rightarrow> u32 \<Rightarrow> u32 uarray \<Rightarrow> gsys \<Rightarrow> ((errno + nat) \<times> u32 uarray \<times> gsys) option" where
  "sys_getgroups = getgroups_with groups_to_user"

definition sys_setgroups ::
  "galloc \<Rightarrow> nat \<Rightarrow> u32 \<Rightarrow> u32 uarray \<Rightarrow> gsys \<Rightarrow> (errno option \<times> gsys) option" where
  "sys_setgroups = setgroups_with groups_from_user"

definition in_group_p :: "nat \<Rightarrow> u32 \<Rightarrow> gsys \<Rightarrow> (bool \<times> gsys) option" where
  "in_group_p cur grp s =
     g_tasks s cur \<bind> (\<lambda>t.
     if grp \<noteq> c_fsgid (gt_cred t)
     then get_group_info (gt_info t) s \<bind> (\<lambda>s1.
          g_objs s1 (gt_info t) \<bind> (\<lambda>gi.
          groups_search gi grp \<bind> (\<lambda>retval.
          put_group_info (gt_info t) s1 \<bind> (\<lambda>s2. Some (retval, s2)))))
     else Some (True, s))"

definition in_egroup_p :: "nat \<Rightarrow> u32 \<Rightarrow> gsys \<Rightarrow> (bool \<times> gsys) option" where
  "in_egroup_p cur grp s =
     g_tasks s cur \<bind> (\<lambda>t.
     if grp \<noteq> c_egid (gt_cred t)
     then get_group_info (gt_info t) s \<bind> (\<lambda>s1.
          g_objs s1 (gt_info t) \<bind> (\<lambda>gi.
          groups_search gi grp \<bind> (\<lambda>retval.
          put_group_info (gt_info t) s1 \<bind> (\<lambda>s2. Some (retval, s2)))))
     else Some (True, s))"

section \<open>The 16-bit variants\<close>

type_synonym old_gid_t = u16

text \<open>\<open>overflowgid\<close> is a sysctl variable; it has its default value.\<close>

definition overflowgid :: u32 where "overflowgid = 65534"

definition low2highgid :: "old_gid_t \<Rightarrow> u32" where
  "low2highgid gid = (if gid = - 1 then - 1 else ucast gid)"

definition high2lowgid :: "u32 \<Rightarrow> old_gid_t" where
  "high2lowgid gid = (if gid AND NOT 0xFFFF \<noteq> 0 then ucast overflowgid else ucast gid)"

function groups16_to_user_loop ::
  "group_info \<Rightarrow> nat \<Rightarrow> old_gid_t uarray \<Rightarrow> (errno option \<times> old_gid_t uarray) option" where
  "groups16_to_user_loop gi i u =
     (if i < ngroups gi
      then GROUP_AT gi i \<bind> (\<lambda>v.
           if u i = None then Some (Some EFAULT, u)
           else groups16_to_user_loop gi (i + 1) (u(i \<mapsto> high2lowgid v)))
      else Some (None, u))"
  by pat_completeness auto
termination
  by (relation "measure (\<lambda>(gi, i, u). ngroups gi - i)") auto

definition groups16_to_user ::
  "group_info \<Rightarrow> old_gid_t uarray \<Rightarrow> (errno option \<times> old_gid_t uarray) option" where
  "groups16_to_user gi grouplist = groups16_to_user_loop gi 0 grouplist"

function groups16_from_user_loop ::
  "nat \<Rightarrow> nat \<Rightarrow> group_info \<Rightarrow> old_gid_t uarray \<Rightarrow> (errno + group_info) option" where
  "groups16_from_user_loop i n gi u =
     (if i < n
      then case u i of
             None \<Rightarrow> Some (Inl EFAULT)
           | Some grp \<Rightarrow>
               GROUP_SET gi i (low2highgid grp) \<bind> (\<lambda>gi1. groups16_from_user_loop (i + 1) n gi1 u)
      else Some (Inr gi))"
  by pat_completeness auto
termination
  by (relation "measure (\<lambda>(i, n, gi, u). n - i)") auto

definition groups16_from_user :: "group_info \<Rightarrow> old_gid_t uarray \<Rightarrow> (errno + group_info) option" where
  "groups16_from_user gi grouplist = groups16_from_user_loop 0 (ngroups gi) gi grouplist"

definition sys_getgroups16 ::
  "nat \<Rightarrow> u32 \<Rightarrow> old_gid_t uarray \<Rightarrow> gsys \<Rightarrow> ((errno + nat) \<times> old_gid_t uarray \<times> gsys) option" where
  "sys_getgroups16 = getgroups_with groups16_to_user"

definition sys_setgroups16 ::
  "galloc \<Rightarrow> nat \<Rightarrow> u32 \<Rightarrow> old_gid_t uarray \<Rightarrow> gsys \<Rightarrow> (errno option \<times> gsys) option" where
  "sys_setgroups16 = setgroups_with groups16_from_user"

declare groups16_to_user_loop.simps [simp del] groups16_from_user_loop.simps [simp del]

section \<open>Fork and exit\<close>

text \<open>
  The part of \<open>copy_process\<close> and \<open>__put_task_struct\<close> that concerns groups: a child shares the
  object of its parent, a dead task releases it. The task array has room for
  \<open>PID_MAX_LIMIT\<close> tasks.
\<close>

definition fork_groups :: "nat \<Rightarrow> nat \<Rightarrow> gsys \<Rightarrow> gsys option" where
  "fork_groups cur child s =
     g_tasks s cur \<bind> (\<lambda>t.
     get_group_info (gt_info t) s \<bind> (\<lambda>s1.
     Some (s1\<lparr>g_tasks := (g_tasks s1)(child \<mapsto> t)\<rparr>)))"

definition put_task_groups :: "nat \<Rightarrow> gsys \<Rightarrow> gsys option" where
  "put_task_groups cur s =
     g_tasks s cur \<bind> (\<lambda>t.
     put_group_info (gt_info t) (s\<lparr>g_tasks := (g_tasks s)(cur := None)\<rparr>))"

section \<open>Blocks as one array\<close>

text \<open>
  The blocks hold \<open>n\<close> ids: all blocks but the last are full, and the last one has room for
  the rest.
\<close>

fun blocks_ok :: "u32 list list \<Rightarrow> nat \<Rightarrow> bool" where
  "blocks_ok [] n \<longleftrightarrow> n = 0"
| "blocks_ok (b # bs) n \<longleftrightarrow>
     min NGROUPS_PER_BLOCK n \<le> length b \<and> length b \<le> NGROUPS_PER_BLOCK \<and>
     (bs \<noteq> [] \<longrightarrow> length b = NGROUPS_PER_BLOCK) \<and> blocks_ok bs (n - min NGROUPS_PER_BLOCK n)"

definition gi_ok :: "group_info \<Rightarrow> bool" where
  "gi_ok gi = blocks_ok (gi_blocks gi) (ngroups gi)"

text \<open>The list of ids an object denotes.\<close>

definition gids :: "group_info \<Rightarrow> u32 list" where
  "gids gi = take (ngroups gi) (concat (gi_blocks gi))"

lemma blocks_ok_length: "blocks_ok bs n \<Longrightarrow> n \<le> length (concat bs)"
  by (induction bs n rule: blocks_ok.induct) (auto simp: min_def split: if_splits)

lemma length_gids [simp]: "gi_ok gi \<Longrightarrow> length (gids gi) = ngroups gi"
  by (simp add: gi_ok_def gids_def blocks_ok_length)

lemma blocks_ok_cong: "map length bs = map length bs' \<Longrightarrow> blocks_ok bs n = blocks_ok bs' n"
proof (induction bs n arbitrary: bs' rule: blocks_ok.induct)
  case (2 b bs n)
  then obtain b' cs where cs: "bs' = b' # cs" "length b' = length b" "map length bs = map length cs"
    by (cases bs') simp_all
  then have "(bs = []) = (cs = [])"
    by (metis map_is_Nil_conv)
  then show ?case
    using 2(1) [OF cs(3)] cs(1,2) by (simp del: map_eq_conv)
qed simp

lemma blocks_at:
  assumes "blocks_ok bs n" "i < n"
  defines "q \<equiv> i div NGROUPS_PER_BLOCK" and "k \<equiv> i mod NGROUPS_PER_BLOCK"
  shows "q < length bs \<and> k < length (bs ! q) \<and> bs ! q ! k = concat bs ! i \<and>
    concat (bs[q := (bs ! q)[k := v]]) = (concat bs)[i := v]"
  using assms(1,2) unfolding q_def k_def
proof (induction bs n arbitrary: i rule: blocks_ok.induct)
  case (2 b bs n)
  show ?case
  proof (cases "i < NGROUPS_PER_BLOCK")
    case True
    then show ?thesis
      using 2(2,3) by (auto simp: nth_append list_update_append)
  next
    case False
    then have n: "NGROUPS_PER_BLOCK < n" and "bs \<noteq> []"
      using 2(2,3) by auto
    then have b: "length b = NGROUPS_PER_BLOCK" and "blocks_ok bs (n - NGROUPS_PER_BLOCK)"
      using 2(2) by auto
    moreover obtain j where j: "i = NGROUPS_PER_BLOCK + j"
      using False by (meson le_Suc_ex not_less)
    moreover have "j < n - NGROUPS_PER_BLOCK"
      using 2(3) j by linarith
    moreover have "(NGROUPS_PER_BLOCK + j) div NGROUPS_PER_BLOCK = Suc (j div NGROUPS_PER_BLOCK)"
      "(NGROUPS_PER_BLOCK + j) mod NGROUPS_PER_BLOCK = j mod NGROUPS_PER_BLOCK"
      by (simp_all add: NGROUPS_PER_BLOCK_def)
    ultimately show ?thesis
      using 2(1) [of j] n by (simp add: nth_append list_update_append)
  qed
qed simp

lemma GROUP_AT_gids: "gi_ok gi \<Longrightarrow> i < ngroups gi \<Longrightarrow> GROUP_AT gi i = Some (gids gi ! i)"
  using blocks_at [of "gi_blocks gi" "ngroups gi" i]
  by (simp add: gi_ok_def gids_def GROUP_AT_def Let_def)

text \<open>Two objects that differ only in the ids they hold.\<close>

definition same_shape :: "group_info \<Rightarrow> group_info \<Rightarrow> bool" where
  "same_shape gi gi' \<longleftrightarrow>
     ngroups gi' = ngroups gi \<and> usage gi' = usage gi \<and> gi_small gi' = gi_small gi \<and>
     map length (gi_blocks gi') = map length (gi_blocks gi)"

lemma same_shape_refl [simp]: "same_shape gi gi"
  and same_shape_trans: "same_shape a b \<Longrightarrow> same_shape b c \<Longrightarrow> same_shape a c"
  by (simp_all add: same_shape_def)

lemma same_shape_ok: "same_shape gi gi' \<Longrightarrow> gi_ok gi' = gi_ok gi"
  by (simp add: same_shape_def gi_ok_def blocks_ok_cong [of "gi_blocks gi'" "gi_blocks gi"])

lemma same_shape_ngroups: "same_shape gi gi' \<Longrightarrow> ngroups gi' = ngroups gi"
  by (simp add: same_shape_def)

lemma GROUP_SET_gids:
  assumes "gi_ok gi" "i < ngroups gi"
  obtains gi' where "GROUP_SET gi i v = Some gi'" "same_shape gi gi'" "gids gi' = (gids gi)[i := v]"
proof -
  let ?q = "i div NGROUPS_PER_BLOCK" and ?k = "i mod NGROUPS_PER_BLOCK"
  let ?gi = "gi\<lparr>gi_blocks := (gi_blocks gi)[?q := (gi_blocks gi ! ?q)[?k := v]]\<rparr>"
  note at = blocks_at [of "gi_blocks gi" "ngroups gi" i, OF assms [unfolded gi_ok_def]]
  have "GROUP_SET gi i v = Some ?gi"
    using at by (simp add: GROUP_SET_def Let_def)
  moreover have "same_shape gi ?gi"
    by (simp add: same_shape_def map_update [symmetric] list_update_id map_update)
  moreover have "gids ?gi = (gids gi)[i := v]"
    using at by (simp add: gids_def take_update_swap)
  ultimately show thesis
    by (rule that)
qed

section \<open>The shell sort\<close>

lemma mset_move_hole:
  assumes "l < length xs" "r < length xs" "l \<noteq> r"
  shows "mset ((xs[r := xs ! l])[l := t]) = mset (xs[r := t])"
  using mset_swap [of r "xs[r := t]" l] assms by (simp add: list_update_swap)

lemma groups_sort_shift_perm:
  assumes "gi_ok gi" "0 < stride" "left < int right" "right < ngroups gi"
  shows "\<exists>gi' r. groups_sort_shift stride tmp left right gi = Some (gi', r) \<and> same_shape gi gi' \<and>
    r < ngroups gi \<and> mset ((gids gi')[r := tmp]) = mset ((gids gi)[right := tmp])"
  using assms
proof (induction "nat (left + 1)" arbitrary: left right gi rule: less_induct)
  case less
  show ?case
  proof (cases "0 \<le> left \<and> tmp < gids gi ! nat left")
    case True
    then have l: "nat left < ngroups gi" "nat left \<noteq> right"
      using less.prems by linarith+
    obtain gi1 where gi1: "GROUP_SET gi right (gids gi ! nat left) = Some gi1" "same_shape gi gi1"
      "gids gi1 = (gids gi)[right := gids gi ! nat left]"
      using GROUP_SET_gids [OF less.prems(1,4)] by metis
    have shape: "gi_ok gi1" "ngroups gi1 = ngroups gi"
      using gi1(2) less.prems(1) same_shape_ok same_shape_ngroups by auto
    obtain gi' r where "groups_sort_shift stride tmp (left - int stride) (nat left) gi1 = Some (gi', r)"
      "same_shape gi1 gi'" "r < ngroups gi"
      "mset ((gids gi')[r := tmp]) = mset ((gids gi1)[nat left := tmp])"
      using less.hyps [of "left - int stride" gi1 "nat left"] less.prems True shape l(1) by auto
    then show ?thesis
      using True l gi1 less.prems same_shape_trans [OF gi1(2)]
        mset_move_hole [of "nat left" "gids gi" right tmp]
      by (subst groups_sort_shift.simps) (simp add: GROUP_AT_gids)
  next
    case False
    then show ?thesis
      using less.prems by (subst groups_sort_shift.simps) (auto simp: GROUP_AT_gids)
  qed
qed

text \<open>Sorted up to index \<open>m\<close>, with the value \<open>t\<close> to go into the hole at \<open>r\<close>.\<close>

definition hole_sorted :: "u32 list \<Rightarrow> nat \<Rightarrow> u32 \<Rightarrow> nat \<Rightarrow> bool" where
  "hole_sorted xs r t m \<longleftrightarrow>
     (\<forall>i j. i < j \<and> j \<le> m \<and> i \<noteq> r \<and> j \<noteq> r \<longrightarrow> xs ! i \<le> xs ! j) \<and> (\<forall>j. r < j \<and> j \<le> m \<longrightarrow> t \<le> xs ! j)"

lemma hole_sorted_step:
  assumes "hole_sorted xs (Suc r) t m" "t < xs ! r" "Suc r < length xs"
  shows "hole_sorted (xs[Suc r := xs ! r]) r t m"
  using assms unfolding hole_sorted_def
  by (auto simp: nth_list_update)

lemma hole_sorted_done:
  assumes "hole_sorted xs r t m" "r \<le> m" "m < length xs" "r = 0 \<or> xs ! (r - 1) \<le> t"
  shows "sorted (take (Suc m) (xs[r := t]))"
  unfolding sorted_iff_nth_mono_less
proof (intro allI impI)
  fix i j assume ij: "i < j" "j < length (take (Suc m) (xs[r := t]))"
  have "xs ! i \<le> t" if "i < r"
  proof (cases "i = r - 1")
    case False
    then have "i < r - 1 \<and> r - 1 \<le> m \<and> i \<noteq> r \<and> r - 1 \<noteq> r"
      using assms(2) that by linarith
    then have "xs ! i \<le> xs ! (r - 1)"
      using assms(1) unfolding hole_sorted_def by blast
    then show ?thesis
      using assms(4) that by auto
  qed (use assms(4) that in auto)
  then show "take (Suc m) (xs[r := t]) ! i \<le> take (Suc m) (xs[r := t]) ! j"
    using assms(1,3) ij unfolding hole_sorted_def by (cases "i = r"; cases "j = r") simp_all
qed

lemma groups_sort_shift_sorted:
  assumes "gi_ok gi" "right \<le> m" "m < ngroups gi" "hole_sorted (gids gi) right tmp m"
  shows "\<exists>gi' r. groups_sort_shift 1 tmp (int right - 1) right gi = Some (gi', r) \<and>
    sorted (take (Suc m) ((gids gi')[r := tmp]))"
  using assms
proof (induction right arbitrary: gi)
  case 0
  then show ?case
    using hole_sorted_done [of "gids gi" 0 tmp m] by (subst groups_sort_shift.simps) simp
next
  case (Suc l)
  show ?case
  proof (cases "tmp < gids gi ! l")
    case True
    obtain gi1 where gi1: "GROUP_SET gi (Suc l) (gids gi ! l) = Some gi1" "same_shape gi gi1"
      "gids gi1 = (gids gi)[Suc l := gids gi ! l]"
      using GROUP_SET_gids [of gi "Suc l" "gids gi ! l"] Suc.prems by (metis le_less_trans)
    have "gi_ok gi1" "ngroups gi1 = ngroups gi"
      using gi1(2) Suc.prems(1) same_shape_ok same_shape_ngroups by auto
    moreover have "hole_sorted (gids gi1) l tmp m"
      using hole_sorted_step [OF Suc.prems(4) True] Suc.prems gi1(3) by simp
    ultimately show ?thesis
      using Suc.IH [of gi1] Suc.prems True gi1(1)
      by (subst groups_sort_shift.simps) (simp add: GROUP_AT_gids)
  next
    case False
    then show ?thesis
      using hole_sorted_done [OF Suc.prems(4,2)] Suc.prems
      by (subst groups_sort_shift.simps) (simp add: GROUP_AT_gids)
  qed
qed

definition resorted :: "group_info \<Rightarrow> group_info \<Rightarrow> bool" where
  "resorted gi gi' \<longleftrightarrow> same_shape gi gi' \<and> mset (gids gi') = mset (gids gi)"

lemma resorted_refl [simp]: "resorted gi gi"
  and resorted_trans: "resorted a b \<Longrightarrow> resorted b c \<Longrightarrow> resorted a c"
  by (auto simp: resorted_def intro: same_shape_trans)

lemma resorted_ok: "resorted gi gi' \<Longrightarrow> gi_ok gi' = gi_ok gi"
  and resorted_ngroups: "resorted gi gi' \<Longrightarrow> ngroups gi' = ngroups gi"
  by (simp_all add: resorted_def same_shape_ok same_shape_ngroups)

lemma groups_sort_insert_split:
  assumes "gi_ok gi" "base + stride < ngroups gi" "r < ngroups gi" "same_shape gi gi1"
    "groups_sort_shift stride (gids gi ! (base + stride)) (int base) (base + stride) gi = Some (gi1, r)"
  obtains gi' where "groups_sort_insert stride base gi = Some gi'" "same_shape gi gi'"
    "gids gi' = (gids gi1)[r := gids gi ! (base + stride)]"
proof -
  have "gi_ok gi1" "r < ngroups gi1"
    using assms same_shape_ok same_shape_ngroups by auto
  then obtain gi' where "GROUP_SET gi1 r (gids gi ! (base + stride)) = Some gi'" "same_shape gi1 gi'"
    "gids gi' = (gids gi1)[r := gids gi ! (base + stride)]"
    by (rule GROUP_SET_gids)
  then show thesis
    using that assms same_shape_trans [OF assms(4)]
    by (simp add: groups_sort_insert_def GROUP_AT_gids)
qed

lemma groups_sort_insert_resorts:
  assumes "gi_ok gi" "0 < stride" "base + stride < ngroups gi"
  shows "\<exists>gi'. groups_sort_insert stride base gi = Some gi' \<and> resorted gi gi'"
proof -
  obtain gi1 r where "groups_sort_shift stride (gids gi ! (base + stride)) (int base) (base + stride) gi
      = Some (gi1, r)" and sh: "same_shape gi gi1" "r < ngroups gi"
    and perm: "mset ((gids gi1)[r := gids gi ! (base + stride)]) = mset (gids gi)"
    using groups_sort_shift_perm [OF assms(1,2), of "int base" "base + stride" "gids gi ! (base + stride)"]
      assms by auto
  then show ?thesis
    using groups_sort_insert_split [OF assms(1,3) sh(2,1)] by (metis resorted_def)
qed

lemma groups_sort_insert_sorts:
  assumes "gi_ok gi" "Suc base < ngroups gi" "sorted (take (Suc base) (gids gi))"
  shows "\<exists>gi'. groups_sort_insert 1 base gi = Some gi' \<and> sorted (take (Suc (Suc base)) (gids gi'))"
proof -
  let ?tmp = "gids gi ! (base + 1)"
  have len: "length (take (Suc base) (gids gi)) = Suc base"
    using assms by simp
  have "hole_sorted (gids gi) (base + 1) ?tmp (base + 1)"
    using assms(3) len unfolding hole_sorted_def sorted_iff_nth_mono_less by auto
  then obtain gi1 r where *: "groups_sort_shift 1 ?tmp (int base) (base + 1) gi = Some (gi1, r)"
    "sorted (take (Suc (Suc base)) ((gids gi1)[r := ?tmp]))"
    using groups_sort_shift_sorted [of gi "base + 1" "base + 1" ?tmp] assms by auto
  moreover have "same_shape gi gi1" "r < ngroups gi"
    using groups_sort_shift_perm [OF assms(1), of 1 "int base" "base + 1" ?tmp] assms(2) *(1) by auto
  ultimately show ?thesis
    using groups_sort_insert_split [OF assms(1), of base 1 r gi1] assms(2) by (metis Suc_eq_plus1)
qed

lemma groups_sort_pass_resorts:
  assumes "gi_ok gi" "0 < stride" "stride + lim \<le> ngroups gi"
  shows "\<exists>gi'. groups_sort_pass stride base lim gi = Some gi' \<and> resorted gi gi'"
  using assms
proof (induction stride base lim gi rule: groups_sort_pass.induct)
  case (1 stride base lim gi)
  show ?case
  proof (cases "base < lim")
    case True
    then obtain gi1 where gi1: "groups_sort_insert stride base gi = Some gi1" "resorted gi gi1"
      using groups_sort_insert_resorts [of gi stride base] "1.prems" by auto
    then show ?thesis
      using "1.IH" [OF True] "1.prems" True resorted_ok [OF gi1(2)] resorted_ngroups [OF gi1(2)]
        resorted_trans [OF gi1(2)]
      by (subst groups_sort_pass.simps) auto
  qed (simp add: groups_sort_pass.simps [of stride base lim])
qed

lemma groups_sort_pass_sorts:
  assumes "gi_ok gi" "Suc lim = ngroups gi" "base \<le> lim" "sorted (take (Suc base) (gids gi))"
    "groups_sort_pass 1 base lim gi = Some gi'"
  shows "sorted (gids gi')"
  using assms
proof (induction "1::nat" base lim gi rule: groups_sort_pass.induct)
  case (1 base lim gi)
  show ?case
  proof (cases "base < lim")
    case True
    then obtain gi1 where gi1: "groups_sort_insert 1 base gi = Some gi1"
      "sorted (take (Suc (Suc base)) (gids gi1))"
      using groups_sort_insert_sorts [of gi base] "1.prems" by auto
    moreover have "resorted gi gi1"
      using groups_sort_insert_resorts [of gi 1 base] "1.prems" True gi1(1) by auto
    moreover have "groups_sort_pass 1 (base + 1) lim gi1 = Some gi'"
      using "1.prems"(5) True gi1(1) by (subst (asm) groups_sort_pass.simps) simp
    ultimately show ?thesis
      using "1.hyps" [OF True, of gi1] "1.prems" True
      by (auto simp: resorted_ok resorted_ngroups)
  next
    case False
    then show ?thesis
      using "1.prems" by (simp add: groups_sort_pass.simps [of _ lim lim])
  qed
qed

text \<open>The strides 0, 1, 4, 13, ...: the first loop stops at one of them.\<close>

fun shell_stride :: "nat \<Rightarrow> nat" where
  "shell_stride 0 = 0"
| "shell_stride (Suc k) = 3 * shell_stride k + 1"

lemma shell_stride_pred: "shell_stride (Suc k) div 3 = shell_stride k"
  by simp

lemma groups_sort_stride_shell:
  assumes "k = 0 \<or> shell_stride k < n"
  shows "\<exists>j. groups_sort_stride (shell_stride (Suc k)) n div 3 = shell_stride j \<and> k \<le> j \<and>
    (j = 0 \<or> shell_stride j < n) \<and> (shell_stride (Suc k) < n \<longrightarrow> 0 < j)"
  using assms
proof (induction "n - shell_stride (Suc k)" arbitrary: k rule: less_induct)
  case less
  show ?case
  proof (cases "shell_stride (Suc k) < n")
    case True
    then have "n - shell_stride (Suc (Suc k)) < n - shell_stride (Suc k)"
      by simp
    from less.hyps [OF this] True show ?thesis
      by (subst groups_sort_stride.simps) (auto intro: Suc_leD)
  next
    case False
    then show ?thesis
      using less.prems by (subst groups_sort_stride.simps) (auto intro!: exI [of _ k])
  qed
qed

lemma groups_sort_loop_sorts:
  assumes "gi_ok gi" "ngroups gi = n" "j = 0 \<or> shell_stride j < n"
  shows "\<exists>gi'. groups_sort_loop (shell_stride j) n gi = Some gi' \<and> resorted gi gi' \<and>
    (0 < j \<longrightarrow> sorted (gids gi'))"
  using assms
proof (induction j arbitrary: gi)
  case 0
  then show ?case
    by (subst groups_sort_loop.simps) simp
next
  case (Suc k)
  let ?h = "shell_stride (Suc k)"
  have h: "0 < ?h" "?h < n" "k = 0 \<or> shell_stride k < n"
    using Suc.prems by auto
  obtain gi1 where gi1: "groups_sort_pass ?h 0 (n - ?h) gi = Some gi1" "resorted gi gi1"
    using groups_sort_pass_resorts [of gi ?h "n - ?h" 0] Suc.prems h by auto
  obtain gi' where gi': "groups_sort_loop (shell_stride k) n gi1 = Some gi'" "resorted gi1 gi'"
    "0 < k \<longrightarrow> sorted (gids gi')"
    using Suc.IH [of gi1] Suc.prems h(3) resorted_ok [OF gi1(2)] resorted_ngroups [OF gi1(2)] by auto
  have "groups_sort_loop ?h n gi = Some gi'"
    using h(1) gi1(1) gi'(1) shell_stride_pred [of k]
    by (subst groups_sort_loop.simps) (simp del: shell_stride.simps)
  moreover have "sorted (gids gi')"
  proof (cases "k = 0")
    case True
    have "sorted (take (Suc 0) (gids gi))"
      by (cases "gids gi") simp_all
    then have "sorted (gids gi1)"
      using groups_sort_pass_sorts [of gi "n - 1" 0 gi1] Suc.prems h(2) gi1(1) True by simp
    then show ?thesis
      using gi'(1) True by (subst (asm) groups_sort_loop.simps) simp
  qed (use gi'(3) in simp)
  ultimately show ?case
    using resorted_trans [OF gi1(2) gi'(2)] by blast
qed

lemma groups_sort_spec:
  assumes "gi_ok gi"
  obtains gi' where "groups_sort gi = Some gi'" "same_shape gi gi'" "gids gi' = sort (gids gi)"
proof -
  obtain j where j: "groups_sort_stride 1 (ngroups gi) div 3 = shell_stride j"
    "j = 0 \<or> shell_stride j < ngroups gi" "1 < ngroups gi \<longrightarrow> 0 < j"
    using groups_sort_stride_shell [of 0 "ngroups gi"] by auto
  then obtain gi' where gi': "groups_sort gi = Some gi'" "resorted gi gi'" "0 < j \<longrightarrow> sorted (gids gi')"
    using groups_sort_loop_sorts [OF assms, of "ngroups gi" j] by (auto simp: groups_sort_def)
  have "sorted (gids gi')"
  proof (cases "0 < j")
    case False
    then have "length (gids gi') \<le> 1"
      using j(3) assms resorted_ok [OF gi'(2)] resorted_ngroups [OF gi'(2)] by simp
    then show ?thesis
      by (cases "gids gi'") simp_all
  qed (use gi'(3) in simp)
  then have "gids gi' = sort (gids gi)"
    using gi'(2) by (metis resorted_def properties_for_sort)
  then show thesis
    using that gi'(1,2) by (auto simp: resorted_def)
qed

section \<open>The binary search\<close>

text \<open>Two ids whose difference fits a signed \<open>int\<close>.\<close>

definition gid_close :: "u32 \<Rightarrow> u32 \<Rightarrow> bool" where
  "gid_close a b \<longleftrightarrow> \<bar>uint a - uint b\<bar> < 2 ^ 31"

lemma sint_diff_close:
  assumes "gid_close a b"
  shows "sint (a - b) = uint a - uint b"
proof -
  have "sint (a - b) = sint (word_of_int (uint a - uint b) :: u32)"
    by (simp only: word_sub_wi)
  also have "\<dots> = signed_take_bit 31 (uint a - uint b)"
    by (subst signed_of_int) simp
  also have "\<dots> = uint a - uint b"
    using assms unfolding gid_close_def by (intro signed_take_bit_int_eq_self) simp_all
  finally show ?thesis .
qed

lemma ex_range_upper:
  fixes l m r :: nat
  assumes "\<And>i. P i \<Longrightarrow> i < r \<Longrightarrow> m \<le> i" "l \<le> m"
  shows "(\<exists>i. m \<le> i \<and> i < r \<and> P i) = (\<exists>i. l \<le> i \<and> i < r \<and> P i)"
  using assms order_trans by blast

lemma ex_range_lower:
  fixes l m r :: nat
  assumes "\<And>i. P i \<Longrightarrow> i < r \<Longrightarrow> i < m" "m < r"
  shows "(\<exists>i. l \<le> i \<and> i < m \<and> P i) = (\<exists>i. l \<le> i \<and> i < r \<and> P i)"
  using assms less_trans by blast

lemma groups_search_loop_spec:
  assumes "gi_ok gi" "right \<le> ngroups gi" "sorted (gids gi)" "\<forall>x \<in> set (gids gi). gid_close grp x"
  shows "groups_search_loop gi grp left right = Some (\<exists>i. left \<le> i \<and> i < right \<and> gids gi ! i = grp)"
  using assms
proof (induction gi grp left right rule: groups_search_loop.induct)
  case (1 gi grp left right)
  show ?case
  proof (cases "left < right")
    case True
    define mid where "mid = (left + right) div 2"
    have mid: "left \<le> mid" "mid < right" "mid < length (gids gi)"
      using True "1.prems" by (auto simp: mid_def)
    then have cmp: "sint (grp - gids gi ! mid) = uint grp - uint (gids gi ! mid)"
      using "1.prems"(4) by (simp add: sint_diff_close)
    have mono: "gids gi ! i \<le> gids gi ! j" if "i \<le> j" "j < right" for i j
      using that "1.prems" by (simp add: sorted_nth_mono)
    consider (gt) "gids gi ! mid < grp" | (lt) "grp < gids gi ! mid" | (eq) "gids gi ! mid = grp"
      by fastforce
    then show ?thesis
    proof cases
      case gt
      then have "groups_search_loop gi grp left right = groups_search_loop gi grp (mid + 1) right"
        using True mid "1.prems" cmp unfolding mid_def
        by (subst groups_search_loop.simps) (simp add: GROUP_AT_gids word_less_def)
      moreover have "mid + 1 \<le> i" if "gids gi ! i = grp" "i < right" for i
        using mono [of i mid] gt that mid(2) by fastforce
      then have "(\<exists>i. mid + 1 \<le> i \<and> i < right \<and> gids gi ! i = grp) =
          (\<exists>i. left \<le> i \<and> i < right \<and> gids gi ! i = grp)"
        using mid(1) by (intro ex_range_upper) simp_all
      ultimately show ?thesis
        using "1.IH"(1) [OF True mid_def, of "gids gi ! mid"] "1.prems" cmp gt mid
        by (simp add: GROUP_AT_gids word_less_def)
    next
      case lt
      then have "groups_search_loop gi grp left right = groups_search_loop gi grp left mid"
        using True mid "1.prems" cmp unfolding mid_def
        by (subst groups_search_loop.simps) (simp add: GROUP_AT_gids word_less_def)
      moreover have "i < mid" if "gids gi ! i = grp" "i < right" for i
        using mono [of mid i] lt that by fastforce
      then have "(\<exists>i. left \<le> i \<and> i < mid \<and> gids gi ! i = grp) =
          (\<exists>i. left \<le> i \<and> i < right \<and> gids gi ! i = grp)"
        using mid(2) by (intro ex_range_lower) simp_all
      ultimately show ?thesis
        using "1.IH"(2) [OF True mid_def, of "gids gi ! mid"] "1.prems" cmp lt mid
        by (simp add: GROUP_AT_gids word_less_def)
    next
      case eq
      then have "groups_search_loop gi grp left right = Some True"
        using True mid "1.prems" cmp unfolding mid_def
        by (subst groups_search_loop.simps) (simp add: GROUP_AT_gids)
      then show ?thesis
        using eq mid by auto
    qed
  qed (simp add: groups_search_loop.simps [of gi grp left right])
qed

lemma groups_search_spec:
  assumes "gi_ok gi" "sorted (gids gi)" "\<forall>x \<in> set (gids gi). gid_close grp x"
  shows "groups_search gi grp = Some (grp \<in> set (gids gi))"
  using groups_search_loop_spec [OF assms(1) _ assms(2,3), of "ngroups gi" 0] assms(1)
  by (auto simp: groups_search_def in_set_conv_nth)

end
