(* ===== verification/Uid16.thy ===== *)
theory Uid16
  imports CredRuns SuppGroups
begin

text \<open>
  The 16-bit calls on ids, from \<open>kernel/uid16.c\<close>. They widen their arguments and call the
  32-bit variant, so a 16-bit call of a task is a step of the runs of theory \<open>CredRuns\<close>.
  The value -1 (leave unchanged) keeps its meaning; an id that does not fit 16 bits is shown
  as the overflow id.
\<close>

section \<open>Definitions\<close>

type_synonym old_uid_t = u16

definition overflowuid :: u32 where "overflowuid = 65534"

definition low2highuid :: "old_uid_t \<Rightarrow> u32" where
  "low2highuid uid = (if uid = - 1 then - 1 else ucast uid)"

definition high2lowuid :: "u32 \<Rightarrow> old_uid_t" where
  "high2lowuid uid = (if uid AND NOT 0xFFFF \<noteq> 0 then ucast overflowuid else ucast uid)"

definition sys_setregid16 :: "old_gid_t \<Rightarrow> old_gid_t \<Rightarrow> cred \<Rightarrow> (errno + unit) \<times> cred" where
  "sys_setregid16 rgid egid t = sys_setregid (low2highgid rgid) (low2highgid egid) t"

definition sys_setgid16 :: "old_gid_t \<Rightarrow> cred \<Rightarrow> (errno + unit) \<times> cred" where
  "sys_setgid16 gid t = sys_setgid (low2highgid gid) t"

definition sys_setreuid16 :: "bool \<Rightarrow> old_uid_t \<Rightarrow> old_uid_t \<Rightarrow> csys \<Rightarrow> unit sysret" where
  "sys_setreuid16 mem ruid euid s = sys_setreuid mem (low2highuid ruid) (low2highuid euid) s"

definition sys_setuid16 :: "bool \<Rightarrow> old_uid_t \<Rightarrow> csys \<Rightarrow> unit sysret" where
  "sys_setuid16 mem uid s = sys_setuid mem (low2highuid uid) s"

definition sys_setresuid16 :: "bool \<Rightarrow> old_uid_t \<Rightarrow> old_uid_t \<Rightarrow> old_uid_t \<Rightarrow> csys \<Rightarrow> unit sysret" where
  "sys_setresuid16 mem ruid euid suid s =
     sys_setresuid mem (low2highuid ruid) (low2highuid euid) (low2highuid suid) s"

definition sys_getresuid16 :: "bool \<Rightarrow> bool \<Rightarrow> bool \<Rightarrow> cred \<Rightarrow> (errno + unit) \<times> old_uid_t list" where
  "sys_getresuid16 w1 w2 w3 t =
     put3 w1 w2 w3 (high2lowuid (c_uid t)) (high2lowuid (c_euid t)) (high2lowuid (c_suid t))"

definition sys_setresgid16 :: "old_gid_t \<Rightarrow> old_gid_t \<Rightarrow> old_gid_t \<Rightarrow> cred \<Rightarrow> (errno + unit) \<times> cred" where
  "sys_setresgid16 rgid egid sgid t =
     sys_setresgid (low2highgid rgid) (low2highgid egid) (low2highgid sgid) t"

definition sys_getresgid16 :: "bool \<Rightarrow> bool \<Rightarrow> bool \<Rightarrow> cred \<Rightarrow> (errno + unit) \<times> old_gid_t list" where
  "sys_getresgid16 w1 w2 w3 t =
     put3 w1 w2 w3 (high2lowgid (c_gid t)) (high2lowgid (c_egid t)) (high2lowgid (c_sgid t))"

definition sys_setfsuid16 :: "old_uid_t \<Rightarrow> cred \<Rightarrow> u32 \<times> cred" where
  "sys_setfsuid16 uid t = sys_setfsuid (low2highuid uid) t"

definition sys_setfsgid16 :: "old_gid_t \<Rightarrow> cred \<Rightarrow> u32 \<times> cred" where
  "sys_setfsgid16 gid t = sys_setfsgid (low2highgid gid) t"

definition sys_getuid16 :: "cred \<Rightarrow> old_uid_t" where
  "sys_getuid16 t = high2lowuid (c_uid t)"

definition sys_geteuid16 :: "cred \<Rightarrow> old_uid_t" where
  "sys_geteuid16 t = high2lowuid (c_euid t)"

definition sys_getgid16 :: "cred \<Rightarrow> old_gid_t" where
  "sys_getgid16 t = high2lowgid (c_gid t)"

definition sys_getegid16 :: "cred \<Rightarrow> old_gid_t" where
  "sys_getegid16 t = high2lowgid (c_egid t)"

section \<open>Conversions\<close>

lemma high2low_widened:
  fixes x :: u16
  assumes "x \<noteq> - 1"
  shows "high2lowuid (low2highuid x) = x" "high2lowgid (low2highgid x) = x"
proof -
  have "(ucast x :: u32) AND NOT (mask 16) = 0"
    by (rule bit_eqI) (auto simp: bit_and_iff bit_not_iff bit_mask_iff bit_unsigned_iff dest: bit_imp_le_length)
  moreover have "(mask 16 :: u32) = 0xFFFF"
    by (simp add: mask_eq_exp_minus_1)
  moreover have "ucast (ucast x :: u32) = x"
    by (rule bit_eqI) (auto simp: bit_unsigned_iff dest: bit_imp_le_length)
  ultimately show "high2lowuid (low2highuid x) = x" "high2lowgid (low2highgid x) = x"
    using assms by (simp_all add: high2lowuid_def low2highuid_def high2lowgid_def low2highgid_def)
qed

lemma low2high_unset: "low2highuid x = - 1 \<longleftrightarrow> x = - 1" "low2highgid x = - 1 \<longleftrightarrow> x = - 1"
proof -
  have "(ucast x :: u32) \<noteq> - 1"
  proof
    assume "(ucast x :: u32) = - 1"
    then have "bit (ucast x :: u32) 20"
      by simp
    then show False
      by (auto simp: bit_unsigned_iff dest: bit_imp_le_length)
  qed
  then show "low2highuid x = - 1 \<longleftrightarrow> x = - 1" "low2highgid x = - 1 \<longleftrightarrow> x = - 1"
    by (simp_all add: low2highuid_def low2highgid_def)
qed

section \<open>Runs\<close>

datatype id_call16 =
    Setregid16 old_gid_t old_gid_t | Setgid16 old_gid_t | Setreuid16 bool old_uid_t old_uid_t
  | Setuid16 bool old_uid_t | Setresuid16 bool old_uid_t old_uid_t old_uid_t
  | Setresgid16 old_gid_t old_gid_t old_gid_t | Setfsuid16 old_uid_t | Setfsgid16 old_gid_t

fun do_id_call16 :: "id_call16 \<Rightarrow> csys \<Rightarrow> csys" where
  "do_id_call16 (Setregid16 r e) s = set_cur (snd (sys_setregid16 r e (cs_cur s))) s"
| "do_id_call16 (Setgid16 g) s = set_cur (snd (sys_setgid16 g (cs_cur s))) s"
| "do_id_call16 (Setreuid16 m r e) s = snd (sys_setreuid16 m r e s)"
| "do_id_call16 (Setuid16 m u) s = snd (sys_setuid16 m u s)"
| "do_id_call16 (Setresuid16 m r e u) s = snd (sys_setresuid16 m r e u s)"
| "do_id_call16 (Setresgid16 r e g) s = set_cur (snd (sys_setresgid16 r e g (cs_cur s))) s"
| "do_id_call16 (Setfsuid16 u) s = set_cur (snd (sys_setfsuid16 u (cs_cur s))) s"
| "do_id_call16 (Setfsgid16 g) s = set_cur (snd (sys_setfsgid16 g (cs_cur s))) s"

text \<open>
  A 16-bit call is a step of a run, so what the runs of theory \<open>CredRuns\<close> keep, such calls
  keep as well.
\<close>

lemma id_call16_step:
  fixes c :: id_call16 and us :: users
  assumes "task_of s p = Some t"
  defines "s' \<equiv> do_id_call16 c \<lparr>cs_cur = t, cs_usr = us\<rparr>"
  shows "cred_step p (s, us) (s\<lparr>task_of := (task_of s)(p \<mapsto> cs_cur s')\<rparr>, cs_usr s')"
proof -
  obtain d where "s' = do_id_call d \<lparr>cs_cur = t, cs_usr = us\<rparr>"
  proof (cases c)
    case (Setregid16 r e)
    show thesis
      by (rule that [of "Setregid (low2highgid r) (low2highgid e)"]) (simp add: s'_def Setregid16 sys_setregid16_def)
  next
    case (Setgid16 g)
    show thesis
      by (rule that [of "Setgid (low2highgid g)"]) (simp add: s'_def Setgid16 sys_setgid16_def)
  next
    case (Setreuid16 m r e)
    show thesis
      by (rule that [of "Setreuid m (low2highuid r) (low2highuid e)"]) (simp add: s'_def Setreuid16 sys_setreuid16_def)
  next
    case (Setuid16 m u)
    show thesis
      by (rule that [of "Setuid m (low2highuid u)"]) (simp add: s'_def Setuid16 sys_setuid16_def)
  next
    case (Setresuid16 m r e u)
    show thesis
      by (rule that [of "Setresuid m (low2highuid r) (low2highuid e) (low2highuid u)"])
        (simp add: s'_def Setresuid16 sys_setresuid16_def)
  next
    case (Setresgid16 r e g)
    show thesis
      by (rule that [of "Setresgid (low2highgid r) (low2highgid e) (low2highgid g)"])
        (simp add: s'_def Setresgid16 sys_setresgid16_def)
  next
    case (Setfsuid16 u)
    show thesis
      by (rule that [of "Setfsuid (low2highuid u)"]) (simp add: s'_def Setfsuid16 sys_setfsuid16_def)
  next
    case (Setfsgid16 g)
    show thesis
      by (rule that [of "Setfsgid (low2highgid g)"]) (simp add: s'_def Setfsgid16 sys_setfsgid16_def)
  qed
  then show ?thesis
    using cred_step.id [OF assms(1)] by metis
qed

end
