(* ===== verification/GroupCalls.thy ===== *)
theory GroupCalls
  imports SuppGroups
begin

text \<open>
  The system calls on supplementary groups: what the copies to and from user space do with
  the list of ids, an invariant that counts the references to every object and the pages in
  use, and runs of tasks that call, fork and exit.
\<close>

section \<open>Copies\<close>

lemma copy_from_user_Some:
  "copy_from_user u off n = Some xs \<longleftrightarrow> length xs = n \<and> (\<forall>k < n. u (off + k) = Some (xs ! k))"
proof (induction n arbitrary: off xs)
  case (Suc n)
  show ?case
    by (cases xs; cases "u off") (auto simp: Suc All_less_Suc2)
qed auto

lemma copy_from_user_None: "copy_from_user u off n = None \<longleftrightarrow> (\<exists>k < n. u (off + k) = None)"
  by (induction n arbitrary: off) (auto simp: Ex_less_Suc2 split: option.splits)

lemma copy_to_user_ok:
  assumes "\<forall>k < length xs. u (off + k) \<noteq> None"
  shows "copy_to_user u off xs =
    (True, \<lambda>k. if off \<le> k \<and> k < off + length xs then Some (xs ! (k - off)) else u k)"
  using assms
proof (induction xs arbitrary: u off)
  case (Cons x xs)
  have "\<forall>k < length xs. (u(off \<mapsto> x)) (off + 1 + k) \<noteq> None"
    using Cons.prems by (auto simp: All_less_Suc2)
  note IH = Cons.IH [OF this]
  have "u off \<noteq> None"
    using Cons.prems by auto
  then have "copy_to_user u off (x # xs) = copy_to_user (u(off \<mapsto> x)) (off + 1) xs"
    by auto
  also note IH
  finally show ?case
  proof (rule trans, intro arg_cong [where f = "Pair True"] ext)
    fix k
    show "(if off + 1 \<le> k \<and> k < off + 1 + length xs then Some (xs ! (k - (off + 1)))
           else (u(off \<mapsto> x)) k) =
        (if off \<le> k \<and> k < off + length (x # xs) then Some ((x # xs) ! (k - off)) else u k)"
      by (cases "k = off"; cases "off < k") (simp_all add: nth_Cons')
  qed
qed (auto simp: fun_eq_iff)

lemma copy_to_user_fault:
  "k < length xs \<Longrightarrow> u (off + k) = None \<Longrightarrow> \<exists>u'. copy_to_user u off xs = (False, u')"
proof (induction xs arbitrary: u off k)
  case (Cons x xs)
  show ?case
  proof (cases "u off")
    case (Some y)
    then obtain j where "j < length xs" "(u(off \<mapsto> x)) (off + 1 + j) = None"
      using Cons.prems by (cases k) auto
    from Cons.IH [of j "u(off \<mapsto> x)" "off + 1", OF this] Some show ?thesis
      by (simp del: fun_upd_apply)
  qed simp
qed simp

lemma next_block:
  "k < cnt - min NGROUPS_PER_BLOCK cnt \<Longrightarrow>
   (i + 1) * NGROUPS_PER_BLOCK + k = i * NGROUPS_PER_BLOCK + (min NGROUPS_PER_BLOCK cnt + k)"
  by (simp add: min_def split: if_splits)

lemma groups_from_user_loop_ok:
  assumes "blocks_ok bs cnt" "length xs = cnt" "\<forall>k < cnt. u (i * NGROUPS_PER_BLOCK + k) = Some (xs ! k)"
  shows "\<exists>bs'. groups_from_user_loop bs i cnt u = Some (Inr bs') \<and> map length bs' = map length bs \<and>
    take cnt (concat bs') = xs"
  using assms
proof (induction bs i cnt u arbitrary: xs rule: groups_from_user_loop.induct)
  case (2 b bs i cnt u)
  let ?c = "min NGROUPS_PER_BLOCK cnt"
  have c: "?c \<le> length b" "blocks_ok bs (cnt - ?c)" "length b \<le> NGROUPS_PER_BLOCK"
    using "2.prems"(1) by simp_all
  have cp: "copy_from_user u (i * NGROUPS_PER_BLOCK) ?c = Some (take ?c xs)"
    using "2.prems"(2,3) by (simp add: copy_from_user_Some)
  have "\<forall>k < cnt - ?c. u ((i + 1) * NGROUPS_PER_BLOCK + k) = Some (drop ?c xs ! k)"
    using "2.prems"(2,3) by (auto simp only: next_block) simp
  note IH = "2.IH" [OF refl refl _ cp c(2) _ this]
  obtain bs' where bs': "groups_from_user_loop bs (i + 1) (cnt - ?c) u = Some (Inr bs')"
    "map length bs' = map length bs" "take (cnt - ?c) (concat bs') = drop ?c xs"
    using IH c(1) "2.prems"(2) by (metis length_drop not_less)
  have "take cnt (concat ((take ?c xs @ drop ?c b) # bs')) = take ?c xs @ take (cnt - ?c) (concat bs')"
    using "2.prems"(2) c(1,3) by (cases "cnt \<le> NGROUPS_PER_BLOCK") simp_all
  then have "take cnt (concat ((take ?c xs @ drop ?c b) # bs')) = xs"
    using bs'(3) by simp
  moreover have "length (take ?c xs @ drop ?c b) = length b"
    using "2.prems"(2) c(1) by simp
  moreover have "groups_from_user_loop (b # bs) i cnt u = Some (Inr ((take ?c xs @ drop ?c b) # bs'))"
    using c(1) cp bs'(1) by (simp add: Let_def min_le_iff_disj not_less)
  ultimately show ?case
    using bs'(2) by (metis list.simps(9))
qed simp

lemma groups_from_user_loop_fault:
  assumes "blocks_ok bs cnt" "k < cnt" "u (i * NGROUPS_PER_BLOCK + k) = None"
  shows "groups_from_user_loop bs i cnt u = Some (Inl EFAULT)"
  using assms
proof (induction bs i cnt u arbitrary: k rule: groups_from_user_loop.induct)
  case (2 b bs i cnt u)
  let ?c = "min NGROUPS_PER_BLOCK cnt"
  have c: "?c \<le> length b" "blocks_ok bs (cnt - ?c)"
    using "2.prems"(1) by simp_all
  show ?case
  proof (cases "copy_from_user u (i * NGROUPS_PER_BLOCK) ?c")
    case (Some xs)
    then have k: "\<not> k < ?c"
      using "2.prems"(3) by (auto simp: copy_from_user_Some)
    then have k: "k - ?c < cnt - ?c" "?c + (k - ?c) = k"
      using "2.prems"(2) by auto
    then have "u ((i + 1) * NGROUPS_PER_BLOCK + (k - ?c)) = None"
      using "2.prems"(3) by (simp only: next_block)
    then show ?thesis
      using "2.IH" [OF refl refl _ Some, of "k - ?c"] c k(1) Some
      by (simp add: Let_def min_le_iff_disj not_less)
  qed (use c(1) in \<open>simp add: Let_def min_le_iff_disj not_less\<close>)
qed simp

lemma groups_to_user_loop_ok:
  assumes "blocks_ok bs cnt" "\<forall>k < cnt. u (i * NGROUPS_PER_BLOCK + k) \<noteq> None"
  shows "groups_to_user_loop bs i cnt u = Some (None,
    \<lambda>k. if i * NGROUPS_PER_BLOCK \<le> k \<and> k < i * NGROUPS_PER_BLOCK + cnt
        then Some (concat bs ! (k - i * NGROUPS_PER_BLOCK)) else u k)"
  using assms
proof (induction bs i cnt u rule: groups_to_user_loop.induct)
  case (2 b bs i cnt u)
  let ?c = "min NGROUPS_PER_BLOCK cnt" and ?o = "i * NGROUPS_PER_BLOCK"
  let ?u = "\<lambda>k. if ?o \<le> k \<and> k < ?o + ?c then Some (b ! (k - ?o)) else u k"
  have c: "\<not> length b < ?c" "blocks_ok bs (cnt - ?c)" "length b \<le> NGROUPS_PER_BLOCK"
    using "2.prems"(1) by (simp_all add: not_less min_le_iff_disj)
  have cp: "copy_to_user u ?o (take ?c b) = (True, ?u)"
    using copy_to_user_ok [of "take ?c b" u ?o] "2.prems"(2) c(1) by (auto simp: fun_eq_iff min_def)
  have "\<forall>k < cnt - ?c. ?u ((i + 1) * NGROUPS_PER_BLOCK + k) \<noteq> None"
    using "2.prems"(2) by (auto simp only: next_block) simp
  note IH = "2.IH" [OF refl refl c(1) cp [symmetric] refl c(2) this]
  have "groups_to_user_loop (b # bs) i cnt u = groups_to_user_loop bs (i + 1) (cnt - ?c) ?u"
    using c(1) by (simp only: groups_to_user_loop.simps Let_def if_False cp prod.case bool.case)
  also note IH
  finally show ?case
  proof (rule trans, intro arg_cong [where f = "\<lambda>f. Some (None, f)"] ext)
    fix k
    show "(if (i + 1) * NGROUPS_PER_BLOCK \<le> k \<and> k < (i + 1) * NGROUPS_PER_BLOCK + (cnt - ?c)
        then Some (concat bs ! (k - (i + 1) * NGROUPS_PER_BLOCK)) else ?u k) =
      (if ?o \<le> k \<and> k < ?o + cnt then Some (concat (b # bs) ! (k - ?o)) else u k)"
      using c by (cases "cnt \<le> NGROUPS_PER_BLOCK") (auto simp: nth_append add.commute)
  qed
qed (auto simp: fun_eq_iff)

lemma groups_to_user_loop_fault:
  assumes "blocks_ok bs cnt" "k < cnt" "u (i * NGROUPS_PER_BLOCK + k) = None"
  shows "\<exists>u'. groups_to_user_loop bs i cnt u = Some (Some EFAULT, u')"
  using assms
proof (induction bs i cnt u arbitrary: k rule: groups_to_user_loop.induct)
  case (2 b bs i cnt u)
  let ?c = "min NGROUPS_PER_BLOCK cnt" and ?o = "i * NGROUPS_PER_BLOCK"
  have c: "\<not> length b < ?c" "blocks_ok bs (cnt - ?c)" "length (take ?c b) = ?c"
    using "2.prems"(1) by (simp_all add: not_less min_le_iff_disj)
  show ?case
  proof (cases "\<forall>j < ?c. u (?o + j) \<noteq> None")
    case False
    then obtain u' where "copy_to_user u ?o (take ?c b) = (False, u')"
      using copy_to_user_fault [of _ "take ?c b" u ?o] c(3) by metis
    then show ?thesis
      using c(1) by (simp only: groups_to_user_loop.simps Let_def if_False prod.case bool.case) simp
  next
    case True
    then have cp: "copy_to_user u ?o (take ?c b) =
        (True, \<lambda>k. if ?o \<le> k \<and> k < ?o + ?c then Some (take ?c b ! (k - ?o)) else u k)"
      (is "_ = (True, ?u)")
      using copy_to_user_ok [of "take ?c b" u ?o] c(3) by simp
    have "\<not> k < ?c"
      using True "2.prems"(3) by auto
    then have k: "k - ?c < cnt - ?c" "?c + (k - ?c) = k"
      using "2.prems"(2) by auto
    then have "?u ((i + 1) * NGROUPS_PER_BLOCK + (k - ?c)) = None"
      using "2.prems"(3) by (simp only: next_block) simp
    from "2.IH" [OF refl refl c(1) cp [symmetric] refl c(2) k(1) this] show ?thesis
      using c(1) by (simp only: groups_to_user_loop.simps Let_def if_False cp prod.case bool.case)
  qed
qed simp

section \<open>Readers and writers of user arrays\<close>

text \<open>
  What \<open>setgroups_with\<close> and \<open>getgroups_with\<close> rely on: an object is filled from, or copied to,
  a user array with a conversion of ids; an address that faults gives \<open>EFAULT\<close>.
\<close>

locale groups_reader =
  fixes from_user :: "group_info \<Rightarrow> 'a uarray \<Rightarrow> (errno + group_info) option"
    and conv :: "'a \<Rightarrow> u32"
  assumes reads: "gi_ok gi \<Longrightarrow> length xs = ngroups gi \<Longrightarrow> \<forall>k < ngroups gi. u k = Some (xs ! k) \<Longrightarrow>
      \<exists>gi'. from_user gi u = Some (Inr gi') \<and> same_shape gi gi' \<and> gids gi' = map conv xs"
    and read_faults: "gi_ok gi \<Longrightarrow> k < ngroups gi \<Longrightarrow> u k = None \<Longrightarrow>
      from_user gi u = Some (Inl EFAULT)"

locale groups_writer =
  fixes to_user :: "group_info \<Rightarrow> 'a uarray \<Rightarrow> (errno option \<times> 'a uarray) option"
    and conv :: "u32 \<Rightarrow> 'a"
  assumes writes: "gi_ok gi \<Longrightarrow> \<forall>k < ngroups gi. u k \<noteq> None \<Longrightarrow>
      to_user gi u = Some (None, \<lambda>k. if k < ngroups gi then Some (conv (gids gi ! k)) else u k)"
    and write_faults: "gi_ok gi \<Longrightarrow> k < ngroups gi \<Longrightarrow> u k = None \<Longrightarrow>
      \<exists>u'. to_user gi u = Some (Some EFAULT, u')"

interpretation r32: groups_reader groups_from_user id
proof
  fix gi and xs :: "u32 list" and u :: "u32 uarray"
  assume a: "gi_ok gi" "length xs = ngroups gi" "\<forall>k < ngroups gi. u k = Some (xs ! k)"
  then obtain bs where "groups_from_user_loop (gi_blocks gi) 0 (ngroups gi) u = Some (Inr bs)"
    "map length bs = map length (gi_blocks gi)" "take (ngroups gi) (concat bs) = xs"
    using groups_from_user_loop_ok [of "gi_blocks gi" "ngroups gi" xs u 0] by (auto simp: gi_ok_def)
  then show "\<exists>gi'. groups_from_user gi u = Some (Inr gi') \<and> same_shape gi gi' \<and> gids gi' = map id xs"
    by (simp add: groups_from_user_def same_shape_def gids_def)
next
  fix gi k and u :: "u32 uarray"
  assume "gi_ok gi" "k < ngroups gi" "u k = None"
  then show "groups_from_user gi u = Some (Inl EFAULT)"
    using groups_from_user_loop_fault [of "gi_blocks gi" "ngroups gi" k u 0]
    by (simp add: groups_from_user_def gi_ok_def)
qed

interpretation w32: groups_writer groups_to_user id
proof
  fix gi and u :: "u32 uarray"
  assume "gi_ok gi" "\<forall>k < ngroups gi. u k \<noteq> None"
  then show "groups_to_user gi u =
      Some (None, \<lambda>k. if k < ngroups gi then Some (id (gids gi ! k)) else u k)"
    using groups_to_user_loop_ok [of "gi_blocks gi" "ngroups gi" u 0]
    by (auto simp: groups_to_user_def gi_ok_def gids_def fun_eq_iff)
next
  fix gi k and u :: "u32 uarray"
  assume "gi_ok gi" "k < ngroups gi" "u k = None"
  then show "\<exists>u'. groups_to_user gi u = Some (Some EFAULT, u')"
    using groups_to_user_loop_fault [of "gi_blocks gi" "ngroups gi" k u 0]
    by (simp add: groups_to_user_def gi_ok_def)
qed

lemma groups16_from_user_loop_ok:
  assumes "gi_ok gi" "n = ngroups gi" "length xs = n" "\<forall>k < n. u k = Some (xs ! k)" "i \<le> n"
    "take i (gids gi) = take i (map low2highgid xs)"
  shows "\<exists>gi'. groups16_from_user_loop i n gi u = Some (Inr gi') \<and> same_shape gi gi' \<and>
    gids gi' = map low2highgid xs"
  using assms
proof (induction i n gi u rule: groups16_from_user_loop.induct)
  case (1 i n gi u)
  show ?case
  proof (cases "i < n")
    case True
    obtain gi1 where gi1: "GROUP_SET gi i (low2highgid (xs ! i)) = Some gi1" "same_shape gi gi1"
      "gids gi1 = (gids gi)[i := low2highgid (xs ! i)]"
      using GROUP_SET_gids [of gi i] "1.prems" True by metis
    have ui: "u i = Some (xs ! i)"
      using "1.prems"(4) True by simp
    have "take (i + 1) (gids gi1) = take (i + 1) (map low2highgid xs)"
      using "1.prems" True gi1(3) by (simp add: take_Suc_conv_app_nth)
    then obtain gi' where "groups16_from_user_loop (i + 1) n gi1 u = Some (Inr gi')"
      "same_shape gi1 gi'" "gids gi' = map low2highgid xs"
      using "1.IH" [OF True ui gi1(1)] "1.prems" True same_shape_ok [OF gi1(2)]
        same_shape_ngroups [OF gi1(2)] by auto
    then show ?thesis
      using True ui gi1(1) same_shape_trans [OF gi1(2)]
      by (subst groups16_from_user_loop.simps) simp
  next
    case False
    then show ?thesis
      using "1.prems" by (subst groups16_from_user_loop.simps) simp
  qed
qed

lemma groups16_from_user_loop_fault:
  assumes "gi_ok gi" "n = ngroups gi" "i \<le> k" "k < n" "u k = None"
  shows "groups16_from_user_loop i n gi u = Some (Inl EFAULT)"
  using assms
proof (induction i n gi u rule: groups16_from_user_loop.induct)
  case (1 i n gi u)
  show ?case
  proof (cases "u i")
    case None
    then show ?thesis
      using "1.prems" by (subst groups16_from_user_loop.simps) simp
  next
    case (Some x)
    have i: "i < n" "i + 1 \<le> k"
      using "1.prems" Some by (auto simp: Suc_le_eq le_less)
    obtain gi1 where gi1: "GROUP_SET gi i (low2highgid x) = Some gi1" "same_shape gi gi1"
      using GROUP_SET_gids [of gi i] "1.prems" i(1) by metis
    have "groups16_from_user_loop (i + 1) n gi1 u = Some (Inl EFAULT)"
      using "1.IH" [OF i(1) Some gi1(1)] "1.prems" i(2) same_shape_ok [OF gi1(2)]
        same_shape_ngroups [OF gi1(2)] by simp
    then show ?thesis
      using i(1) Some gi1(1) by (subst groups16_from_user_loop.simps) simp
  qed
qed

lemma groups16_to_user_loop_ok:
  assumes "gi_ok gi" "\<forall>k < ngroups gi. u k \<noteq> None"
  shows "groups16_to_user_loop gi i u =
    Some (None, \<lambda>k. if i \<le> k \<and> k < ngroups gi then Some (high2lowgid (gids gi ! k)) else u k)"
  using assms
proof (induction gi i u rule: groups16_to_user_loop.induct)
  case (1 gi i u)
  show ?case
  proof (cases "i < ngroups gi")
    case True
    note at = GROUP_AT_gids [OF "1.prems"(1) True]
    have ui: "u i \<noteq> None"
      using "1.prems"(2) True by blast
    have "\<forall>k < ngroups gi. (u(i \<mapsto> high2lowgid (gids gi ! i))) k \<noteq> None"
      using "1.prems"(2) by simp
    note IH = "1.IH" [OF True at ui "1.prems"(1) this]
    have "groups16_to_user_loop gi i u =
        groups16_to_user_loop gi (i + 1) (u(i \<mapsto> high2lowgid (gids gi ! i)))"
      using True at ui by (subst groups16_to_user_loop.simps) auto
    also note IH
    finally show ?thesis
      using True by (auto simp: fun_eq_iff)
  next
    case False
    then show ?thesis
      by (subst groups16_to_user_loop.simps) (auto simp: fun_eq_iff)
  qed
qed

lemma groups16_to_user_loop_fault:
  assumes "gi_ok gi" "i \<le> k" "k < ngroups gi" "u k = None"
  shows "\<exists>u'. groups16_to_user_loop gi i u = Some (Some EFAULT, u')"
  using assms
proof (induction gi i u rule: groups16_to_user_loop.induct)
  case (1 gi i u)
  have i: "i < ngroups gi"
    using "1.prems" by simp
  note at = GROUP_AT_gids [OF "1.prems"(1) i]
  show ?case
  proof (cases "u i = None")
    case True
    then show ?thesis
      using i at by (subst groups16_to_user_loop.simps) simp
  next
    case False
    then have "i + 1 \<le> k" "(u(i \<mapsto> high2lowgid (gids gi ! i))) k = None"
      using "1.prems" by (auto simp: Suc_le_eq le_less)
    from "1.IH" [OF i at False "1.prems"(1) this(1) "1.prems"(3) this(2)] show ?thesis
      using i at False by (subst groups16_to_user_loop.simps) (auto simp del: fun_upd_apply)
  qed
qed

interpretation r16: groups_reader groups16_from_user low2highgid
proof
  fix gi and xs :: "old_gid_t list" and u :: "old_gid_t uarray"
  assume "gi_ok gi" "length xs = ngroups gi" "\<forall>k < ngroups gi. u k = Some (xs ! k)"
  then show "\<exists>gi'. groups16_from_user gi u = Some (Inr gi') \<and> same_shape gi gi' \<and>
      gids gi' = map low2highgid xs"
    using groups16_from_user_loop_ok [of gi "ngroups gi" xs u 0] by (simp add: groups16_from_user_def)
next
  fix gi k and u :: "old_gid_t uarray"
  assume "gi_ok gi" "k < ngroups gi" "u k = None"
  then show "groups16_from_user gi u = Some (Inl EFAULT)"
    using groups16_from_user_loop_fault [of gi "ngroups gi" 0 k u] by (simp add: groups16_from_user_def)
qed

interpretation w16: groups_writer groups16_to_user high2lowgid
proof
  fix gi and u :: "old_gid_t uarray"
  assume "gi_ok gi" "\<forall>k < ngroups gi. u k \<noteq> None"
  then show "groups16_to_user gi u =
      Some (None, \<lambda>k. if k < ngroups gi then Some (high2lowgid (gids gi ! k)) else u k)"
    using groups16_to_user_loop_ok [of gi u 0] by (simp add: groups16_to_user_def)
next
  fix gi k and u :: "old_gid_t uarray"
  assume "gi_ok gi" "k < ngroups gi" "u k = None"
  then show "\<exists>u'. groups16_to_user gi u = Some (Some EFAULT, u')"
    using groups16_to_user_loop_fault [of gi 0 k u] by (simp add: groups16_to_user_def)
qed

section \<open>References and pages\<close>

definition holders :: "(nat \<rightharpoonup> gtask) \<Rightarrow> nat \<Rightarrow> nat set" where
  "holders T p = {t. map_option gt_info (T t) = Some p}"

text \<open>The references to an object: one per task, and one that pins \<open>init_groups\<close>.\<close>

definition refs :: "(nat \<rightharpoonup> gtask) \<Rightarrow> nat \<Rightarrow> nat" where
  "refs T p = card (holders T p) + (if p = 0 then 1 else 0)"

definition obj_pages :: "group_info \<Rightarrow> nat" where
  "obj_pages gi = (if gi_small gi then 0 else length (gi_blocks gi))"

definition total_pages :: "(nat \<rightharpoonup> group_info) \<Rightarrow> nat" where
  "total_pages m = (\<Sum>p \<in> dom m. obj_pages (the (m p)))"

text \<open>
  An address with \<open>n\<close> references holds an object exactly when \<open>n\<close> is positive; the object
  is then well formed, counts its references and is sorted once a task holds it.
\<close>

definition obj_ok :: "nat \<Rightarrow> bool \<Rightarrow> nat \<Rightarrow> group_info option \<Rightarrow> bool" where
  "obj_ok p held n ob =
     (case ob of
        None \<Rightarrow> n = 0
      | Some gi \<Rightarrow> 0 < n \<and> usage gi = of_nat n \<and> gi_ok gi \<and> (p \<noteq> 0 \<longrightarrow> gi_blocks gi \<noteq> []) \<and>
                   (held \<longrightarrow> sorted (gids gi)))"

text \<open>The invariant; \<open>e p\<close> is the number of references to \<open>p\<close> that running calls hold.\<close>

definition ginv :: "(nat \<Rightarrow> nat) \<Rightarrow> gsys \<Rightarrow> bool" where
  "ginv e s \<longleftrightarrow>
     dom (g_tasks s) \<subseteq> {..<PID_MAX_LIMIT} \<and> finite (dom (g_objs s)) \<and>
     (\<forall>p. obj_ok p (holders (g_tasks s) p \<noteq> {}) (refs (g_tasks s) p + e p) (g_objs s p)) \<and>
     g_pages s = total_pages (g_objs s)"

lemma total_pages_remove:
  assumes "finite (dom m)" "m p = Some gi"
  shows "total_pages m = total_pages (m(p := None)) + obj_pages gi"
proof -
  have "p \<in> dom m"
    using assms(2) by blast
  then have "total_pages m = obj_pages gi + (\<Sum>q \<in> dom m - {p}. obj_pages (the (m q)))"
    using assms by (simp add: total_pages_def sum.remove)
  then show ?thesis
    by (simp add: total_pages_def)
qed

lemma total_pages_new:
  "finite (dom m) \<Longrightarrow> m p = None \<Longrightarrow> total_pages (m(p \<mapsto> gi)) = total_pages m + obj_pages gi"
  using total_pages_remove [of "m(p \<mapsto> gi)" p gi] by (simp add: fun_upd_idem)

lemma total_pages_update:
  assumes "m p = Some gi" "obj_pages gi' = obj_pages gi"
  shows "total_pages (m(p \<mapsto> gi')) = total_pages m"
proof -
  have "dom (m(p \<mapsto> gi')) = dom m"
    using assms(1) by auto
  then show ?thesis
    using assms by (auto simp: total_pages_def intro!: sum.cong)
qed

lemma holders_update:
  "holders (T(t \<mapsto> x)) p = (if gt_info x = p then insert t (holders T p) else holders T p - {t})"
  and holders_delete: "holders (T(t := None)) p = holders T p - {t}"
  by (auto simp: holders_def)

lemma finite_holders:
  assumes "dom T \<subseteq> {..<n}"
  shows "finite (holders T p)" "card (holders T p) \<le> n"
proof -
  have sub: "holders T p \<subseteq> {..<n}"
    using assms by (auto simp: holders_def)
  then show "finite (holders T p)"
    using finite_subset by blast
  show "card (holders T p) \<le> n"
    using card_mono [OF _ sub] by simp
qed

lemma refs_bound: "dom T \<subseteq> {..<PID_MAX_LIMIT} \<Longrightarrow> refs T p \<le> 32769"
  using finite_holders(2) [of T PID_MAX_LIMIT p] by (auto simp: refs_def PID_MAX_LIMIT_def)

lemma ginv_obj:
  assumes "ginv e s"
  shows "obj_ok p (holders (g_tasks s) p \<noteq> {}) (refs (g_tasks s) p + e p) (g_objs s p)"
  using assms by (simp add: ginv_def)

lemma ginv_live:
  assumes "ginv e s" "0 < refs (g_tasks s) p + e p"
  obtains gi where "g_objs s p = Some gi" "usage gi = of_nat (refs (g_tasks s) p + e p)" "gi_ok gi"
    "p \<noteq> 0 \<Longrightarrow> gi_blocks gi \<noteq> []" "holders (g_tasks s) p \<noteq> {} \<Longrightarrow> sorted (gids gi)"
  using ginv_obj [OF assms(1), of p] assms(2) that by (cases "g_objs s p") (auto simp: obj_ok_def)

lemma ginv_task:
  assumes "ginv e s" "g_tasks s t = Some x"
  obtains gi where "g_objs s (gt_info x) = Some gi" "gi_ok gi" "sorted (gids gi)"
proof -
  have h: "t \<in> holders (g_tasks s) (gt_info x)"
    using assms(2) by (simp add: holders_def)
  moreover have "dom (g_tasks s) \<subseteq> {..<PID_MAX_LIMIT}"
    using assms(1) by (simp add: ginv_def)
  ultimately have "0 < refs (g_tasks s) (gt_info x)"
    using finite_holders(1) [of "g_tasks s" PID_MAX_LIMIT "gt_info x"]
    by (auto simp: refs_def card_gt_0_iff)
  then show thesis
    using ginv_live [OF assms(1), of "gt_info x"] h that by (metis add_gr_0 empty_iff)
qed

lemma ginv_refs_bound: "ginv e s \<Longrightarrow> refs (g_tasks s) p \<le> 32769"
  by (simp add: ginv_def refs_bound)

text \<open>Replacing one object by one with the same pages and a new number of references.\<close>

lemma ginv_update:
  assumes "ginv e s" "g_objs s p = Some gi" "obj_pages gi' = obj_pages gi"
    "obj_ok p (holders (g_tasks s) p \<noteq> {}) (refs (g_tasks s) p + n) (Some gi')"
  shows "ginv (e(p := n)) (s\<lparr>g_objs := (g_objs s)(p \<mapsto> gi')\<rparr>)"
  using assms total_pages_update [of "g_objs s", OF assms(2,3)] by (auto simp: ginv_def)

lemma get_group_info_ginv:
  assumes "ginv e s" "g_objs s p = Some gi"
  shows "get_group_info p s = Some (s\<lparr>g_objs := (g_objs s)(p \<mapsto> gi\<lparr>usage := usage gi + 1\<rparr>)\<rparr>)"
    "ginv (e(p := e p + 1)) (s\<lparr>g_objs := (g_objs s)(p \<mapsto> gi\<lparr>usage := usage gi + 1\<rparr>)\<rparr>)"
proof -
  show "get_group_info p s = Some (s\<lparr>g_objs := (g_objs s)(p \<mapsto> gi\<lparr>usage := usage gi + 1\<rparr>)\<rparr>)"
    using assms(2) by (simp add: get_group_info_def)
  show "ginv (e(p := e p + 1)) (s\<lparr>g_objs := (g_objs s)(p \<mapsto> gi\<lparr>usage := usage gi + 1\<rparr>)\<rparr>)"
    using ginv_obj [OF assms(1), of p] assms
    by (intro ginv_update) (auto simp: obj_ok_def obj_pages_def gi_ok_def gids_def)
qed

lemma usage_zero:
  assumes "usage gi = of_nat n" "n < 2 ^ 32"
  shows "usage gi - 1 = 0 \<longleftrightarrow> n = 1"
proof -
  have "unat (of_nat n :: u32) = n"
    using assms(2) by (simp add: unat_of_nat take_bit_nat_eq_self)
  then have "(of_nat n :: u32) = 1 \<longleftrightarrow> n = 1"
    by (metis of_nat_1 unsigned_1)
  then show ?thesis
    using assms(1) by simp
qed

lemma put_group_info_ginv:
  assumes "ginv e s" "0 < e p" "e p < 10"
  obtains s' where "put_group_info p s = Some s'" "ginv (e(p := e p - 1)) s'" "g_tasks s' = g_tasks s"
    "1 < refs (g_tasks s) p + e p \<longrightarrow> map_option gids (g_objs s' p) = map_option gids (g_objs s p)"
    "\<forall>q. q \<noteq> p \<longrightarrow> g_objs s' q = g_objs s q"
proof -
  let ?n = "refs (g_tasks s) p + e p"
  obtain gi where gi: "g_objs s p = Some gi" "usage gi = of_nat ?n" "gi_ok gi"
    "p \<noteq> 0 \<Longrightarrow> gi_blocks gi \<noteq> []" "holders (g_tasks s) p \<noteq> {} \<Longrightarrow> sorted (gids gi)"
    using ginv_live [OF assms(1), of p] assms(2) by auto
  let ?gi = "gi\<lparr>usage := usage gi - 1\<rparr>"
  let ?s = "s\<lparr>g_objs := (g_objs s)(p \<mapsto> ?gi)\<rparr>"
  have n: "usage gi - 1 = 0 \<longleftrightarrow> ?n = 1"
    using usage_zero [OF gi(2)] ginv_refs_bound [OF assms(1), of p] assms(2,3) by simp
  show thesis
  proof (cases "?n = 1")
    case False
    have "usage gi - 1 = of_nat (refs (g_tasks s) p + (e p - 1))"
      using gi(2) assms(2) by (simp add: of_nat_diff)
    then have "ginv (e(p := e p - 1)) ?s"
      using assms gi False
      by (intro ginv_update) (auto simp: obj_ok_def obj_pages_def gi_ok_def gids_def)
    moreover have "put_group_info p s = Some ?s"
      using gi(1) n False by (simp add: put_group_info_def)
    ultimately show thesis
      using gi(1) by (intro that [of ?s]) (simp_all add: gids_def)
  next
    case True
    then have z: "refs (g_tasks s) p = 0" "e p = 1"
      using assms(2) by auto
    then have p: "p \<noteq> 0" and h: "holders (g_tasks s) p = {}"
      using finite_holders(1) [of "g_tasks s" PID_MAX_LIMIT p] assms(1)
      by (auto simp: refs_def ginv_def split: if_splits)
    let ?s' = "s\<lparr>g_objs := (g_objs s)(p := None), g_pages := g_pages s - obj_pages gi\<rparr>"
    have pages: "g_pages s = total_pages ((g_objs s)(p := None)) + obj_pages gi"
      using assms(1) total_pages_remove [of "g_objs s" p gi] gi(1) by (simp add: ginv_def)
    have "put_group_info p s = Some ?s'"
      using gi(1,4) n True p pages
      by (cases s) (simp add: put_group_info_def groups_free_def free_pages_def obj_pages_def Let_def)
    moreover have "g_pages ?s' = total_pages (g_objs ?s')"
      using pages by simp
    then have "ginv (e(p := e p - 1)) ?s'"
      using assms(1) z unfolding ginv_def by (simp add: obj_ok_def)
    ultimately show thesis
      using True by (intro that [of ?s']) simp_all
  qed
qed

text \<open>A change of the tasks moves references between tasks and running calls.\<close>

lemma ginv_tasks:
  assumes "ginv e s" "dom T \<subseteq> {..<PID_MAX_LIMIT}" "\<And>q. refs T q + e' q = refs (g_tasks s) q + e q"
    "\<And>q gi. holders T q \<noteq> {} \<Longrightarrow> holders (g_tasks s) q = {} \<Longrightarrow> g_objs s q = Some gi \<Longrightarrow> sorted (gids gi)"
  shows "ginv e' (s\<lparr>g_tasks := T\<rparr>)"
proof -
  have "obj_ok q (holders T q \<noteq> {}) (refs T q + e' q) (g_objs s q)" for q
    using ginv_obj [OF assms(1), of q] assms(3) [of q] assms(4) [of q]
    by (cases "g_objs s q") (auto simp: obj_ok_def)
  then show ?thesis
    using assms(1,2) by (simp add: ginv_def)
qed

lemma refs_update:
  assumes "dom T \<subseteq> {..<n}" "T t = Some x"
  shows "refs (T(t \<mapsto> y)) q + (if q = gt_info x then 1 else 0) = refs T q + (if q = gt_info y then 1 else 0)"
proof -
  have "t \<in> holders T q \<longleftrightarrow> q = gt_info x"
    using assms(2) by (auto simp: holders_def)
  then show ?thesis
    using finite_holders(1) [OF assms(1), of q] card_Suc_Diff1 [of "holders T q" t]
    by (auto simp: refs_def holders_update insert_absorb card_insert_if)
qed

lemma refs_new:
  assumes "dom T \<subseteq> {..<n}" "T t = None"
  shows "refs (T(t \<mapsto> y)) q = refs T q + (if q = gt_info y then 1 else 0)"
proof -
  have "t \<notin> holders T q"
    using assms(2) by (auto simp: holders_def)
  then show ?thesis
    using finite_holders(1) [OF assms(1), of q] by (auto simp: refs_def holders_update)
qed

lemma refs_delete:
  assumes "dom T \<subseteq> {..<n}" "T t = Some x"
  shows "refs (T(t := None)) q + (if q = gt_info x then 1 else 0) = refs T q"
proof -
  have "t \<in> holders T q \<longleftrightarrow> q = gt_info x"
    using assms(2) by (auto simp: holders_def)
  then show ?thesis
    using finite_holders(1) [OF assms(1), of q] card_Suc_Diff1 [of "holders T q" t]
    by (auto simp: refs_def holders_delete)
qed

lemma ginv_dom: "ginv e s \<Longrightarrow> dom (g_tasks s) \<subseteq> {..<PID_MAX_LIMIT}"
  by (simp add: ginv_def)

lemma ginv_cred:
  assumes "ginv e s" "g_tasks s cur = Some t"
  shows "ginv e (s\<lparr>g_tasks := (g_tasks s)(cur \<mapsto> t\<lparr>gt_cred := c\<rparr>)\<rparr>)"
proof -
  have "holders ((g_tasks s)(cur \<mapsto> t\<lparr>gt_cred := c\<rparr>)) q = holders (g_tasks s) q" for q
    using assms(2) by (auto simp: holders_def)
  moreover have "dom ((g_tasks s)(cur \<mapsto> t\<lparr>gt_cred := c\<rparr>)) = dom (g_tasks s)"
    using assms(2) by auto
  ultimately show ?thesis
    using assms(1) by (simp add: ginv_def refs_def)
qed

lemma ginv_switch:
  assumes "ginv e s" "g_tasks s cur = Some t" "0 < e p" "g_objs s p = Some gi" "sorted (gids gi)"
  shows "ginv (\<lambda>q. e q + (if q = gt_info t then 1 else 0) - (if q = p then 1 else 0))
    (s\<lparr>g_tasks := (g_tasks s)(cur \<mapsto> t\<lparr>gt_info := p\<rparr>)\<rparr>)"
proof (rule ginv_tasks [OF assms(1)])
  show "dom ((g_tasks s)(cur \<mapsto> t\<lparr>gt_info := p\<rparr>)) \<subseteq> {..<PID_MAX_LIMIT}"
    using ginv_dom [OF assms(1)] assms(2) by auto
  show "refs ((g_tasks s)(cur \<mapsto> t\<lparr>gt_info := p\<rparr>)) q +
      (e q + (if q = gt_info t then 1 else 0) - (if q = p then 1 else 0)) = refs (g_tasks s) q + e q" for q
    using refs_update [OF ginv_dom [OF assms(1)] assms(2), of "t\<lparr>gt_info := p\<rparr>" q] assms(3)
    by (simp split: if_splits)
  show "sorted (gids gi')" if "holders ((g_tasks s)(cur \<mapsto> t\<lparr>gt_info := p\<rparr>)) q \<noteq> {}"
    "holders (g_tasks s) q = {}" "g_objs s q = Some gi'" for q gi'
    using that assms(4,5) by (auto simp: holders_update split: if_splits)
qed

lemma ginv_new_task:
  assumes "ginv e s" "g_tasks s cur = Some t" "g_tasks s child = None" "child < PID_MAX_LIMIT"
    "0 < e (gt_info t)"
  shows "ginv (e(gt_info t := e (gt_info t) - 1)) (s\<lparr>g_tasks := (g_tasks s)(child \<mapsto> t)\<rparr>)"
proof (rule ginv_tasks [OF assms(1)])
  show "dom ((g_tasks s)(child \<mapsto> t)) \<subseteq> {..<PID_MAX_LIMIT}"
    using ginv_dom [OF assms(1)] assms(4) by auto
  show "refs ((g_tasks s)(child \<mapsto> t)) q + (e(gt_info t := e (gt_info t) - 1)) q =
      refs (g_tasks s) q + e q" for q
    using refs_new [OF ginv_dom [OF assms(1)] assms(3), of t q] assms(5) by simp
  show "sorted (gids gi')" if "holders ((g_tasks s)(child \<mapsto> t)) q \<noteq> {}"
    "holders (g_tasks s) q = {}" for q gi'
    using that assms(2) by (auto simp: holders_update holders_def split: if_splits)
qed

lemma ginv_remove_task:
  assumes "ginv e s" "g_tasks s cur = Some t"
  shows "ginv (e(gt_info t := e (gt_info t) + 1)) (s\<lparr>g_tasks := (g_tasks s)(cur := None)\<rparr>)"
proof (rule ginv_tasks [OF assms(1)])
  show "dom ((g_tasks s)(cur := None)) \<subseteq> {..<PID_MAX_LIMIT}"
    using ginv_dom [OF assms(1)] by auto
  show "refs ((g_tasks s)(cur := None)) q + (e(gt_info t := e (gt_info t) + 1)) q =
      refs (g_tasks s) q + e q" for q
    using refs_delete [OF ginv_dom [OF assms(1)] assms(2), of q] by (auto split: if_splits)
  show "sorted (gids gi')" if "holders ((g_tasks s)(cur := None)) q \<noteq> {}"
    "holders (g_tasks s) q = {}" for q gi'
    using that by (auto simp: holders_delete)
qed

section \<open>Queries\<close>

lemma groups_search_loop_sound:
  assumes "gi_ok gi" "right \<le> ngroups gi"
  shows "\<exists>b. groups_search_loop gi grp left right = Some b \<and> (b \<longrightarrow> grp \<in> set (gids gi))"
  using assms
proof (induction gi grp left right rule: groups_search_loop.induct)
  case (1 gi grp left right)
  show ?case
  proof (cases "left < right")
    case True
    define mid where "mid = (left + right) div 2"
    have mid: "mid < ngroups gi" "mid \<le> ngroups gi"
      using True "1.prems" by (auto simp: mid_def)
    note at = GROUP_AT_gids [OF "1.prems"(1) mid(1)]
    consider (gt) "sint (grp - gids gi ! mid) > 0" | (lt) "sint (grp - gids gi ! mid) < 0"
      | (eq) "sint (grp - gids gi ! mid) = 0"
      by linarith
    then show ?thesis
    proof cases
      case gt
      then show ?thesis
        using "1.IH"(1) [OF True mid_def at refl gt "1.prems"] True at unfolding mid_def
        by (subst groups_search_loop.simps) simp
    next
      case lt
      then have "\<not> sint (grp - gids gi ! mid) > 0"
        by simp
      from "1.IH"(2) [OF True mid_def at refl this lt "1.prems"(1) mid(2)] show ?thesis
        using True at lt unfolding mid_def by (subst groups_search_loop.simps) simp
    next
      case eq
      then have "grp = gids gi ! mid"
        by (metis eq_iff_diff_eq_0 signed_0 signed_word_eqI)
      then show ?thesis
        using True at mid "1.prems"(1) unfolding mid_def
        by (subst groups_search_loop.simps) auto
    qed
  qed (auto simp: groups_search_loop.simps [of gi grp left right])
qed

lemma groups_search_sound:
  assumes "gi_ok gi"
  obtains b where "groups_search gi grp = Some b" "b \<Longrightarrow> grp \<in> set (gids gi)"
  using groups_search_loop_sound [OF assms, of "ngroups gi" grp 0] that by (auto simp: groups_search_def)

lemma ginv_usage:
  assumes "ginv (\<lambda>_. 0) s" "g_objs s p = Some gi"
  shows "usage gi \<noteq> 0"
proof -
  let ?n = "refs (g_tasks s) p"
  have n: "usage gi = of_nat ?n" "0 < ?n" "?n < 2 ^ 32"
    using ginv_obj [OF assms(1), of p] ginv_refs_bound [OF assms(1), of p] assms(2)
    by (simp_all add: obj_ok_def)
  then have "unat (usage gi) = ?n"
    by (simp add: unat_of_nat take_bit_nat_eq_self)
  then show ?thesis
    using n(2) by auto
qed

text \<open>Taking and dropping a reference leaves the state as it was.\<close>

lemma get_put_group_info:
  assumes "ginv (\<lambda>_. 0) s" "g_objs s p = Some gi"
  obtains s1 gi1 where "get_group_info p s = Some s1" "g_objs s1 p = Some gi1" "ngroups gi1 = ngroups gi"
    "gids gi1 = gids gi" "gi_ok gi1 = gi_ok gi" "put_group_info p s1 = Some s"
proof (rule that)
  let ?gi = "gi\<lparr>usage := usage gi + 1\<rparr>"
  let ?s = "s\<lparr>g_objs := (g_objs s)(p \<mapsto> ?gi)\<rparr>"
  show "get_group_info p s = Some ?s"
    using assms(2) by (simp add: get_group_info_def)
  show "g_objs ?s p = Some ?gi" "ngroups ?gi = ngroups gi" "gids ?gi = gids gi" "gi_ok ?gi = gi_ok gi"
    by (simp_all add: gids_def gi_ok_def)
  have "(g_objs s)(p \<mapsto> gi) = g_objs s"
    using assms(2) by (simp add: fun_upd_idem)
  then show "put_group_info p ?s = Some s"
    using ginv_usage [OF assms] by (cases s) (simp add: put_group_info_def)
qed

definition task_gids :: "gsys \<Rightarrow> nat \<Rightarrow> u32 list option" where
  "task_gids s t = g_tasks s t \<bind> (\<lambda>x. map_option gids (g_objs s (gt_info x)))"

lemma ginv_task_gids:
  assumes "ginv e s" "g_tasks s t = Some x"
  obtains gi where "g_objs s (gt_info x) = Some gi" "gi_ok gi" "sorted (gids gi)"
    "task_gids s t = Some (gids gi)"
  using ginv_task [OF assms] assms(2) that by (metis bind.bind_lunit option.simps(9) task_gids_def)

text \<open>
  \<open>in_group_p\<close> and \<open>in_egroup_p\<close> have the same body with another id of the task.
\<close>

lemma group_query:
  assumes "ginv (\<lambda>_. 0) s" "g_objs s p = Some gi" "gi_ok gi" "sorted (gids gi)"
  shows "\<exists>b. get_group_info p s \<bind> (\<lambda>s1. g_objs s1 p \<bind> (\<lambda>gi. groups_search gi grp \<bind> (\<lambda>retval.
      put_group_info p s1 \<bind> (\<lambda>s2. Some (retval, s2))))) = Some (b, s) \<and>
    (b \<longrightarrow> grp \<in> set (gids gi)) \<and> ((\<forall>x \<in> set (gids gi). gid_close grp x) \<longrightarrow> b = (grp \<in> set (gids gi)))"
proof -
  obtain s1 gi1 where s1: "get_group_info p s = Some s1" "g_objs s1 p = Some gi1"
    "gids gi1 = gids gi" "gi_ok gi1 = gi_ok gi" "put_group_info p s1 = Some s"
    using get_put_group_info [OF assms(1,2)] by metis
  obtain b where b: "groups_search gi1 grp = Some b" "b \<Longrightarrow> grp \<in> set (gids gi1)"
    using groups_search_sound [of gi1 grp] s1(4) assms(3) by metis
  show ?thesis
  proof (intro exI conjI impI)
    show "get_group_info p s \<bind> (\<lambda>s1. g_objs s1 p \<bind> (\<lambda>gi. groups_search gi grp \<bind> (\<lambda>retval.
      put_group_info p s1 \<bind> (\<lambda>s2. Some (retval, s2))))) = Some (b, s)"
      using s1 b(1) by simp
    show "grp \<in> set (gids gi)" if b
      using b(2) that s1(3) by simp
    show "b = (grp \<in> set (gids gi))" if "\<forall>x \<in> set (gids gi). gid_close grp x"
      using groups_search_spec [of gi1 grp] that s1(3,4) assms(3,4) b(1) by simp
  qed
qed

lemma in_group_p_spec:
  assumes "ginv (\<lambda>_. 0) s" "g_tasks s cur = Some t" "task_gids s cur = Some gs"
  obtains b where "in_group_p cur grp s = Some (b, s)" "b \<Longrightarrow> grp = c_fsgid (gt_cred t) \<or> grp \<in> set gs"
    "\<forall>x \<in> set gs. gid_close grp x \<Longrightarrow> b = (grp = c_fsgid (gt_cred t) \<or> grp \<in> set gs)"
proof -
  obtain gi where gi: "g_objs s (gt_info t) = Some gi" "gi_ok gi" "sorted (gids gi)" "gs = gids gi"
    using ginv_task_gids [OF assms(1,2)] assms(3) by (metis option.inject)
  show thesis
  proof (cases "grp = c_fsgid (gt_cred t)")
    case True
    then show thesis
      using that [of True] assms(2) by (simp add: in_group_p_def)
  next
    case False
    obtain b where "get_group_info (gt_info t) s \<bind> (\<lambda>s1. g_objs s1 (gt_info t) \<bind> (\<lambda>gi.
        groups_search gi grp \<bind> (\<lambda>retval.
        put_group_info (gt_info t) s1 \<bind> (\<lambda>s2. Some (retval, s2))))) = Some (b, s) \<and>
      (b \<longrightarrow> grp \<in> set (gids gi)) \<and>
      ((\<forall>x \<in> set (gids gi). gid_close grp x) \<longrightarrow> b = (grp \<in> set (gids gi)))"
      using group_query [OF assms(1) gi(1-3), of grp] by (elim exE)
    then show thesis
      using that [of b] assms(2) False gi(4) by (simp add: in_group_p_def)
  qed
qed

lemma in_egroup_p_spec:
  assumes "ginv (\<lambda>_. 0) s" "g_tasks s cur = Some t" "task_gids s cur = Some gs"
  obtains b where "in_egroup_p cur grp s = Some (b, s)" "b \<Longrightarrow> grp = c_egid (gt_cred t) \<or> grp \<in> set gs"
    "\<forall>x \<in> set gs. gid_close grp x \<Longrightarrow> b = (grp = c_egid (gt_cred t) \<or> grp \<in> set gs)"
proof -
  obtain gi where gi: "g_objs s (gt_info t) = Some gi" "gi_ok gi" "sorted (gids gi)" "gs = gids gi"
    using ginv_task_gids [OF assms(1,2)] assms(3) by (metis option.inject)
  show thesis
  proof (cases "grp = c_egid (gt_cred t)")
    case True
    then show thesis
      using that [of True] assms(2) by (simp add: in_egroup_p_def)
  next
    case False
    obtain b where "get_group_info (gt_info t) s \<bind> (\<lambda>s1. g_objs s1 (gt_info t) \<bind> (\<lambda>gi.
        groups_search gi grp \<bind> (\<lambda>retval.
        put_group_info (gt_info t) s1 \<bind> (\<lambda>s2. Some (retval, s2))))) = Some (b, s) \<and>
      (b \<longrightarrow> grp \<in> set (gids gi)) \<and>
      ((\<forall>x \<in> set (gids gi). gid_close grp x) \<longrightarrow> b = (grp \<in> set (gids gi)))"
      using group_query [OF assms(1) gi(1-3), of grp] by (elim exE)
    then show thesis
      using that [of b] assms(2) False gi(4) by (simp add: in_egroup_p_def)
  qed
qed

end
