(* ===== verification/GroupRuns.thy ===== *)
theory GroupRuns
  imports GroupCalls
begin

text \<open>
  The system calls that read and set the groups of a task, for 32-bit and 16-bit user
  arrays, and runs of a system of tasks that fork, exit and make these calls in any order.
\<close>

section \<open>Reading the groups\<close>

context groups_writer
begin

lemma getgroups_body:
  assumes "ginv (\<lambda>_. 0) s" "g_tasks s cur = Some t" "task_gids s cur = Some gs"
  obtains gi where "gi_ok gi" "gids gi = gs" "ngroups gi = length gs"
    "getgroups_with to_user cur n u s =
      (if n <s 0 then Some (Inl EINVAL, u, s)
       else if n = 0 then Some (Inr (length gs), u, s)
       else if sint n < int (length gs) then Some (Inl EINVAL, u, s)
       else to_user gi u \<bind> (\<lambda>(r, u'). Some (case r of None \<Rightarrow> Inr (length gs) | Some e \<Rightarrow> Inl EFAULT, u', s)))"
proof -
  obtain gi where gi: "g_objs s (gt_info t) = Some gi" "gi_ok gi" "sorted (gids gi)" "gs = gids gi"
    using ginv_task_gids [OF assms(1,2)] assms(3) by (metis option.inject)
  obtain s1 gi1 where s1: "get_group_info (gt_info t) s = Some s1" "g_objs s1 (gt_info t) = Some gi1"
    "ngroups gi1 = ngroups gi" "gids gi1 = gids gi" "gi_ok gi1 = gi_ok gi"
    "put_group_info (gt_info t) s1 = Some s"
    using get_put_group_info [OF assms(1) gi(1)] by metis
  have "ngroups gi1 = length gs"
    using gi(2,4) s1(3) by simp
  moreover have "getgroups_with to_user cur n u s =
      (if n <s 0 then Some (Inl EINVAL, u, s)
       else if n = 0 then Some (Inr (length gs), u, s)
       else if sint n < int (length gs) then Some (Inl EINVAL, u, s)
       else to_user gi1 u \<bind> (\<lambda>(r, u'). Some (case r of None \<Rightarrow> Inr (length gs) | Some e \<Rightarrow> Inl EFAULT, u', s)))"
    using assms(2) s1 calculation
    by (cases "to_user gi1 u") (simp_all add: getgroups_with_def split: prod.split option.split)
  ultimately show thesis
    using that [of gi1] gi(2,4) s1(4,5) by simp
qed

lemma getgroups_spec:
  assumes "ginv (\<lambda>_. 0) s" "g_tasks s cur = Some t" "task_gids s cur = Some gs"
  shows "n <s 0 \<Longrightarrow> getgroups_with to_user cur n u s = Some (Inl EINVAL, u, s)"
    and "n = 0 \<Longrightarrow> getgroups_with to_user cur n u s = Some (Inr (length gs), u, s)"
    and "0 <s n \<Longrightarrow> sint n < int (length gs) \<Longrightarrow> getgroups_with to_user cur n u s = Some (Inl EINVAL, u, s)"
    and "0 <s n \<Longrightarrow> int (length gs) \<le> sint n \<Longrightarrow> \<forall>k < length gs. u k \<noteq> None \<Longrightarrow>
      getgroups_with to_user cur n u s =
        Some (Inr (length gs), \<lambda>k. if k < length gs then Some (conv (gs ! k)) else u k, s)"
    and "0 <s n \<Longrightarrow> int (length gs) \<le> sint n \<Longrightarrow> k < length gs \<Longrightarrow> u k = None \<Longrightarrow>
      \<exists>u'. getgroups_with to_user cur n u s = Some (Inl EFAULT, u', s)"
proof -
  show "n <s 0 \<Longrightarrow> getgroups_with to_user cur n u s = Some (Inl EINVAL, u, s)"
    by (simp add: getgroups_with_def)
  have sgn: "\<not> n <s 0" "n \<noteq> 0" if "0 <s n"
    using that by (auto simp: word_sless_alt)
  obtain gi where *: "gi_ok gi" "gids gi = gs" "ngroups gi = length gs"
    and body: "getgroups_with to_user cur n u s =
      (if n <s 0 then Some (Inl EINVAL, u, s)
       else if n = 0 then Some (Inr (length gs), u, s)
       else if sint n < int (length gs) then Some (Inl EINVAL, u, s)
       else to_user gi u \<bind> (\<lambda>(r, u'). Some (case r of None \<Rightarrow> Inr (length gs) | Some e \<Rightarrow> Inl EFAULT, u', s)))"
    by (rule getgroups_body [OF assms])
  show "n = 0 \<Longrightarrow> getgroups_with to_user cur n u s = Some (Inr (length gs), u, s)"
    using body by simp
  show "0 <s n \<Longrightarrow> sint n < int (length gs) \<Longrightarrow> getgroups_with to_user cur n u s = Some (Inl EINVAL, u, s)"
    using body sgn by simp
  show "getgroups_with to_user cur n u s =
      Some (Inr (length gs), \<lambda>k. if k < length gs then Some (conv (gs ! k)) else u k, s)"
    if "0 <s n" "int (length gs) \<le> sint n" "\<forall>k < length gs. u k \<noteq> None"
    using body sgn that writes [OF *(1), of u, unfolded *(2,3)] by simp
  show "\<exists>u'. getgroups_with to_user cur n u s = Some (Inl EFAULT, u', s)"
    if big: "0 <s n" "int (length gs) \<le> sint n" and bad: "k < length gs" "u k = None"
  proof -
    obtain u' where "to_user gi u = Some (Some EFAULT, u')"
      using write_faults [OF *(1), of k u] *(3) bad by auto
    then show ?thesis
      using body sgn big by simp
  qed
qed

lemma getgroups_total:
  assumes "ginv (\<lambda>_. 0) s" "g_tasks s cur = Some t"
  obtains r u' where "getgroups_with to_user cur n u s = Some (r, u', s)"
proof -
  obtain gs where gs: "task_gids s cur = Some gs"
    using ginv_task_gids [OF assms] by metis
  note spec = getgroups_spec [OF assms gs, of n]
  show thesis
  proof (cases "0 <s n \<and> int (length gs) \<le> sint n")
    case True
    then show thesis
      using spec(4) [of u] spec(5) [of _ u] that by (cases "\<forall>k < length gs. u k \<noteq> None") (metis, metis)
  next
    case False
    then have "n <s 0 \<or> n = 0 \<or> 0 <s n \<and> sint n < int (length gs)"
      by (metis linorder_not_less signed.less_linear)
    then show thesis
      using spec(1-3) [of u] that by metis
  qed
qed

end

section \<open>Setting the groups\<close>

lemma groups_alloc_loop_spec:
  assumes "i \<le> nb" "length bs = i" "\<forall>b \<in> set bs. length b = NGROUPS_PER_BLOCK"
  shows "(\<exists>bs'. groups_alloc_loop env i nb bs pages = (Inr bs', pages + (nb - i)) \<and> length bs' = nb \<and>
      (\<forall>b \<in> set bs'. length b = NGROUPS_PER_BLOCK)) \<or>
    (\<exists>j. \<not> ga_page env j \<and> i \<le> j \<and> groups_alloc_loop env i nb bs pages = (Inl j, pages + (j - i)))"
  using assms
proof (induction env i nb bs pages rule: groups_alloc_loop.induct)
  case (1 env i nb bs pages)
  show ?case
  proof (cases "i < nb \<and> ga_page env i")
    case True
    let ?bs = "bs @ [map (ga_junk env i) [0..<NGROUPS_PER_BLOCK]]"
    have "groups_alloc_loop env i nb bs pages = groups_alloc_loop env (i + 1) nb ?bs (pages + 1)"
      using True by (subst groups_alloc_loop.simps) simp
    moreover have "i + 1 \<le> nb" "length ?bs = i + 1" "\<forall>b \<in> set ?bs. length b = NGROUPS_PER_BLOCK"
      using True "1.prems" by auto
    note IH = "1.IH" [OF conjunct1 [OF True] conjunct2 [OF True] this]
    have "pages + 1 + (k - (i + 1)) = pages + (k - i)" if "i + 1 \<le> k" for k
      using that by simp
    ultimately show ?thesis
      using IH \<open>i + 1 \<le> nb\<close> by (metis add_leD1)
  next
    case False
    then have "groups_alloc_loop env i nb bs pages = (if i < nb then Inl i else Inr bs, pages)"
      by (subst groups_alloc_loop.simps) simp
    then show ?thesis
      using "1.prems" False by (cases "i < nb") (auto intro!: exI [of _ i])
  qed
qed

lemma blocks_full:
  "\<forall>b \<in> set bs. length b = NGROUPS_PER_BLOCK \<Longrightarrow> n \<le> length bs * NGROUPS_PER_BLOCK \<Longrightarrow> blocks_ok bs n"
  by (induction bs arbitrary: n) auto

lemma groups_nblocks_room: "n \<le> groups_nblocks n * NGROUPS_PER_BLOCK" "0 < groups_nblocks n"
proof -
  have "(n + 1024 - 1) mod 1024 < 1024"
    by simp
  then have "n \<le> (n + 1024 - 1) div 1024 * 1024"
    using div_mult_mod_eq [of "n + 1024 - 1" 1024] by linarith
  then show "n \<le> groups_nblocks n * NGROUPS_PER_BLOCK"
    by (auto simp: groups_nblocks_def NGROUPS_PER_BLOCK_def Let_def)
  show "0 < groups_nblocks n"
    by (simp add: groups_nblocks_def Let_def)
qed

lemma groups_alloc_spec:
  obtains (fail) "groups_alloc env n s = Some (None, s)"
      "ga_obj env = None \<or> NGROUPS_SMALL < n \<and> (\<exists>j. \<not> ga_page env j)"
  | (ok) p gi where "ga_obj env = Some p"
      "groups_alloc env n s =
        Some (Some p, s\<lparr>g_objs := (g_objs s)(p \<mapsto> gi), g_pages := g_pages s + obj_pages gi\<rparr>)"
      "ngroups gi = n" "usage gi = 1" "gi_ok gi" "gi_blocks gi \<noteq> []"
proof (cases "ga_obj env")
  case None
  then show thesis
    using fail by (simp add: groups_alloc_def Let_def)
next
  case (Some p)
  let ?gi = "\<lambda>bs. \<lparr>ngroups = n, usage = 1, gi_small = (n \<le> NGROUPS_SMALL), gi_blocks = bs\<rparr>"
  show thesis
  proof (cases "n \<le> NGROUPS_SMALL")
    case True
    show thesis
      by (rule ok [OF Some, of "?gi [map (ga_junk env 0) [0..<NGROUPS_SMALL]]"])
        (use True Some in \<open>cases s; simp add: groups_alloc_def Let_def obj_pages_def gi_ok_def
           NGROUPS_SMALL_def NGROUPS_PER_BLOCK_def\<close>)+
  next
    case False
    consider (all) bs where "groups_alloc_loop env 0 (groups_nblocks n) [] (g_pages s) =
        (Inr bs, g_pages s + groups_nblocks n)" "length bs = groups_nblocks n"
        "\<forall>b \<in> set bs. length b = NGROUPS_PER_BLOCK"
      | (some) j where "\<not> ga_page env j"
        "groups_alloc_loop env 0 (groups_nblocks n) [] (g_pages s) = (Inl j, g_pages s + j)"
      using groups_alloc_loop_spec [of 0 "groups_nblocks n" "[]" env "g_pages s"] by auto
    then show thesis
    proof cases
      case all
      have "bs \<noteq> []" "blocks_ok bs n"
        using all(2,3) groups_nblocks_room [of n] by (auto intro: blocks_full)
      then show thesis
        by (intro ok [OF Some, of "?gi bs"])
          (use False Some all in \<open>simp_all add: groups_alloc_def Let_def obj_pages_def gi_ok_def\<close>)
    next
      case some
      have "groups_alloc env n s = Some (None, s)"
        using False Some some(2) by (cases s) (simp add: groups_alloc_def Let_def free_pages_def)
      then show thesis
        using fail False some(1) by auto
    qed
  qed
qed

lemma ginv_alloc:
  assumes "ginv (\<lambda>_. 0) s" "g_objs s p = None" "usage gi = 1" "gi_ok gi" "gi_blocks gi \<noteq> []"
  shows "ginv ((\<lambda>_. 0)(p := 1)) (s\<lparr>g_objs := (g_objs s)(p \<mapsto> gi), g_pages := g_pages s + obj_pages gi\<rparr>)"
    "holders (g_tasks s) p = {}"
proof -
  have r: "refs (g_tasks s) p = 0"
    using ginv_obj [OF assms(1), of p] assms(2) by (simp add: obj_ok_def)
  then show h: "holders (g_tasks s) p = {}"
    using finite_holders(1) [OF ginv_dom [OF assms(1)], of p] by (simp add: refs_def)
  show "ginv ((\<lambda>_. 0)(p := 1)) (s\<lparr>g_objs := (g_objs s)(p \<mapsto> gi), g_pages := g_pages s + obj_pages gi\<rparr>)"
    using assms r h total_pages_new [of "g_objs s" p gi] by (simp add: ginv_def) (simp add: obj_ok_def)
qed

lemma ginv_same_shape:
  assumes "ginv e s" "g_objs s p = Some gi" "same_shape gi gi'" "holders (g_tasks s) p = {}"
  shows "ginv e (s\<lparr>g_objs := (g_objs s)(p \<mapsto> gi')\<rparr>)"
proof -
  have "length (gi_blocks gi') = length (gi_blocks gi)"
    using assms(3) unfolding same_shape_def by (metis length_map)
  then have "obj_pages gi' = obj_pages gi" "gi_blocks gi' = [] \<longleftrightarrow> gi_blocks gi = []"
    using assms(3) by (auto simp: obj_pages_def same_shape_def)
  then have "ginv (e(p := e p)) (s\<lparr>g_objs := (g_objs s)(p \<mapsto> gi')\<rparr>)"
    using assms ginv_obj [OF assms(1), of p] same_shape_ok [OF assms(3)]
    by (intro ginv_update) (auto simp: obj_ok_def same_shape_def)
  then show ?thesis
    by simp
qed

text \<open>The caller holds the only reference to the new object at \<open>p\<close>.\<close>

lemma set_current_groups_spec:
  assumes "ginv ((\<lambda>_. 0)(p := 1)) s" "g_objs s p = Some gi" "holders (g_tasks s) p = {}"
    "g_tasks s cur = Some t"
  obtains s' where "set_current_groups cur p s = Some (None, s')" "ginv ((\<lambda>_. 0)(p := 1)) s'"
    "g_tasks s' = (g_tasks s)(cur \<mapsto> t\<lparr>gt_info := p\<rparr>)"
    "map_option gids (g_objs s' p) = Some (sort (gids gi))"
    "\<And>c. c \<noteq> cur \<Longrightarrow> task_gids s' c = task_gids s c"
proof -
  let ?old = "gt_info t" and ?T = "(g_tasks s)(cur \<mapsto> t\<lparr>gt_info := p\<rparr>)"
  have old: "?old \<noteq> p"
    using assms(3,4) by (auto simp: holders_def)
  have "gi_ok gi"
    using ginv_obj [OF assms(1), of p] assms(2) by (simp add: obj_ok_def)
  then obtain gi1 where gi1: "groups_sort gi = Some gi1" "same_shape gi gi1" "gids gi1 = sort (gids gi)"
    by (rule groups_sort_spec)
  let ?gi2 = "gi1\<lparr>usage := usage gi1 + 1\<rparr>"
  let ?s1 = "s\<lparr>g_objs := (g_objs s)(p \<mapsto> gi1)\<rparr>" and ?s2 = "s\<lparr>g_objs := (g_objs s)(p \<mapsto> ?gi2)\<rparr>"
  let ?s3 = "s\<lparr>g_objs := (g_objs s)(p \<mapsto> ?gi2), g_tasks := ?T\<rparr>"
  have "ginv ((\<lambda>_. 0)(p := 1)) ?s1"
    by (rule ginv_same_shape [OF assms(1,2) gi1(2) assms(3)])
  then have get: "get_group_info p ?s1 = Some ?s2" "ginv ((\<lambda>_. 0)(p := 2)) ?s2"
    using get_group_info_ginv [of "(\<lambda>_. 0)(p := 1)" ?s1 p gi1]
    by (simp_all add: numeral_2_eq_2)
  have "ginv (\<lambda>q. ((\<lambda>_. 0)(p := 2)) q + (if q = ?old then 1 else 0) - (if q = p then 1 else 0)) ?s3"
    using ginv_switch [OF get(2), of cur t p ?gi2] assms(4) gi1(3) by (simp add: gids_def)
  moreover have "(\<lambda>q. ((\<lambda>_. 0)(p := 2)) q + (if q = ?old then 1 else 0) - (if q = p then 1 else 0)) =
      (\<lambda>_. 0)(p := 1, ?old := 1 :: nat)"
    using old by (auto simp: fun_eq_iff)
  ultimately have inv3: "ginv ((\<lambda>_. 0)(p := 1, ?old := 1)) ?s3"
    by simp
  obtain s' where "put_group_info ?old ?s3 = Some s'"
    "ginv (((\<lambda>_. 0)(p := 1, ?old := 1))(?old := ((\<lambda>_. 0)(p := 1, ?old := 1)) ?old - 1)) s'"
    "g_tasks s' = g_tasks ?s3"
    "1 < refs (g_tasks ?s3) ?old + ((\<lambda>_. 0)(p := 1, ?old := 1)) ?old \<longrightarrow>
      map_option gids (g_objs s' ?old) = map_option gids (g_objs ?s3 ?old)"
    "\<forall>q. q \<noteq> ?old \<longrightarrow> g_objs s' q = g_objs ?s3 q"
    by (rule put_group_info_ginv [OF inv3, of ?old]) simp_all
  then have s': "put_group_info ?old ?s3 = Some s'" "ginv ((\<lambda>_. 0)(p := 1, ?old := 0)) s'"
    "g_tasks s' = ?T"
    "0 < refs ?T ?old \<Longrightarrow> map_option gids (g_objs s' ?old) = map_option gids (g_objs s ?old)"
    "\<And>q. q \<noteq> ?old \<Longrightarrow> g_objs s' q = g_objs ?s3 q"
    using old by simp_all
  show thesis
  proof (rule that [of s'])
    show "set_current_groups cur p s = Some (None, s')"
      using assms(2,4) gi1(1) get(1) s'(1) by (simp add: set_current_groups_def security_task_setgroups_def)
    show "ginv ((\<lambda>_. 0)(p := 1)) s'"
      using s'(2) old by (simp add: fun_upd_idem fun_upd_twist)
    show "g_tasks s' = ?T"
      by (rule s'(3))
    show "map_option gids (g_objs s' p) = Some (sort (gids gi))"
      using s'(5) [of p] old gi1(3) by (simp add: gids_def)
    fix c assume c: "c \<noteq> cur"
    show "task_gids s' c = task_gids s c"
    proof (cases "g_tasks s c")
      case (Some x)
      have "gt_info x \<noteq> p"
        using Some assms(3) by (auto simp: holders_def)
      moreover have "0 < refs ?T (gt_info x)"
      proof -
        have "c \<in> holders ?T (gt_info x)"
          using Some c by (simp add: holders_def)
        then show ?thesis
          using finite_holders(1) [OF ginv_dom [OF inv3], of "gt_info x"]
          by (auto simp: refs_def card_gt_0_iff)
      qed
      ultimately show ?thesis
        using s'(3-5) Some c by (cases "gt_info x = ?old") (simp_all add: task_gids_def)
    qed (use s'(3) c in \<open>simp add: task_gids_def\<close>)
  qed
qed

lemma task_gids_cred:
  "g_tasks s cur = Some t \<Longrightarrow>
   task_gids (s\<lparr>g_tasks := (g_tasks s)(cur \<mapsto> t\<lparr>gt_cred := c\<rparr>)\<rparr>) q = task_gids s q"
  by (simp add: task_gids_def)

text \<open>Dropping the last reference of a call.\<close>

lemma put_last:
  assumes "ginv ((\<lambda>_. 0)(p := 1)) s"
  obtains s' where "put_group_info p s = Some s'" "ginv (\<lambda>_. 0) s'" "g_tasks s' = g_tasks s"
    "\<forall>c. task_gids s' c = task_gids s c"
proof -
  obtain s' where s': "put_group_info p s = Some s'"
    "ginv (((\<lambda>_. 0)(p := 1))(p := ((\<lambda>_. 0)(p := 1)) p - 1)) s'" "g_tasks s' = g_tasks s"
    "1 < refs (g_tasks s) p + ((\<lambda>_. 0)(p := 1)) p \<longrightarrow>
      map_option gids (g_objs s' p) = map_option gids (g_objs s p)"
    "\<forall>q. q \<noteq> p \<longrightarrow> g_objs s' q = g_objs s q"
    by (rule put_group_info_ginv [OF assms, of p]) simp_all
  have "task_gids s' c = task_gids s c" for c
  proof (cases "g_tasks s c")
    case (Some x)
    then have "c \<in> holders (g_tasks s) (gt_info x)"
      by (simp add: holders_def)
    then have "0 < refs (g_tasks s) (gt_info x)"
      using finite_holders(1) [OF ginv_dom [OF assms], of "gt_info x"] by (auto simp: refs_def card_gt_0_iff)
    then show ?thesis
      using s'(3-5) Some by (cases "gt_info x = p") (simp_all add: task_gids_def)
  qed (use s'(3) in \<open>simp add: task_gids_def\<close>)
  moreover have "((\<lambda>_. 0)(p := 1))(p := ((\<lambda>_. 0)(p := 1)) p - 1) = (\<lambda>_. 0 :: nat)"
    by auto
  ultimately show thesis
    using that s'(1-3) by simp
qed

context groups_reader
begin

text \<open>The call after the allocation of the object at \<open>p\<close>.\<close>

lemma setgroups_fill:
  fixes u :: "'a uarray"
  assumes "ginv ((\<lambda>_. 0)(p := 1)) s" "g_objs s p = Some gi" "holders (g_tasks s) p = {}"
    "g_tasks s cur = Some t" "gi_ok gi"
  defines "fill \<equiv> from_user gi u \<bind> (\<lambda>r. case r of
      Inl e \<Rightarrow> put_group_info p s \<bind> (\<lambda>s3. Some (Some e, s3))
    | Inr gi1 \<Rightarrow> set_current_groups cur p (s\<lparr>g_objs := (g_objs s)(p \<mapsto> gi1)\<rparr>) \<bind> (\<lambda>(r, s3).
        put_group_info p s3 \<bind> (\<lambda>s4. Some (r, s4))))"
  obtains (fault) k s' where "fill = Some (Some EFAULT, s')" "ginv (\<lambda>_. 0) s'" "k < ngroups gi" "u k = None"
      "g_tasks s' = g_tasks s" "\<forall>c. task_gids s' c = task_gids s c"
  | (set) xs s' where "fill = Some (None, s')" "ginv (\<lambda>_. 0) s'" "length xs = ngroups gi"
      "\<forall>k < ngroups gi. u k = Some (xs ! k)" "g_tasks s' = (g_tasks s)(cur \<mapsto> t\<lparr>gt_info := p\<rparr>)"
      "task_gids s' cur = Some (sort (map conv xs))" "\<forall>c. c \<noteq> cur \<longrightarrow> task_gids s' c = task_gids s c"
proof (cases "\<exists>k < ngroups gi. u k = None")
  case True
  then obtain k where k: "k < ngroups gi" "u k = None"
    by blast
  obtain s' where "put_group_info p s = Some s'" "ginv (\<lambda>_. 0) s'" "g_tasks s' = g_tasks s"
    "\<forall>c. task_gids s' c = task_gids s c"
    by (rule put_last [OF assms(1)])
  then show thesis
    using fault [of s' k] k read_faults [where u = u, OF assms(5) k] by (simp add: fill_def)
next
  case False
  define xs where "xs = map (the \<circ> u) [0..<ngroups gi]"
  have xs: "length xs = ngroups gi" "\<forall>k < ngroups gi. u k = Some (xs ! k)"
    using False by (auto simp: xs_def)
  obtain gi1 where gi1: "from_user gi u = Some (Inr gi1)" "same_shape gi gi1" "gids gi1 = map conv xs"
    using reads [where u = u, OF assms(5) xs] by (elim exE conjE)
  let ?s1 = "s\<lparr>g_objs := (g_objs s)(p \<mapsto> gi1)\<rparr>"
  have gids1: "task_gids ?s1 c = task_gids s c" for c
    using assms(3) by (cases "g_tasks s c") (auto simp: task_gids_def holders_def)
  have "ginv ((\<lambda>_. 0)(p := 1)) ?s1"
    by (rule ginv_same_shape [OF assms(1,2) gi1(2) assms(3)])
  then obtain s2 where s2: "set_current_groups cur p ?s1 = Some (None, s2)"
    "ginv ((\<lambda>_. 0)(p := 1)) s2" "g_tasks s2 = (g_tasks ?s1)(cur \<mapsto> t\<lparr>gt_info := p\<rparr>)"
    "map_option gids (g_objs s2 p) = Some (sort (gids gi1))"
    "\<And>c. c \<noteq> cur \<Longrightarrow> task_gids s2 c = task_gids ?s1 c"
    using set_current_groups_spec [of p ?s1 gi1 cur t] assms(3,4) by auto
  obtain s' where s': "put_group_info p s2 = Some s'" "ginv (\<lambda>_. 0) s'" "g_tasks s' = g_tasks s2"
    "\<forall>c. task_gids s' c = task_gids s2 c"
    by (rule put_last [OF s2(2)])
  show thesis
  proof (rule set [of s' xs])
    show "fill = Some (None, s')"
      using gi1(1) s2(1) s'(1) by (simp add: fill_def)
    show "task_gids s' cur = Some (sort (map conv xs))"
      using s'(4) s2(3,4) gi1(3) by (simp add: task_gids_def)
  qed (use s' s2(3,5) xs gids1 in simp_all)
qed

end

lemma capable_raised: "fst (capable c t) = cap_raised (c_effective t) c"
  by (simp add: capable_def cap_capable_def)

lemma capable_ids [simp]:
  "c_fsgid (snd (capable c t)) = c_fsgid t" "c_egid (snd (capable c t)) = c_egid t"
  by (simp_all add: capable_def)

definition fresh_obj :: "galloc \<Rightarrow> gsys \<Rightarrow> bool" where
  "fresh_obj env s \<longleftrightarrow> (\<forall>p. ga_obj env = Some p \<longrightarrow> g_objs s p = None)"

context groups_reader
begin

text \<open>Every call returns: it sets the groups, or it fails for one of four reasons.\<close>

lemma setgroups_cases:
  fixes u :: "'a uarray"
  assumes "ginv (\<lambda>_. 0) s" "g_tasks s cur = Some t" "fresh_obj env s"
  obtains (err) e s' where "setgroups_with from_user env cur n u s = Some (Some e, s')"
      "ginv (\<lambda>_. 0) s'" "\<forall>c. task_gids s' c = task_gids s c"
      "e = EPERM \<and> \<not> cap_raised (c_effective (gt_cred t)) CAP_SETGID \<or>
       e = EINVAL \<and> NGROUPS_MAX < unat n \<or>
       e = ENOMEM \<and> (ga_obj env = None \<or> (\<exists>j. \<not> ga_page env j)) \<or>
       e = EFAULT \<and> (\<exists>k < unat n. u k = None)"
  | (set) xs s' x where "setgroups_with from_user env cur n u s = Some (None, s')" "ginv (\<lambda>_. 0) s'"
      "cap_raised (c_effective (gt_cred t)) CAP_SETGID" "unat n \<le> NGROUPS_MAX"
      "length xs = unat n" "\<forall>k < unat n. u k = Some (xs ! k)"
      "g_tasks s' cur = Some x" "gt_cred x = snd (capable CAP_SETGID (gt_cred t))"
      "task_gids s' cur = Some (sort (map conv xs))" "\<forall>c. c \<noteq> cur \<longrightarrow> task_gids s' c = task_gids s c"
proof -
  obtain b c where cap: "capable CAP_SETGID (gt_cred t) = (b, c)"
    by (rule prod.exhaust)
  then have b: "b = cap_raised (c_effective (gt_cred t)) CAP_SETGID"
    using capable_raised [of CAP_SETGID "gt_cred t"] by simp
  define s1 where "s1 = s\<lparr>g_tasks := (g_tasks s)(cur \<mapsto> t\<lparr>gt_cred := c\<rparr>)\<rparr>"
  note inv1 = ginv_cred [OF assms(1,2), of c, folded s1_def]
    and gids1 = task_gids_cred [OF assms(2), of c, folded s1_def]
  have s1: "g_objs s1 = g_objs s" "g_tasks s1 cur = Some (t\<lparr>gt_cred := c\<rparr>)"
    by (simp_all add: s1_def)
  show thesis
  proof (cases "b \<and> unat n \<le> NGROUPS_MAX")
    case False
    then show thesis
      using err [of "if b then EINVAL else EPERM" s1] inv1 gids1 assms(2) cap b
      by (simp add: setgroups_with_def s1_def [symmetric] not_le split: if_splits)
  next
    case True
    then show thesis
    proof (cases rule: groups_alloc_spec [where env = env and n = "unat n" and s = s1])
      case fail
      then show thesis
        using err [of ENOMEM s1] inv1 gids1 assms(2) cap True
        by (auto simp: setgroups_with_def s1_def [symmetric])
    next
      case (ok p gi)
      define s2 where "s2 = s1\<lparr>g_objs := (g_objs s1)(p \<mapsto> gi), g_pages := g_pages s1 + obj_pages gi\<rparr>"
      have p: "g_objs s1 p = None"
        using assms(3) ok(1) s1(1) by (simp add: fresh_obj_def)
      have inv2: "ginv ((\<lambda>_. 0)(p := 1)) s2" and h: "holders (g_tasks s2) p = {}"
        using ginv_alloc [OF inv1 p ok(4-6)] by (simp_all add: s2_def)
      have gids2: "task_gids s2 q = task_gids s q" for q
        using gids1 [of q] h by (cases "g_tasks s1 q") (auto simp: s2_def task_gids_def holders_def)
      have t2: "g_objs s2 p = Some gi" "g_tasks s2 cur = Some (t\<lparr>gt_cred := c\<rparr>)"
        using s1(2) by (simp_all add: s2_def)
      have body: "setgroups_with from_user env cur n u s = from_user gi u \<bind> (\<lambda>r. case r of
          Inl e \<Rightarrow> put_group_info p s2 \<bind> (\<lambda>s3. Some (Some e, s3))
        | Inr gi1 \<Rightarrow> set_current_groups cur p (s2\<lparr>g_objs := (g_objs s2)(p \<mapsto> gi1)\<rparr>) \<bind> (\<lambda>(r, s3).
            put_group_info p s3 \<bind> (\<lambda>s4. Some (r, s4))))"
        using assms(2) cap True ok(2) [folded s2_def] t2(1)
        by (simp add: setgroups_with_def s1_def [symmetric])
      show thesis
      proof (cases rule: setgroups_fill [where u = u, OF inv2 t2(1) h t2(2) ok(5)])
        case fault: (1 k s')
        from body fault(1) have "setgroups_with from_user env cur n u s = Some (Some EFAULT, s')"
          by (rule trans)
        then show thesis
          using err [of EFAULT s'] fault(2-6) gids2 ok(3) by auto
      next
        case set: (2 xs s')
        from body set(1) have "setgroups_with from_user env cur n u s = Some (None, s')"
          by (rule trans)
        then show thesis
          using that(2) [of s' xs "t\<lparr>gt_cred := c, gt_info := p\<rparr>"] set(2-7) True b cap gids2 ok(3) by simp
      qed
    qed
  qed
qed

lemma setgroups_ok:
  fixes u :: "'a uarray"
  assumes "ginv (\<lambda>_. 0) s" "g_tasks s cur = Some t" "cap_raised (c_effective (gt_cred t)) CAP_SETGID"
    "unat n \<le> NGROUPS_MAX" "ga_obj env = Some p" "g_objs s p = None" "\<forall>j. ga_page env j"
    "length xs = unat n" "\<forall>k < unat n. u k = Some (xs ! k)"
  obtains s' x where "setgroups_with from_user env cur n u s = Some (None, s')" "ginv (\<lambda>_. 0) s'"
    "g_tasks s' cur = Some x" "gt_cred x = snd (capable CAP_SETGID (gt_cred t))"
    "task_gids s' cur = Some (sort (map conv xs))" "\<forall>c. c \<noteq> cur \<longrightarrow> task_gids s' c = task_gids s c"
proof -
  have fresh: "fresh_obj env s"
    using assms(5,6) by (simp add: fresh_obj_def)
  show thesis
  proof (cases rule: setgroups_cases [where n = n and u = u, OF assms(1,2) fresh])
    case err: (1 e s')
    then show thesis
      using assms(3-5,7,9) by auto
  next
    case set: (2 ys s' x)
    have "ys = xs"
      using set(5,6) assms(8,9) by (intro nth_equalityI) simp_all
    then show thesis
      using that [of s' x] set by simp
  qed
qed

end

section \<open>Runs\<close>

lemma fork_groups_spec:
  assumes "ginv (\<lambda>_. 0) s" "g_tasks s cur = Some t" "g_tasks s child = None" "child < PID_MAX_LIMIT"
  obtains s' where "fork_groups cur child s = Some s'" "ginv (\<lambda>_. 0) s'"
proof -
  obtain gi where gi: "g_objs s (gt_info t) = Some gi"
    using ginv_task_gids [OF assms(1,2)] by metis
  let ?s1 = "s\<lparr>g_objs := (g_objs s)(gt_info t \<mapsto> gi\<lparr>usage := usage gi + 1\<rparr>)\<rparr>"
  note get = get_group_info_ginv [OF assms(1) gi]
  have "ginv (\<lambda>_. 0) (?s1\<lparr>g_tasks := (g_tasks ?s1)(child \<mapsto> t)\<rparr>)"
    using ginv_new_task [OF get(2), of cur t child] assms(2-4) by (simp add: fun_upd_idem)
  then show thesis
    using that get(1) assms(2) by (simp add: fork_groups_def)
qed

lemma put_task_groups_spec:
  assumes "ginv (\<lambda>_. 0) s" "g_tasks s cur = Some t"
  obtains s' where "put_task_groups cur s = Some s'" "ginv (\<lambda>_. 0) s'"
proof -
  have "ginv ((\<lambda>_. 0)(gt_info t := 1)) (s\<lparr>g_tasks := (g_tasks s)(cur := None)\<rparr>)"
    using ginv_remove_task [OF assms] by simp
  then show thesis
    by (rule put_last) (use that assms(2) in \<open>simp add: put_task_groups_def\<close>)
qed

text \<open>
  The first task holds \<open>init_groups\<close>. A step is a call of a task, with any answer of the
  allocator and any user array, or another call that changes the credentials of a task.
\<close>

definition ginit :: "cred \<Rightarrow> gsys" where
  "ginit c = \<lparr>g_objs = [0 \<mapsto> init_groups], g_pages = 0, g_tasks = [0 \<mapsto> \<lparr>gt_cred = c, gt_info = 0\<rparr>]\<rparr>"

inductive gstep :: "gsys \<Rightarrow> gsys \<Rightarrow> bool" where
  setgroups: "fresh_obj env s \<Longrightarrow> sys_setgroups env cur n u s = Some (r, s') \<Longrightarrow> gstep s s'"
| setgroups16: "fresh_obj env s \<Longrightarrow> sys_setgroups16 env cur n u16 s = Some (r, s') \<Longrightarrow> gstep s s'"
| getgroups: "sys_getgroups cur n u s = Some (q, u', s') \<Longrightarrow> gstep s s'"
| getgroups16: "sys_getgroups16 cur n u16 s = Some (q, u16', s') \<Longrightarrow> gstep s s'"
| in_group: "in_group_p cur grp s = Some (b, s') \<Longrightarrow> gstep s s'"
| in_egroup: "in_egroup_p cur grp s = Some (b, s') \<Longrightarrow> gstep s s'"
| fork: "g_tasks s child = None \<Longrightarrow> child < PID_MAX_LIMIT \<Longrightarrow> fork_groups cur child s = Some s' \<Longrightarrow> gstep s s'"
| exit: "put_task_groups cur s = Some s' \<Longrightarrow> gstep s s'"
| cred: "g_tasks s cur = Some t \<Longrightarrow> gstep s (s\<lparr>g_tasks := (g_tasks s)(cur \<mapsto> t\<lparr>gt_cred := c\<rparr>)\<rparr>)"

lemma ginit_ginv: "ginv (\<lambda>_. 0) (ginit c)"
proof -
  let ?T = "[0 \<mapsto> \<lparr>gt_cred = c, gt_info = 0\<rparr>] :: nat \<rightharpoonup> gtask"
  have "holders ?T p = (if p = 0 then {0} else {})" for p
    by (auto simp: holders_def)
  then show ?thesis
    by (auto simp: ginv_def ginit_def obj_ok_def refs_def init_groups_def gi_ok_def gids_def
        total_pages_def obj_pages_def PID_MAX_LIMIT_def)
qed

context groups_reader
begin

lemma setgroups_ginv:
  assumes "ginv (\<lambda>_. 0) s" "fresh_obj env s" "setgroups_with from_user env cur n u s = Some (r, s')"
  shows "ginv (\<lambda>_. 0) s'"
proof -
  obtain t where t: "g_tasks s cur = Some t"
    using assms(3) by (cases "g_tasks s cur") (simp_all add: setgroups_with_def)
  show ?thesis
    by (cases rule: setgroups_cases [where n = n and u = u, OF assms(1) t assms(2)]) (use assms(3) in simp_all)
qed

end

context groups_writer
begin

lemma getgroups_same:
  assumes "ginv (\<lambda>_. 0) s" "getgroups_with to_user cur n u s = Some (q, u', s')"
  shows "s' = s"
proof (cases "g_tasks s cur")
  case None
  then show ?thesis
    using assms(2) by (simp add: getgroups_with_def split: if_splits)
next
  case (Some t)
  show ?thesis
    by (rule getgroups_total [OF assms(1) Some, of n u]) (use assms(2) in simp)
qed

end

lemma in_group_p_same:
  assumes "ginv (\<lambda>_. 0) s" "in_group_p cur grp s = Some (b, s')"
  shows "s' = s"
proof -
  obtain t where t: "g_tasks s cur = Some t"
    using assms(2) by (cases "g_tasks s cur") (simp_all add: in_group_p_def)
  obtain gs where gs: "task_gids s cur = Some gs"
    using ginv_task_gids [OF assms(1) t] by metis
  show ?thesis
    by (rule in_group_p_spec [OF assms(1) t gs, of grp]) (use assms(2) in simp)
qed

lemma in_egroup_p_same:
  assumes "ginv (\<lambda>_. 0) s" "in_egroup_p cur grp s = Some (b, s')"
  shows "s' = s"
proof -
  obtain t where t: "g_tasks s cur = Some t"
    using assms(2) by (cases "g_tasks s cur") (simp_all add: in_egroup_p_def)
  obtain gs where gs: "task_gids s cur = Some gs"
    using ginv_task_gids [OF assms(1) t] by metis
  show ?thesis
    by (rule in_egroup_p_spec [OF assms(1) t gs, of grp]) (use assms(2) in simp)
qed

lemma gstep_ginv: "gstep s s' \<Longrightarrow> ginv (\<lambda>_. 0) s \<Longrightarrow> ginv (\<lambda>_. 0) s'"
proof (induction rule: gstep.induct)
  case (setgroups env s cur n u r s')
  show ?case
    by (rule r32.setgroups_ginv [OF setgroups(3,1) setgroups(2) [unfolded sys_setgroups_def]])
next
  case (setgroups16 env s cur n u r s')
  show ?case
    by (rule r16.setgroups_ginv [OF setgroups16(3,1) setgroups16(2) [unfolded sys_setgroups16_def]])
next
  case (getgroups cur n u s q u' s')
  then show ?case
    using w32.getgroups_same [OF getgroups(2) getgroups(1) [unfolded sys_getgroups_def]] by simp
next
  case (getgroups16 cur n u s q u' s')
  then show ?case
    using w16.getgroups_same [OF getgroups16(2) getgroups16(1) [unfolded sys_getgroups16_def]] by simp
next
  case (in_group cur grp s b s')
  then show ?case
    using in_group_p_same [OF in_group(2,1)] by simp
next
  case (in_egroup cur grp s b s')
  then show ?case
    using in_egroup_p_same [OF in_egroup(2,1)] by simp
next
  case (fork s child cur s')
  obtain t where "g_tasks s cur = Some t"
    using fork(3) by (cases "g_tasks s cur") (simp_all add: fork_groups_def)
  then show ?case
    using fork_groups_spec [OF fork(4) _ fork(1,2), of cur t] fork(3) by (metis option.inject)
next
  case (exit cur s s')
  obtain t where "g_tasks s cur = Some t"
    using exit(1) by (cases "g_tasks s cur") (simp_all add: put_task_groups_def)
  then show ?case
    using put_task_groups_spec [OF exit(2), of cur t] exit(1) by (metis option.inject)
next
  case (cred s cur t c)
  then show ?case
    using ginv_cred by simp
qed

lemma reachable_ginv: "gstep\<^sup>*\<^sup>* (ginit c) s \<Longrightarrow> ginv (\<lambda>_. 0) s"
  by (induction rule: rtranclp_induct) (auto intro: ginit_ginv gstep_ginv)

section \<open>What the calls guarantee\<close>

lemma ginv_counts:
  assumes "ginv (\<lambda>_. 0) s"
  shows "g_objs s p \<noteq> None \<longleftrightarrow> 0 < refs (g_tasks s) p"
    "g_objs s p = Some gi \<Longrightarrow> unat (usage gi) = refs (g_tasks s) p"
proof -
  show "g_objs s p \<noteq> None \<longleftrightarrow> 0 < refs (g_tasks s) p"
    using ginv_obj [OF assms, of p] by (auto simp: obj_ok_def split: option.splits)
  show "unat (usage gi) = refs (g_tasks s) p" if "g_objs s p = Some gi"
    using ginv_obj [OF assms, of p] ginv_refs_bound [OF assms, of p] that
    by (simp add: obj_ok_def unat_of_nat take_bit_nat_eq_self)
qed

lemma ginv_calls_return:
  assumes "ginv (\<lambda>_. 0) s" "g_tasks s cur = Some t"
  shows "fresh_obj env s \<Longrightarrow> sys_setgroups env cur n u s \<noteq> None"
    "fresh_obj env s \<Longrightarrow> sys_setgroups16 env cur n u16 s \<noteq> None"
    "sys_getgroups cur n u s \<noteq> None" "sys_getgroups16 cur n u16 s \<noteq> None"
    "in_group_p cur grp s \<noteq> None" "in_egroup_p cur grp s \<noteq> None"
    "g_tasks s child = None \<Longrightarrow> child < PID_MAX_LIMIT \<Longrightarrow> fork_groups cur child s \<noteq> None"
    "put_task_groups cur s \<noteq> None"
proof -
  obtain gs where gs: "task_gids s cur = Some gs"
    using ginv_task_gids [OF assms] by metis
  show "sys_setgroups env cur n u s \<noteq> None" if "fresh_obj env s"
    unfolding sys_setgroups_def by (cases rule: r32.setgroups_cases [where n = n and u = u, OF assms that]) simp_all
  show "sys_setgroups16 env cur n u16 s \<noteq> None" if "fresh_obj env s"
    unfolding sys_setgroups16_def by (cases rule: r16.setgroups_cases [where n = n and u = u16, OF assms that]) simp_all
  show "sys_getgroups cur n u s \<noteq> None"
    unfolding sys_getgroups_def by (rule w32.getgroups_total [OF assms, of n u]) simp
  show "sys_getgroups16 cur n u16 s \<noteq> None"
    unfolding sys_getgroups16_def by (rule w16.getgroups_total [OF assms, of n u16]) simp
  show "in_group_p cur grp s \<noteq> None"
    by (rule in_group_p_spec [OF assms gs, of grp]) simp
  show "in_egroup_p cur grp s \<noteq> None"
    by (rule in_egroup_p_spec [OF assms gs, of grp]) simp
  show "fork_groups cur child s \<noteq> None" if "g_tasks s child = None" "child < PID_MAX_LIMIT"
    by (rule fork_groups_spec [OF assms that]) simp
  show "put_task_groups cur s \<noteq> None"
    by (rule put_task_groups_spec [OF assms]) simp
qed

text \<open>A task with all capabilities, for the witnesses.\<close>

definition groot :: cred where
  "groot = \<lparr>c_pid = 0, c_uid = 0, c_euid = 0, c_suid = 0, c_fsuid = 0, c_gid = 0, c_egid = 0,
     c_sgid = 0, c_fsgid = 0, c_effective = - 1, c_inheritable = 0, c_permitted = - 1,
     c_keep = False, c_superpriv = False, c_dumpable = True, c_nproc = 0, c_user = 0, c_security = 0\<rparr>"

definition genv :: galloc where
  "genv = \<lparr>ga_obj = Some 1, ga_page = (\<lambda>_. True), ga_junk = (\<lambda>_ _. 7)\<rparr>"

lemma groot_setgid: "cap_raised (c_effective groot) CAP_SETGID"
  by (simp add: groot_def cap_raised_def CAP_TO_MASK_def CAP_SETGID_def)

lemma genv_simps: "ga_obj genv = Some 1" "ga_page genv j" "g_objs (ginit c) 1 = None" "fresh_obj genv (ginit c)"
  by (simp_all add: genv_def ginit_def fresh_obj_def)

text \<open>
  C30. In every run of tasks that set and read their groups, fork and exit, an object is live
  exactly when a task refers to it or it is \<open>init_groups\<close>; its counter is the number of these
  references; its blocks have room for its ids; the pages in use are those of the live
  objects, so none is leaked; and every call of a task returns.
\<close>

theorem groups_objects_counted:
  assumes "gstep\<^sup>*\<^sup>* (ginit c) s"
  shows "(g_objs s p \<noteq> None \<longleftrightarrow> p = 0 \<or> (\<exists>t x. g_tasks s t = Some x \<and> gt_info x = p)) \<and>
    (g_objs s p = Some gi \<longrightarrow> unat (usage gi) = refs (g_tasks s) p \<and> gi_ok gi) \<and>
    g_pages s = total_pages (g_objs s) \<and>
    (g_tasks s cur = Some t \<and> fresh_obj env s \<longrightarrow>
      sys_setgroups env cur n u s \<noteq> None \<and> sys_setgroups16 env cur n u16 s \<noteq> None \<and>
      sys_getgroups cur n u s \<noteq> None \<and> sys_getgroups16 cur n u16 s \<noteq> None \<and>
      in_group_p cur grp s \<noteq> None \<and> in_egroup_p cur grp s \<noteq> None \<and> put_task_groups cur s \<noteq> None \<and>
      (g_tasks s child = None \<and> child < PID_MAX_LIMIT \<longrightarrow> fork_groups cur child s \<noteq> None))"
proof -
  note inv = reachable_ginv [OF assms]
  have "0 < refs (g_tasks s) p \<longleftrightarrow> p = 0 \<or> holders (g_tasks s) p \<noteq> {}"
    using finite_holders(1) [OF ginv_dom [OF inv], of p] by (auto simp: refs_def card_gt_0_iff)
  moreover have "holders (g_tasks s) p \<noteq> {} \<longleftrightarrow> (\<exists>t. map_option gt_info (g_tasks s t) = Some p)"
    by (simp add: holders_def)
  ultimately have "g_objs s p \<noteq> None \<longleftrightarrow> p = 0 \<or> (\<exists>t x. g_tasks s t = Some x \<and> gt_info x = p)"
    using ginv_counts(1) [OF inv, of p] by (simp add: map_option_eq_Some)
  moreover have "gi_ok gi" if "g_objs s p = Some gi"
    using ginv_obj [OF inv, of p] that by (simp add: obj_ok_def)
  moreover have "g_pages s = total_pages (g_objs s)"
    using inv by (simp add: ginv_def)
  ultimately show ?thesis
    using ginv_counts(2) [OF inv, of p gi] ginv_calls_return [OF inv, of cur t] by simp
qed

lemma gstep_fork_init: "gstep\<^sup>*\<^sup>* (ginit c) (the (fork_groups 0 1 (ginit c)))"
proof -
  have "gstep (ginit c) (the (fork_groups 0 1 (ginit c)))"
    by (rule gstep.fork [of _ 1 0]) (simp_all add: ginit_def fork_groups_def get_group_info_def PID_MAX_LIMIT_def)
  then show ?thesis
    by (rule r_into_rtranclp)
qed

theorem groups_objects_counted_witness:
  "unat (usage (init_groups\<lparr>usage := 3\<rparr>)) = refs (g_tasks (the (fork_groups 0 1 (ginit groot)))) 0"
proof -
  have "g_objs (the (fork_groups 0 1 (ginit groot))) 0 = Some (init_groups\<lparr>usage := 3\<rparr>)"
    by (simp add: ginit_def fork_groups_def get_group_info_def init_groups_def)
  then show ?thesis
    using groups_objects_counted [OF gstep_fork_init, of groot 0 "init_groups\<lparr>usage := 3\<rparr>"] by simp
qed

lemma setgroups_run:
  assumes "gstep\<^sup>*\<^sup>* (ginit c) s" "g_tasks s cur = Some t" "cap_raised (c_effective (gt_cred t)) CAP_SETGID"
    "unat n \<le> NGROUPS_MAX" "ga_obj env = Some p" "g_objs s p = None" "\<forall>j. ga_page env j"
    "length xs = unat n" "\<forall>k < unat n. u k = Some (xs ! k)"
  obtains s' x where "sys_setgroups env cur n u s = Some (None, s')" "gstep\<^sup>*\<^sup>* (ginit c) s'"
    "ginv (\<lambda>_. 0) s'" "g_tasks s' cur = Some x" "c_fsgid (gt_cred x) = c_fsgid (gt_cred t)"
    "task_gids s' cur = Some (sort xs)" "\<forall>q. q \<noteq> cur \<longrightarrow> task_gids s' q = task_gids s q"
proof -
  obtain s' x where s': "setgroups_with groups_from_user env cur n u s = Some (None, s')" "ginv (\<lambda>_. 0) s'"
    "g_tasks s' cur = Some x" "gt_cred x = snd (capable CAP_SETGID (gt_cred t))"
    "task_gids s' cur = Some (sort (map id xs))" "\<forall>c. c \<noteq> cur \<longrightarrow> task_gids s' c = task_gids s c"
    by (rule r32.setgroups_ok [OF reachable_ginv [OF assms(1)] assms(2-9)])
  then have "gstep s s'"
    using gstep.setgroups [of env s cur n u None s'] assms(5,6) by (simp add: sys_setgroups_def fresh_obj_def)
  with assms(1) have "gstep\<^sup>*\<^sup>* (ginit c) s'"
    by (rule rtranclp.rtrancl_into_rtrancl)
  then show thesis
    using that [of s' x] s' by (simp add: sys_setgroups_def)
qed

text \<open>
  C29. A privileged task that passes \<open>n\<close> readable ids to \<open>setgroups\<close>, with memory available,
  gets them as its groups, and no other task is affected: \<open>getgroups\<close> returns the ids in
  ascending order and leaves the rest of the user array alone, and \<open>in_group_p\<close> answers
  membership. It never accepts an id that is neither in the list nor the file system group,
  and accepts every member when the ids lie within \<open>2 ^ 31\<close> of the one asked for.
\<close>

theorem setgroups_then_query:
  assumes "gstep\<^sup>*\<^sup>* (ginit c) s" "g_tasks s cur = Some t" "cap_raised (c_effective (gt_cred t)) CAP_SETGID"
    "unat n \<le> NGROUPS_MAX" "ga_obj env = Some p" "g_objs s p = None" "\<forall>j. ga_page env j"
    "length xs = unat n" "\<forall>k < unat n. u k = Some (xs ! k)"
  shows "\<exists>s'. sys_setgroups env cur n u s = Some (None, s') \<and>
    (0 <s m \<and> int (length xs) \<le> sint m \<and> (\<forall>k < length xs. v k \<noteq> None) \<longrightarrow>
      sys_getgroups cur m v s' =
        Some (Inr (length xs), \<lambda>k. if k < length xs then Some (sort xs ! k) else v k, s')) \<and>
    (\<exists>b. in_group_p cur grp s' = Some (b, s') \<and>
      (b \<longrightarrow> grp = c_fsgid (gt_cred t) \<or> grp \<in> set xs) \<and>
      ((\<forall>x \<in> set xs. gid_close grp x) \<longrightarrow> b = (grp = c_fsgid (gt_cred t) \<or> grp \<in> set xs))) \<and>
    (\<forall>q. q \<noteq> cur \<longrightarrow> task_gids s' q = task_gids s q)"
proof -
  obtain s' x where s': "sys_setgroups env cur n u s = Some (None, s')" "gstep\<^sup>*\<^sup>* (ginit c) s'"
    "ginv (\<lambda>_. 0) s'" "g_tasks s' cur = Some x" "c_fsgid (gt_cred x) = c_fsgid (gt_cred t)"
    "task_gids s' cur = Some (sort xs)" "\<forall>q. q \<noteq> cur \<longrightarrow> task_gids s' q = task_gids s q"
    by (rule setgroups_run [OF assms])
  obtain b where "in_group_p cur grp s' = Some (b, s')"
    "b \<longrightarrow> grp = c_fsgid (gt_cred x) \<or> grp \<in> set (sort xs)"
    "(\<forall>x \<in> set (sort xs). gid_close grp x) \<longrightarrow>
      b = (grp = c_fsgid (gt_cred x) \<or> grp \<in> set (sort xs))"
    using in_group_p_spec [OF s'(3,4,6), of grp] by blast
  moreover have "0 <s m \<and> int (length xs) \<le> sint m \<and> (\<forall>k < length xs. v k \<noteq> None) \<longrightarrow>
      sys_getgroups cur m v s' =
        Some (Inr (length xs), \<lambda>k. if k < length xs then Some (sort xs ! k) else v k, s')"
    using w32.getgroups_spec(4) [OF s'(3,4,6), of m v, unfolded id_apply]
    by (simp add: sys_getgroups_def)
  ultimately show ?thesis
    using s'(1,5,7) by (intro exI [of _ s'] exI [of _ b] conjI) (simp_all only: set_sort)
qed

lemma ginit_task: "g_tasks (ginit c) 0 = Some \<lparr>gt_cred = c, gt_info = 0\<rparr>"
  by (simp add: ginit_def)

theorem setgroups_then_query_witness:
  "\<exists>s'. sys_setgroups genv 0 2 [0 \<mapsto> 20, 1 \<mapsto> 10] (ginit groot) = Some (None, s') \<and>
    in_group_p 0 10 s' = Some (True, s') \<and>
    sys_getgroups 0 5 [0 \<mapsto> 0, 1 \<mapsto> 0] s' = Some (Inr 2, [0 \<mapsto> 10, 1 \<mapsto> 20], s')"
proof -
  have pair: "k = 0 \<or> k = 1" if "k < 2" for k :: nat
    using that by auto
  have arr: "(\<lambda>k. if k < length [20, 10 :: u32] then Some (sort [20, 10 :: u32] ! k) else [0 \<mapsto> 0, 1 \<mapsto> 0] k) =
      [0 \<mapsto> 10, 1 \<mapsto> 20]"
    by (auto simp: fun_eq_iff dest!: pair)
  have u: "\<forall>k < unat (2 :: u32). [0 \<mapsto> 20, 1 \<mapsto> 10] k = Some ([20, 10 :: u32] ! k)"
    by (auto dest!: pair)
  have v: "\<forall>k < length [20, 10 :: u32]. [0 \<mapsto> 0, 1 \<mapsto> 0 :: u32] k \<noteq> None"
    by (auto dest!: pair)
  have "unat (2 :: u32) \<le> NGROUPS_MAX" "length [20, 10 :: u32] = unat (2 :: u32)"
    "\<forall>j. ga_page genv j" "cap_raised (c_effective (gt_cred \<lparr>gt_cred = groot, gt_info = 0\<rparr>)) CAP_SETGID"
    using groot_setgid by (simp_all add: NGROUPS_MAX_def genv_simps)
  from setgroups_then_query [where u = "[0 \<mapsto> 20, 1 \<mapsto> 10]" and m = 5 and v = "[0 \<mapsto> 0, 1 \<mapsto> 0]" and grp = 10,
      OF rtranclp.rtrancl_refl ginit_task this(4,1) genv_simps(1,3) this(3,2) u]
  obtain s' b where "sys_setgroups genv 0 2 [0 \<mapsto> 20, 1 \<mapsto> 10] (ginit groot) = Some (None, s')"
    "sys_getgroups 0 5 [0 \<mapsto> 0, 1 \<mapsto> 0] s' = Some (Inr (Suc (Suc 0)), [0 \<mapsto> 10, 1 \<mapsto> 20], s')"
    "in_group_p 0 10 s' = Some (b, s')" "b"
    unfolding arr using v by (auto simp: gid_close_def word_sless_alt)
  then show ?thesis
    by (intro exI [of _ s'] conjI) (simp_all add: numeral_2_eq_2)
qed

lemma sint_diff_far:
  assumes "2 ^ 31 < uint b - uint (a :: u32)"
  shows "0 < sint (a - b)"
proof -
  have bounds: "2147483648 < uint b - uint a" "0 \<le> uint a" "uint b < 4294967296"
    using assms uint_range_size [of b] by (simp_all add: word_size)
  have "sint (a - b) = sint (word_of_int (uint a - uint b) :: u32)"
    by (simp only: word_sub_wi)
  also have "\<dots> = (uint a - uint b + 2147483648) mod 4294967296 - 2147483648"
    by (subst int_word_sint) simp
  also have "(uint a - uint b + 2147483648) mod 4294967296 = (uint a - uint b + 2147483648 + 4294967296) mod 4294967296"
    by (simp only: mod_add_self2)
  also have "\<dots> = uint a - uint b + 2147483648 + 4294967296"
    using bounds by (intro mod_pos_pos_trivial) linarith+
  finally show ?thesis
    using bounds by linarith
qed

lemma groups_search_far:
  assumes "gi_ok gi" "gids gi = [a, b]" "2 ^ 31 < uint b - uint a"
  shows "groups_search gi a = Some False"
proof -
  have n: "ngroups gi = 2"
    using assms(2) length_gids [OF assms(1)] by simp
  have "GROUP_AT gi 1 = Some b"
    using GROUP_AT_gids [OF assms(1), of 1] n assms(2) by simp
  moreover have "groups_search_loop gi a (Suc (Suc 0)) 2 = Some False"
    by (subst groups_search_loop.simps) simp
  ultimately show ?thesis
    using sint_diff_far [OF assms(3)] n
    by (simp add: groups_search_def groups_search_loop.simps [of gi a 0 2])
qed

text \<open>
  C31. \<open>groups_search\<close> can deny a group the task has. The list is sorted as unsigned
  numbers but the search looks at the sign of an \<open>int\<close> difference: after a successful
  \<open>setgroups\<close> with two ids more than \<open>2 ^ 31\<close> apart, \<open>in_group_p\<close> does not find the smaller one.
\<close>

theorem in_group_p_misses:
  assumes "gstep\<^sup>*\<^sup>* (ginit c) s" "g_tasks s cur = Some t" "cap_raised (c_effective (gt_cred t)) CAP_SETGID"
    "ga_obj env = Some p" "g_objs s p = None" "\<forall>j. ga_page env j"
    "u 0 = Some a" "u 1 = Some b" "2 ^ 31 < uint b - uint a" "c_fsgid (gt_cred t) \<noteq> a"
  shows "\<exists>s'. sys_setgroups env cur 2 u s = Some (None, s') \<and> task_gids s' cur = Some [a, b] \<and>
    in_group_p cur a s' = Some (False, s')"
proof -
  have "unat (2 :: u32) \<le> NGROUPS_MAX" "length [a, b] = unat (2 :: u32)"
    "\<forall>k < unat (2 :: u32). u k = Some ([a, b] ! k)"
    using assms(7,8) by (auto simp: NGROUPS_MAX_def less_2_cases_iff)
  from setgroups_run [OF assms(1-3) this(1) assms(4-6) this(2,3)]
  obtain s' x where s': "sys_setgroups env cur 2 u s = Some (None, s')" "ginv (\<lambda>_. 0) s'"
    "g_tasks s' cur = Some x" "c_fsgid (gt_cred x) = c_fsgid (gt_cred t)"
    "task_gids s' cur = Some (sort [a, b])"
    by metis
  have "a \<le> b"
    using assms(9) by (simp add: word_le_def)
  then have ab: "sort [a, b] = [a, b]"
    by simp
  obtain gi where gi: "g_objs s' (gt_info x) = Some gi" "gi_ok gi" "gids gi = [a, b]"
    using ginv_task_gids [OF s'(2,3)] s'(5) ab by (metis option.inject)
  obtain s1 gi1 where "get_group_info (gt_info x) s' = Some s1" "g_objs s1 (gt_info x) = Some gi1"
    "gids gi1 = gids gi" "gi_ok gi1 = gi_ok gi" "put_group_info (gt_info x) s1 = Some s'"
    using get_put_group_info [OF s'(2) gi(1)] by metis
  then have "in_group_p cur a s' = Some (False, s')"
    using s'(3,4) assms(10) gi(2,3) groups_search_far [of gi1 a b] assms(9) by (simp add: in_group_p_def)
  then show ?thesis
    using s'(1,5) ab by (intro exI [of _ s']) simp
qed

theorem in_group_p_misses_witness:
  "\<exists>s'. sys_setgroups genv 0 2 [0 \<mapsto> 100, 1 \<mapsto> 0xFFFFFFFE] (ginit groot) = Some (None, s') \<and>
    task_gids s' 0 = Some [100, 0xFFFFFFFE] \<and> in_group_p 0 100 s' = Some (False, s')"
proof -
  have "cap_raised (c_effective (gt_cred \<lparr>gt_cred = groot, gt_info = 0\<rparr>)) CAP_SETGID"
    "\<forall>j. ga_page genv j" "c_fsgid (gt_cred \<lparr>gt_cred = groot, gt_info = 0\<rparr>) \<noteq> 100"
    using groot_setgid by (simp_all add: genv_simps groot_def)
  from in_group_p_misses [where u = "[0 \<mapsto> 100, 1 \<mapsto> 0xFFFFFFFE]" and a = 100 and b = "0xFFFFFFFE",
      OF rtranclp.rtrancl_refl ginit_task this(1) genv_simps(1,3) this(2) _ _ _ this(3)]
  show ?thesis
    by simp
qed

end
