(* ===== verification/Rlimit.thy ===== *)
theory Rlimit
  imports Creds
begin

text \<open>
  Resource limits, from \<open>kernel/sys.c\<close>: the three system calls on the table \<open>rlim\<close> of the
  calling process. A user structure that faults is \<open>None\<close>. The soft limit never exceeds the
  hard limit, and only \<open>CAP_SYS_RESOURCE\<close> raises a hard limit.
\<close>

section \<open>The system calls\<close>

record rlimit =
  rlim_cur :: u32
  rlim_max :: u32

definition RLIM_NLIMITS :: nat where "RLIM_NLIMITS = 13"
definition RLIMIT_NOFILE :: nat where "RLIMIT_NOFILE = 7"
definition RLIM_INFINITY :: u32 where "RLIM_INFINITY = NOT 0"
definition NR_OPEN :: u32 where "NR_OPEN = 1024 * 1024"
definition INR_OPEN :: u32 where "INR_OPEN = 1024"
definition STK_LIM :: u32 where "STK_LIM = 8 * 1024 * 1024"
definition MLOCK_LIMIT :: u32 where "MLOCK_LIMIT = 8 * 4096"
definition MAX_SIGPENDING :: u32 where "MAX_SIGPENDING = 1024"
definition MQ_BYTES_MAX :: u32 where "MQ_BYTES_MAX = 819200"

definition INIT_RLIMITS :: "rlimit list" where
  "INIT_RLIMITS =
     (let inf = RLIM_INFINITY in
      [\<lparr>rlim_cur = inf, rlim_max = inf\<rparr>,
       \<lparr>rlim_cur = inf, rlim_max = inf\<rparr>,
       \<lparr>rlim_cur = inf, rlim_max = inf\<rparr>,
       \<lparr>rlim_cur = STK_LIM, rlim_max = inf\<rparr>,
       \<lparr>rlim_cur = 0, rlim_max = inf\<rparr>,
       \<lparr>rlim_cur = inf, rlim_max = inf\<rparr>,
       \<lparr>rlim_cur = 0, rlim_max = 0\<rparr>,
       \<lparr>rlim_cur = INR_OPEN, rlim_max = INR_OPEN\<rparr>,
       \<lparr>rlim_cur = MLOCK_LIMIT, rlim_max = MLOCK_LIMIT\<rparr>,
       \<lparr>rlim_cur = inf, rlim_max = inf\<rparr>,
       \<lparr>rlim_cur = inf, rlim_max = inf\<rparr>,
       \<lparr>rlim_cur = MAX_SIGPENDING, rlim_max = MAX_SIGPENDING\<rparr>,
       \<lparr>rlim_cur = MQ_BYTES_MAX, rlim_max = MQ_BYTES_MAX\<rparr>])"

text \<open>The Boolean argument of the queries tells whether the result can be written.\<close>

definition sys_getrlimit :: "bool \<Rightarrow> u32 \<Rightarrow> rlimit list \<Rightarrow> errno + rlimit" where
  "sys_getrlimit w resource rlim =
     (if RLIM_NLIMITS \<le> unat resource then Inl EINVAL
      else let value = rlim ! unat resource in if w then Inr value else Inl EFAULT)"

definition sys_old_getrlimit :: "bool \<Rightarrow> u32 \<Rightarrow> rlimit list \<Rightarrow> errno + rlimit" where
  "sys_old_getrlimit w resource rlim =
     (if RLIM_NLIMITS \<le> unat resource then Inl EINVAL
      else let x = rlim ! unat resource;
               x1 = (if rlim_cur x > 0x7FFFFFFF then x\<lparr>rlim_cur := 0x7FFFFFFF\<rparr> else x);
               x2 = (if rlim_max x1 > 0x7FFFFFFF then x1\<lparr>rlim_max := 0x7FFFFFFF\<rparr> else x1)
           in if w then Inr x2 else Inl EFAULT)"

text \<open>The hook \<open>task_setrlimit\<close> is the one of \<open>security/dummy.c\<close>.\<close>

definition security_task_setrlimit :: "u32 \<Rightarrow> rlimit \<Rightarrow> errno option" where
  "security_task_setrlimit resource new_rlim = None"

definition sys_setrlimit ::
  "u32 \<Rightarrow> rlimit option \<Rightarrow> cred \<times> rlimit list \<Rightarrow> errno option \<times> cred \<times> rlimit list" where
  "sys_setrlimit resource arg s =
     (let (t, rlim) = s in
      if RLIM_NLIMITS \<le> unat resource then (Some EINVAL, t, rlim)
      else case arg of
        None \<Rightarrow> (Some EFAULT, t, rlim)
      | Some new_rlim \<Rightarrow>
          if rlim_max new_rlim < rlim_cur new_rlim then (Some EINVAL, t, rlim)
          else
            let old_rlim = rlim ! unat resource;
                (ok, t1) = or_capable (\<not> rlim_max old_rlim < rlim_max new_rlim) CAP_SYS_RESOURCE t
            in if \<not> ok then (Some EPERM, t1, rlim)
               else if unat resource = RLIMIT_NOFILE \<and> NR_OPEN < rlim_max new_rlim
               then (Some EPERM, t1, rlim)
               else case security_task_setrlimit resource new_rlim of
                      Some e \<Rightarrow> (Some e, t1, rlim)
                    | None \<Rightarrow> (None, t1, rlim[unat resource := new_rlim]))"

section \<open>Limits along a run\<close>

definition rlimits_ok :: "rlimit list \<Rightarrow> bool" where
  "rlimits_ok rl \<longleftrightarrow> length rl = RLIM_NLIMITS \<and> (\<forall>x \<in> set rl. rlim_cur x \<le> rlim_max x) \<and>
     rlim_max (rl ! RLIMIT_NOFILE) \<le> NR_OPEN"

fun setrlimits :: "(u32 \<times> rlimit option) list \<Rightarrow> cred \<times> rlimit list \<Rightarrow> cred \<times> rlimit list" where
  "setrlimits [] s = s"
| "setrlimits ((resource, arg) # calls) s = setrlimits calls (snd (sys_setrlimit resource arg s))"

lemma INIT_RLIMITS_ok: "rlimits_ok INIT_RLIMITS"
  by (simp add: rlimits_ok_def INIT_RLIMITS_def RLIM_NLIMITS_def RLIMIT_NOFILE_def NR_OPEN_def
      INR_OPEN_def RLIM_INFINITY_def Let_def word_not_simps)

lemma setrlimit_ok:
  assumes "sys_setrlimit resource arg (t, rl) = (r, t', rl')" "rlimits_ok rl"
  shows "rlimits_ok rl'"
proof -
  have upd: "rlimits_ok (rl[unat resource := x])"
    if "rlim_cur x \<le> rlim_max x" "unat resource < RLIM_NLIMITS"
      "unat resource = RLIMIT_NOFILE \<longrightarrow> rlim_max x \<le> NR_OPEN" for x
    using assms(2) that set_update_subset_insert [of rl "unat resource" x]
    by (auto simp: rlimits_ok_def nth_list_update)
  show ?thesis
    using assms upd
    by (auto simp: sys_setrlimit_def security_task_setrlimit_def Let_def not_less not_le
        split: if_splits option.splits prod.splits)
qed

lemma setrlimit_caps:
  assumes "sys_setrlimit resource arg (t, rl) = (r, t', rl')"
  shows "c_effective t' = c_effective t"
  using assms
  by (auto simp: sys_setrlimit_def or_capable_iff Let_def split: if_splits option.splits)

lemma setrlimit_hard:
  assumes "sys_setrlimit resource arg (t, rl) = (r, t', rl')" "length rl = RLIM_NLIMITS"
    "\<not> cap_raised (c_effective t) CAP_SYS_RESOURCE"
  shows "length rl' = RLIM_NLIMITS \<and> rlim_max (rl' ! i) \<le> rlim_max (rl ! i)"
  using assms
  by (cases "i = unat resource")
    (auto simp: sys_setrlimit_def or_capable_iff cap_raised_bit security_task_setrlimit_def Let_def
      not_less split: if_splits option.splits)

lemma setrlimits_ok: "rlimits_ok (snd s) \<Longrightarrow> rlimits_ok (snd (setrlimits calls s))"
proof (induction calls s rule: setrlimits.induct)
  case (2 resource arg calls s)
  show ?case
    using 2 setrlimit_ok [of resource arg "fst s" "snd s"] by (simp add: prod_eq_iff)
qed simp

text \<open>Without \<open>CAP_SYS_RESOURCE\<close> no sequence of calls raises a hard limit.\<close>

lemma setrlimits_hard:
  assumes "rlimits_ok (snd s)" "\<not> cap_raised (c_effective (fst s)) CAP_SYS_RESOURCE"
  shows "rlim_max (snd (setrlimits calls s) ! i) \<le> rlim_max (snd s ! i)"
  using assms
proof (induction calls s rule: setrlimits.induct)
  case (2 resource arg calls s)
  obtain t rl r t' rl' where s: "s = (t, rl)" "sys_setrlimit resource arg (t, rl) = (r, t', rl')"
    by (metis prod.exhaust)
  have "length rl = RLIM_NLIMITS"
    using "2.prems"(1) s(1) by (simp add: rlimits_ok_def)
  then have "rlim_max (rl' ! i) \<le> rlim_max (rl ! i)"
    using setrlimit_hard [OF s(2)] "2.prems"(2) s(1) by simp
  moreover have "rlim_max (snd (setrlimits calls (t', rl')) ! i) \<le> rlim_max (rl' ! i)"
    using "2.IH" setrlimit_ok [OF s(2)] setrlimit_caps [OF s(2)] "2.prems" s by simp
  ultimately show ?case
    using s by simp
qed simp

text \<open>The values a query returns are those of the table; the old call caps them at \<open>2 ^ 31 - 1\<close>.\<close>

lemma old_getrlimit_min:
  "sys_old_getrlimit w resource rl =
     map_sum id (\<lambda>x. x\<lparr>rlim_cur := min (rlim_cur x) 0x7FFFFFFF, rlim_max := min (rlim_max x) 0x7FFFFFFF\<rparr>)
       (sys_getrlimit w resource rl)"
  by (simp add: sys_old_getrlimit_def sys_getrlimit_def Let_def min_def not_le)

lemma setrlimit_getrlimit:
  assumes "sys_setrlimit resource (Some x) (t, rl) = (None, t', rl')" "length rl = RLIM_NLIMITS"
  shows "sys_getrlimit True resource rl' = Inr x"
  using assms
  by (auto simp: sys_setrlimit_def sys_getrlimit_def security_task_setrlimit_def Let_def
      split: if_splits prod.splits)

end
