(* ===== verification/UserRuns.thy ===== *)
theory UserRuns
  imports CredRuns SuppGroups
begin

text \<open>
  The accounting of user structures (\<open>kernel/user.c\<close>) when tasks interleave. A task that
  changes its user runs \<open>set_user\<close> of \<open>kernel/sys.c\<close> and the functions it calls; other tasks
  can run between any two of its sections under \<open>uidhash_lock\<close> and between any two atomic
  operations on a counter. \<open>phase\<close> is the point a task has reached. Tasks also fork
  (\<open>copy_process\<close>), end (\<open>release_task\<close>, \<open>__put_task_struct\<close>) and hold the user that
  \<open>find_user\<close> returned. The test of the process limit in \<open>copy_process\<close> only refuses a
  fork and is left out; a fork that fails later undoes the two increments as the end of the
  child does. References taken by signals, shared memory and message queues, and kernel
  threads, which \<open>reparent_to_init\<close> moves to the root user, are left out.
\<close>

section \<open>Steps\<close>

text \<open>
  \<open>Alloc u\<close>: the first lookup of \<open>alloc_uid\<close> found nothing. \<open>Got u\<close>: \<open>alloc_uid\<close> returned.
  \<open>Over u\<close>, \<open>Under u\<close>: the process limit is reached or not. \<open>Inc u\<close>, \<open>Dec u\<close>: inside
  \<open>switch_uid\<close>, after the new user has one process more and the old one one less. \<open>Switched old u\<close>: the task
  points to \<open>u\<close> and still has to free \<open>old\<close>. \<open>Done u\<close>: back in \<open>set_user\<close>. \<open>Held u\<close>:
  \<open>find_user\<close> returned. \<open>Forking\<close>: \<open>copy_process\<close> has taken a reference for the child.
  \<open>Dead\<close>: \<open>release_task\<close> has taken the process off.
\<close>

datatype phase =
    Idle | Alloc u32 | Got u32 | Over u32 | Under u32 | Inc u32 | Dec u32 | Switched u32 u32
  | Done u32 | Held u32 | Forking | Dead

record utask =
  ut_uid :: u32
  ut_user :: u32
  ut_nproc :: u32
  ut_phase :: phase

record usys =
  us_users :: users
  us_task :: "nat \<rightharpoonup> utask"

definition root_user :: users where
  "root_user = \<lparr>uidhash = (\<lambda>_. [])(uu_uidhashfn 0 := [0]), u_count = (\<lambda>_. 0)(0 := 1),
     u_processes = (\<lambda>_. 0)(0 := 1)\<rparr>"

text \<open>Task \<open>p\<close>, at phase \<open>ph\<close>, moves on and leaves the users as \<open>us\<close>.\<close>

definition at_phase :: "usys \<Rightarrow> nat \<Rightarrow> utask \<Rightarrow> phase \<Rightarrow> bool" where
  "at_phase s p t ph \<longleftrightarrow> us_task s p = Some t \<and> ut_phase t = ph"

definition move :: "usys \<Rightarrow> nat \<Rightarrow> utask \<Rightarrow> users \<Rightarrow> usys" where
  "move s p t us = s\<lparr>us_users := us, us_task := (us_task s)(p \<mapsto> t)\<rparr>"

definition add_process :: "u32 \<Rightarrow> users \<Rightarrow> users" where
  "add_process u us = us\<lparr>u_processes := (u_processes us)(u := u_processes us u + 1)\<rparr>"

definition sub_process :: "u32 \<Rightarrow> users \<Rightarrow> users" where
  "sub_process u us = us\<lparr>u_processes := (u_processes us)(u := u_processes us u - 1)\<rparr>"

definition get_uid :: "u32 \<Rightarrow> users \<Rightarrow> users" where
  "get_uid u us = us\<lparr>u_count := (u_count us)(u := u_count us u + 1)\<rparr>"

definition nproc_reached :: "utask \<Rightarrow> u32 \<Rightarrow> users \<Rightarrow> bool" where
  "nproc_reached t u us \<longleftrightarrow> ut_nproc t \<le> u_processes us u \<and> u \<noteq> 0"

inductive ustep :: "usys \<Rightarrow> usys \<Rightarrow> bool" where
  lookup: "at_phase s p t Idle \<Longrightarrow> uid_hash_find u (uu_uidhashfn u) (us_users s) = (found, us) \<Longrightarrow>
    ustep s (move s p (t\<lparr>ut_phase := if found then Got u else Alloc u\<rparr>) us)"
| no_memory: "at_phase s p t (Alloc u) \<Longrightarrow> ustep s (move s p (t\<lparr>ut_phase := Idle\<rparr>) (us_users s))"
| add: "at_phase s p t (Alloc u) \<Longrightarrow>
    ustep s (move s p (t\<lparr>ut_phase := Got u\<rparr>) (alloc_uid_add u (us_users s)))"
| limit: "at_phase s p t (Got u) \<Longrightarrow>
    ustep s (move s p (t\<lparr>ut_phase := if nproc_reached t u (us_users s) then Over u else Under u\<rparr>) (us_users s))"
| over: "at_phase s p t (Over u) \<Longrightarrow>
    ustep s (move s p (t\<lparr>ut_phase := Idle\<rparr>) (free_uid u (us_users s)))"
| inc: "at_phase s p t (Under u) \<Longrightarrow>
    ustep s (move s p (t\<lparr>ut_phase := Inc u\<rparr>) (add_process u (us_users s)))"
| dec: "at_phase s p t (Inc u) \<Longrightarrow>
    ustep s (move s p (t\<lparr>ut_phase := Dec u\<rparr>) (sub_process (ut_user t) (us_users s)))"
| point: "at_phase s p t (Dec u) \<Longrightarrow>
    ustep s (move s p (t\<lparr>ut_user := u, ut_phase := Switched (ut_user t) u\<rparr>) (us_users s))"
| free: "at_phase s p t (Switched old u) \<Longrightarrow>
    ustep s (move s p (t\<lparr>ut_phase := Done u\<rparr>) (free_uid old (us_users s)))"
| set_uid: "at_phase s p t (Done u) \<Longrightarrow>
    ustep s (move s p (t\<lparr>ut_uid := u, ut_phase := Idle\<rparr>) (us_users s))"
| find: "at_phase s p t Idle \<Longrightarrow> find_user u (us_users s) = (True, us) \<Longrightarrow>
    ustep s (move s p (t\<lparr>ut_phase := Held u\<rparr>) us)"
| put: "at_phase s p t (Held u) \<Longrightarrow>
    ustep s (move s p (t\<lparr>ut_phase := Idle\<rparr>) (free_uid u (us_users s)))"
| fork_count: "at_phase s p t Idle \<Longrightarrow>
    ustep s (move s p (t\<lparr>ut_phase := Forking\<rparr>) (get_uid (ut_user t) (us_users s)))"
| fork_process: "at_phase s p t Forking \<Longrightarrow> us_task s c = None \<Longrightarrow> c < PID_MAX_LIMIT \<Longrightarrow>
    ustep s (move (move s c (t\<lparr>ut_phase := Idle\<rparr>) (add_process (ut_user t) (us_users s))) p
      (t\<lparr>ut_phase := Idle\<rparr>) (add_process (ut_user t) (us_users s)))"
| release: "at_phase s p t Idle \<Longrightarrow>
    ustep s (move s p (t\<lparr>ut_phase := Dead\<rparr>) (sub_process (ut_user t) (us_users s)))"
| reap: "at_phase s p t Dead \<Longrightarrow>
    ustep s (s\<lparr>us_users := free_uid (ut_user t) (us_users s), us_task := (us_task s)(p := None)\<rparr>)"
| rlimit: "at_phase s p t Idle \<Longrightarrow> ustep s (move s p (t\<lparr>ut_nproc := n\<rparr>) (us_users s))"

definition uinit :: "u32 \<Rightarrow> usys" where
  "uinit n = \<lparr>us_users = root_user,
     us_task = [0 \<mapsto> \<lparr>ut_uid = 0, ut_user = 0, ut_nproc = n, ut_phase = Idle\<rparr>]\<rparr>"

section \<open>References\<close>

text \<open>The references and the processes a task accounts for.\<close>

fun phase_refs :: "phase \<Rightarrow> u32 \<Rightarrow> u32 \<Rightarrow> nat" where
  "phase_refs (Got v) user u = of_bool (v = u)"
| "phase_refs (Over v) user u = of_bool (v = u)"
| "phase_refs (Under v) user u = of_bool (v = u)"
| "phase_refs (Inc v) user u = of_bool (v = u)"
| "phase_refs (Dec v) user u = of_bool (v = u)"
| "phase_refs (Switched old v) user u = of_bool (old = u)"
| "phase_refs (Held v) user u = of_bool (v = u)"
| "phase_refs Forking user u = of_bool (user = u)"
| "phase_refs _ user u = 0"

fun phase_procs :: "phase \<Rightarrow> u32 \<Rightarrow> u32 \<Rightarrow> nat" where
  "phase_procs (Inc v) user u = of_bool (user = u) + of_bool (v = u)"
| "phase_procs (Dec v) user u = of_bool (v = u)"
| "phase_procs Dead user u = 0"
| "phase_procs _ user u = of_bool (user = u)"

definition task_refs :: "u32 \<Rightarrow> utask \<Rightarrow> nat" where
  "task_refs u t = of_bool (ut_user t = u) + phase_refs (ut_phase t) (ut_user t) u"

definition task_procs :: "u32 \<Rightarrow> utask \<Rightarrow> nat" where
  "task_procs u t = phase_procs (ut_phase t) (ut_user t) u"

definition tally :: "(utask \<Rightarrow> nat) \<Rightarrow> (nat \<rightharpoonup> utask) \<Rightarrow> nat" where
  "tally f ts = (\<Sum>p \<in> dom ts. f (the (ts p)))"

definition hash_ok :: "(u32 \<Rightarrow> u32 list) \<Rightarrow> bool" where
  "hash_ok h \<longleftrightarrow> (\<forall>b. distinct (h b) \<and> (\<forall>u \<in> set (h b). uu_uidhashfn u = b))"

definition hashed :: "(u32 \<Rightarrow> u32 list) \<Rightarrow> u32 \<Rightarrow> bool" where
  "hashed h u \<longleftrightarrow> u \<in> set (h (uu_uidhashfn u))"

definition counts_ok :: "(u32 \<Rightarrow> nat) \<Rightarrow> (u32 \<Rightarrow> nat) \<Rightarrow> users \<Rightarrow> bool" where
  "counts_ok cnt prc us \<longleftrightarrow> (\<forall>u.
     (hashed (uidhash us) u \<longleftrightarrow> 0 < cnt u) \<and>
     (hashed (uidhash us) u \<longrightarrow> unat (u_count us u) = cnt u \<and> unat (u_processes us u) = prc u))"

text \<open>Outside the last steps of \<open>set_user\<close> the user is that of the real uid.\<close>

fun phase_uid :: "phase \<Rightarrow> u32 \<Rightarrow> u32 \<Rightarrow> bool" where
  "phase_uid (Switched old u) uid user \<longleftrightarrow> user = u"
| "phase_uid (Done u) uid user \<longleftrightarrow> user = u"
| "phase_uid _ uid user \<longleftrightarrow> user = uid"

definition users_ok :: "usys \<Rightarrow> bool" where
  "users_ok s \<longleftrightarrow>
     dom (us_task s) \<subseteq> {..<PID_MAX_LIMIT} \<and> hash_ok (uidhash (us_users s)) \<and>
     counts_ok (\<lambda>u. tally (task_refs u) (us_task s)) (\<lambda>u. tally (task_procs u) (us_task s)) (us_users s) \<and>
     (\<forall>p t. us_task s p = Some t \<longrightarrow> phase_uid (ut_phase t) (ut_uid t) (ut_user t))"

lemma tally_upd:
  assumes "finite (dom ts)" "ts p = Some t"
  shows "tally f (ts(p \<mapsto> t')) + f t = tally f ts + f t'"
proof -
  have "tally f ts = f t + (\<Sum>q \<in> dom ts - {p}. f (the (ts q)))"
    using assms by (simp add: tally_def sum.remove [of _ p] domI)
  moreover have "tally f (ts(p \<mapsto> t')) = f t' + (\<Sum>q \<in> dom ts - {p}. f (the (ts q)))"
    using assms by (simp add: tally_def sum.insert_remove)
  ultimately show ?thesis by simp
qed

lemma tally_new:
  assumes "finite (dom ts)" "ts p = None"
  shows "tally f (ts(p \<mapsto> t)) = tally f ts + f t"
proof -
  have "(\<Sum>q \<in> dom ts. f (the ((ts(p \<mapsto> t)) q))) = (\<Sum>q \<in> dom ts. f (the (ts q)))"
    using assms(2) by (intro sum.cong) auto
  moreover have "p \<notin> dom ts"
    using assms(2) by auto
  ultimately show ?thesis
    using assms(1) by (simp add: tally_def)
qed

lemma tally_del:
  assumes "finite (dom ts)" "ts p = Some t"
  shows "tally f (ts(p := None)) + f t = tally f ts"
  using assms tally_new [of "ts(p := None)" p f t] by (simp add: fun_upd_idem)

lemma tally_le: "finite (dom ts) \<Longrightarrow> (\<And>t. f t \<le> n) \<Longrightarrow> tally f ts \<le> card (dom ts) * n"
  unfolding tally_def using sum_bounded_above [of "dom ts" "\<lambda>p. f (the (ts p))" n] by simp

lemma task_refs_le: "task_refs u t \<le> 2"
  by (cases "ut_phase t") (auto simp: task_refs_def)

lemma task_procs_le: "task_procs u t \<le> task_refs u t"
  by (cases "ut_phase t") (auto simp: task_refs_def task_procs_def)

lemma hash_ok_insert: "hash_ok h \<Longrightarrow> \<not> hashed h u \<Longrightarrow> hash_ok (h(uu_uidhashfn u := u # h (uu_uidhashfn u)))"
  by (auto simp: hash_ok_def hashed_def)

lemma hash_ok_remove: "hash_ok h \<Longrightarrow> hash_ok (h(uu_uidhashfn u := remove1 u (h (uu_uidhashfn u))))"
  using set_remove1_subset [of u "h (uu_uidhashfn u)"] by (auto simp: hash_ok_def)

lemma hashed_insert: "hash_ok h \<Longrightarrow> hashed (h(uu_uidhashfn u := u # h (uu_uidhashfn u))) v \<longleftrightarrow> v = u \<or> hashed h v"
  by (auto simp: hashed_def)

lemma hashed_remove:
  "hash_ok h \<Longrightarrow> hashed (h(uu_uidhashfn u := remove1 u (h (uu_uidhashfn u)))) v \<longleftrightarrow> v \<noteq> u \<and> hashed h v"
  by (auto simp: hashed_def hash_ok_def)

lemma find_hash: "fst (uid_hash_find u (uu_uidhashfn u) us) \<longleftrightarrow> hashed (uidhash us) u"
  by (auto simp: uid_hash_find_def hashed_def find_None_iff)

lemma unat_add_1: "unat (x :: u32) + 1 < 2 ^ 32 \<Longrightarrow> unat (x + 1) = unat x + 1"
  by (simp add: unat_word_ariths(1))

lemma unat_sub_1: "0 < unat (x :: u32) \<Longrightarrow> unat (x - 1) = unat x - 1"
  using unat_minus_one [of x] by fastforce

subsection \<open>The operations on the counters\<close>

lemma get_counts:
  assumes "counts_ok cnt prc us" "0 < cnt u" "cnt u + 1 < 2 ^ 32"
  shows "counts_ok (cnt(u := cnt u + 1)) prc (get_uid u us)" "uidhash (get_uid u us) = uidhash us"
  using assms unat_add_1 [of "u_count us u"] by (auto simp: counts_ok_def get_uid_def)

lemma uid_hash_find_get:
  "uid_hash_find u (uu_uidhashfn u) us =
     (if hashed (uidhash us) u then (True, get_uid u us) else (False, us))"
  using find_hash [of u us] by (simp add: uid_hash_find_def get_uid_def split: if_splits)

lemma hashed_cnt: "counts_ok cnt prc us \<Longrightarrow> hashed (uidhash us) u \<longleftrightarrow> 0 < cnt u"
  by (simp add: counts_ok_def)

lemma add_counts:
  assumes "counts_ok cnt prc us" "hash_ok (uidhash us)" "cnt u + 1 < 2 ^ 32" "prc u \<le> cnt u"
  shows "counts_ok (cnt(u := cnt u + 1)) prc (alloc_uid_add u us)" "hash_ok (uidhash (alloc_uid_add u us))"
proof -
  have "counts_ok (cnt(u := cnt u + 1)) prc (alloc_uid_add u us) \<and> hash_ok (uidhash (alloc_uid_add u us))"
  proof (cases "hashed (uidhash us) u")
    case True
    then show ?thesis
      using get_counts [OF assms(1) _ assms(3)] assms(2) hashed_cnt [OF assms(1)]
      by (simp add: alloc_uid_add_def uid_hash_find_get)
  next
    case False
    then have us': "alloc_uid_add u us = uid_hash_insert u (uu_uidhashfn u)
        (us\<lparr>u_count := (u_count us)(u := 1), u_processes := (u_processes us)(u := 0)\<rparr>)"
      by (simp add: alloc_uid_add_def uid_hash_find_get)
    have "cnt u = 0" using assms(1) False by (simp add: counts_ok_def)
    then show ?thesis
      using assms(1,2,4) False hash_ok_insert [OF assms(2) False] hashed_insert [OF assms(2)]
      by (simp add: us' uid_hash_insert_def counts_ok_def)
  qed
  then show "counts_ok (cnt(u := cnt u + 1)) prc (alloc_uid_add u us)" "hash_ok (uidhash (alloc_uid_add u us))"
    by simp_all
qed

lemma free_counts:
  assumes "counts_ok cnt prc us" "hash_ok (uidhash us)" "0 < cnt u"
  shows "counts_ok (cnt(u := cnt u - 1)) prc (free_uid u us) \<and> hash_ok (uidhash (free_uid u us))"
proof -
  have "hashed (uidhash us) u" "unat (u_count us u) = cnt u"
    using assms(1,3) by (auto simp: counts_ok_def)
  then have c: "unat (u_count us u - 1) = cnt u - 1" using unat_sub_1 assms(3) by metis
  then have z: "u_count us u - 1 = 0 \<longleftrightarrow> cnt u = 1" using assms(3) by (auto simp: unat_eq_zero [symmetric])
  show ?thesis
  proof (cases "cnt u = 1")
    case True
    then show ?thesis
      using assms(1,2) z hash_ok_remove [OF assms(2)] hashed_remove [OF assms(2)]
      by (simp add: free_uid_def uid_hash_remove_def counts_ok_def)
  next
    case False
    then show ?thesis using assms z c by (simp add: free_uid_def counts_ok_def)
  qed
qed

lemma add_process_counts:
  assumes "counts_ok cnt prc us" "0 < cnt u" "prc u + 1 < 2 ^ 32"
  shows "counts_ok cnt (prc(u := prc u + 1)) (add_process u us)"
  using assms unat_add_1 [of "u_processes us u"] by (auto simp: counts_ok_def add_process_def)

lemma sub_process_counts:
  assumes "counts_ok cnt prc us" "0 < cnt u" "0 < prc u"
  shows "counts_ok cnt (prc(u := prc u - 1)) (sub_process u us)"
  using assms unat_sub_1 [of "u_processes us u"] by (auto simp: counts_ok_def sub_process_def)

section \<open>Every step keeps the accounts\<close>

lemma users_okD:
  assumes "users_ok s"
  shows "finite (dom (us_task s))" "hash_ok (uidhash (us_users s))"
    "counts_ok (\<lambda>u. tally (task_refs u) (us_task s)) (\<lambda>u. tally (task_procs u) (us_task s)) (us_users s)"
    "tally (task_refs u) (us_task s) \<le> 65536"
    "tally (task_procs u) (us_task s) \<le> tally (task_refs u) (us_task s)"
proof -
  have sub: "dom (us_task s) \<subseteq> {..<PID_MAX_LIMIT}"
    using assms by (simp add: users_ok_def)
  then show fin: "finite (dom (us_task s))"
    using finite_subset by blast
  have "card (dom (us_task s)) \<le> PID_MAX_LIMIT"
    using card_mono [OF _ sub] by simp
  then show "tally (task_refs u) (us_task s) \<le> 65536"
    using tally_le [OF fin, of "task_refs u" 2] task_refs_le [of u] by (simp add: PID_MAX_LIMIT_def)
  show "tally (task_procs u) (us_task s) \<le> tally (task_refs u) (us_task s)"
    unfolding tally_def by (rule sum_mono) (rule task_procs_le)
qed (use assms in \<open>simp_all add: users_ok_def\<close>)

lemma users_ok_phase: "users_ok s \<Longrightarrow> us_task s p = Some t \<Longrightarrow> phase_uid (ut_phase t) (ut_uid t) (ut_user t)"
  by (simp add: users_ok_def)

lemma tally_ge:
  assumes "users_ok s" "us_task s p = Some t"
  shows "f t \<le> tally f (us_task s)"
  using tally_del [OF users_okD(1) [OF assms(1)] assms(2), of f] by simp

text \<open>A step of one task: its share of the totals changes with the counters.\<close>

lemma users_ok_move:
  assumes "users_ok s" "us_task s p = Some t" "hash_ok (uidhash us)"
    "phase_uid (ut_phase t') (ut_uid t') (ut_user t')"
    "counts_ok (\<lambda>u. tally (task_refs u) (us_task s) + task_refs u t' - task_refs u t)
      (\<lambda>u. tally (task_procs u) (us_task s) + task_procs u t' - task_procs u t) us"
  shows "users_ok (move s p t' us)"
proof -
  have "tally f ((us_task s)(p \<mapsto> t')) = tally f (us_task s) + f t' - f t" for f
    using tally_upd [OF users_okD(1) [OF assms(1)] assms(2), of f t'] by simp
  moreover have "dom ((us_task s)(p \<mapsto> t')) = dom (us_task s)"
    using assms(2) by auto
  ultimately show ?thesis
    using assms(1,3-5) by (auto simp: users_ok_def move_def)
qed

text \<open>A step that moves the counters by the share it adds or removes.\<close>

lemma users_ok_same:
  assumes "users_ok s" "us_task s p = Some t" "phase_uid (ut_phase t') (ut_uid t') (ut_user t')"
    "\<And>u. task_refs u t' = task_refs u t" "\<And>u. task_procs u t' = task_procs u t"
  shows "users_ok (move s p t' (us_users s))"
  using users_okD(2,3) [OF assms(1)] assms(4,5) by (intro users_ok_move [OF assms(1,2) _ assms(3)]) simp_all

lemma users_ok_gain:
  assumes "users_ok s" "us_task s p = Some t" "phase_uid (ut_phase t') (ut_uid t') (ut_user t')"
    "\<And>v. task_refs v t' = task_refs v t + of_bool (u = v)" "\<And>v. task_procs v t' = task_procs v t"
    "\<And>cnt prc. counts_ok cnt prc (us_users s) \<Longrightarrow> cnt u + 1 < 2 ^ 32 \<Longrightarrow> prc u \<le> cnt u \<Longrightarrow>
       (0 < cnt u \<longleftrightarrow> 0 < tally (task_refs u) (us_task s)) \<Longrightarrow>
       counts_ok (cnt(u := cnt u + 1)) prc us" "hash_ok (uidhash us)"
  shows "users_ok (move s p t' us)"
proof -
  let ?cnt = "\<lambda>v. tally (task_refs v) (us_task s)" and ?prc = "\<lambda>v. tally (task_procs v) (us_task s)"
  have "counts_ok (?cnt(u := ?cnt u + 1)) ?prc us"
    using users_okD(3) [OF assms(1)] users_okD(4,5) [OF assms(1), of u] by (intro assms(6)) simp_all
  moreover have "(\<lambda>v. ?cnt v + task_refs v t' - task_refs v t) = ?cnt(u := ?cnt u + 1)"
    using assms(4) by (auto simp: fun_eq_iff)
  ultimately show ?thesis
    using assms(5) by (intro users_ok_move [OF assms(1,2,7,3)]) simp
qed

lemma users_ok_drop:
  assumes "users_ok s" "us_task s p = Some t" "phase_uid (ut_phase t') (ut_uid t') (ut_user t')"
    "\<And>v. task_refs v t = task_refs v t' + of_bool (u = v)" "\<And>v. task_procs v t' = task_procs v t"
  shows "users_ok (move s p t' (free_uid u (us_users s)))"
proof -
  let ?cnt = "\<lambda>v. tally (task_refs v) (us_task s)" and ?prc = "\<lambda>v. tally (task_procs v) (us_task s)"
  have "0 < ?cnt u"
    using tally_ge [OF assms(1,2), of "task_refs u"] assms(4) [of u] by simp
  then have free: "counts_ok (?cnt(u := ?cnt u - 1)) ?prc (free_uid u (us_users s))"
    "hash_ok (uidhash (free_uid u (us_users s)))"
    using free_counts [OF users_okD(3,2) [OF assms(1)]] by simp_all
  moreover have "(\<lambda>v. ?cnt v + task_refs v t' - task_refs v t) = ?cnt(u := ?cnt u - 1)"
    using assms(4) by (auto simp: fun_eq_iff)
  ultimately show ?thesis
    using assms(5) by (intro users_ok_move [OF assms(1,2) _ assms(3)]) simp_all
qed

lemma users_ok_inc:
  assumes "users_ok s" "us_task s p = Some t" "phase_uid (ut_phase t') (ut_uid t') (ut_user t')"
    "\<And>v. task_refs v t' = task_refs v t" "\<And>v. task_procs v t' = task_procs v t + of_bool (u = v)" "0 < task_refs u t"
  shows "users_ok (move s p t' (add_process u (us_users s)))"
proof -
  let ?cnt = "\<lambda>v. tally (task_refs v) (us_task s)" and ?prc = "\<lambda>v. tally (task_procs v) (us_task s)"
  have "0 < ?cnt u" "?prc u + 1 < 2 ^ 32"
    using tally_ge [OF assms(1,2), of "task_refs u"] users_okD(4,5) [OF assms(1), of u] assms(6) by simp_all
  then have "counts_ok ?cnt (?prc(u := ?prc u + 1)) (add_process u (us_users s))"
    by (rule add_process_counts [OF users_okD(3) [OF assms(1)]])
  moreover have "(\<lambda>v. ?prc v + task_procs v t' - task_procs v t) = ?prc(u := ?prc u + 1)"
    using assms(5) by (auto simp: fun_eq_iff)
  moreover have "hash_ok (uidhash (add_process u (us_users s)))"
    using users_okD(2) [OF assms(1)] by (simp add: add_process_def)
  ultimately show ?thesis
    using assms(4) by (intro users_ok_move [OF assms(1,2) _ assms(3)]) simp_all
qed

lemma users_ok_dec:
  assumes "users_ok s" "us_task s p = Some t" "phase_uid (ut_phase t') (ut_uid t') (ut_user t')"
    "\<And>v. task_refs v t' = task_refs v t" "\<And>v. task_procs v t = task_procs v t' + of_bool (u = v)"
  shows "users_ok (move s p t' (sub_process u (us_users s)))"
proof -
  let ?cnt = "\<lambda>v. tally (task_refs v) (us_task s)" and ?prc = "\<lambda>v. tally (task_procs v) (us_task s)"
  have "0 < ?prc u" "0 < ?cnt u"
    using tally_ge [OF assms(1,2), of "task_procs u"] users_okD(5) [OF assms(1), of u] assms(5) [of u] by simp_all
  then have "counts_ok ?cnt (?prc(u := ?prc u - 1)) (sub_process u (us_users s))"
    by (intro sub_process_counts [OF users_okD(3) [OF assms(1)]])
  moreover have "(\<lambda>v. ?prc v + task_procs v t' - task_procs v t) = ?prc(u := ?prc u - 1)"
    using assms(5) by (auto simp: fun_eq_iff)
  moreover have "hash_ok (uidhash (sub_process u (us_users s)))"
    using users_okD(2) [OF assms(1)] by (simp add: sub_process_def)
  ultimately show ?thesis
    using assms(4) by (intro users_ok_move [OF assms(1,2) _ assms(3)]) simp_all
qed

lemmas shares = task_refs_def task_procs_def at_phase_def

lemma users_ok_get:
  assumes "users_ok s" "us_task s p = Some t" "phase_uid (ut_phase t') (ut_uid t') (ut_user t')"
    "\<And>v. task_refs v t' = task_refs v t + of_bool (u = v)" "\<And>v. task_procs v t' = task_procs v t"
    "hashed (uidhash (us_users s)) u"
  shows "users_ok (move s p t' (get_uid u (us_users s)))"
proof (rule users_ok_gain [OF assms(1-5)])
  have pos: "0 < tally (task_refs u) (us_task s)"
    using hashed_cnt [OF users_okD(3) [OF assms(1)], of u] assms(6) by simp
  show "counts_ok (cnt(u := cnt u + 1)) prc (get_uid u (us_users s))"
    if "counts_ok cnt prc (us_users s)" "cnt u + 1 < 2 ^ 32"
      "0 < cnt u \<longleftrightarrow> 0 < tally (task_refs u) (us_task s)" for cnt prc
    using get_counts(1) [OF that(1) _ that(2)] that(3) pos by simp
  show "hash_ok (uidhash (get_uid u (us_users s)))"
    using users_okD(2) [OF assms(1)] by (simp add: get_uid_def)
qed

lemma users_ok_add:
  assumes "users_ok s" "us_task s p = Some t" "phase_uid (ut_phase t') (ut_uid t') (ut_user t')"
    "\<And>v. task_refs v t' = task_refs v t + of_bool (u = v)" "\<And>v. task_procs v t' = task_procs v t"
  shows "users_ok (move s p t' (alloc_uid_add u (us_users s)))"
proof (rule users_ok_gain [OF assms])
  show "counts_ok (cnt(u := cnt u + 1)) prc (alloc_uid_add u (us_users s))"
    if "counts_ok cnt prc (us_users s)" "cnt u + 1 < 2 ^ 32" "prc u \<le> cnt u" for cnt prc
    by (rule add_counts(1) [OF that(1) users_okD(2) [OF assms(1)] that(2,3)])
  show "hash_ok (uidhash (alloc_uid_add u (us_users s)))"
    using users_okD(4,5) [OF assms(1), of u]
    by (intro add_counts(2) [OF users_okD(3,2) [OF assms(1)]]) simp_all
qed

text \<open>A task that points to a user keeps its structure in the table.\<close>

lemma users_ok_hashed:
  assumes "users_ok s" "us_task s p = Some t" "0 < task_refs u t"
  shows "hashed (uidhash (us_users s)) u"
  using hashed_cnt [OF users_okD(3) [OF assms(1)], of u] tally_ge [OF assms(1,2), of "task_refs u"] assms(3)
  by simp

lemma users_ok_fork:
  assumes "users_ok s" "at_phase s p t Forking" "us_task s c = None" "c < PID_MAX_LIMIT"
  shows "users_ok (move (move s c (t\<lparr>ut_phase := Idle\<rparr>) (add_process (ut_user t) (us_users s))) p
      (t\<lparr>ut_phase := Idle\<rparr>) (add_process (ut_user t) (us_users s)))"
proof -
  let ?t = "t\<lparr>ut_phase := Idle\<rparr>" and ?ts = "(us_task s)(c \<mapsto> t\<lparr>ut_phase := Idle\<rparr>)" and ?u = "ut_user t"
  let ?cnt = "\<lambda>v. tally (task_refs v) (us_task s)" and ?prc = "\<lambda>v. tally (task_procs v) (us_task s)"
  have t: "us_task s p = Some t" "ut_phase t = Forking"
    using assms(2) by (simp_all add: at_phase_def)
  have fin: "finite (dom (us_task s))"
    by (rule users_okD(1) [OF assms(1)])
  have p: "?ts p = Some t"
    using t(1) assms(3) by auto
  have fin': "finite (dom ?ts)"
    using fin by simp
  have tot: "tally f (?ts(p \<mapsto> ?t)) = tally f (us_task s) + f ?t + f ?t - f t" for f
    using tally_upd [OF fin' p, of f ?t] tally_new [OF fin assms(3), of f ?t] by linarith
  have refs: "(\<lambda>v. tally (task_refs v) (?ts(p \<mapsto> ?t))) = ?cnt"
    unfolding tot using t(2) by (auto simp: shares fun_eq_iff)
  have procs: "(\<lambda>v. tally (task_procs v) (?ts(p \<mapsto> ?t))) = ?prc(?u := ?prc ?u + 1)"
    unfolding tot using t(2) by (auto simp: shares fun_eq_iff)
  have "0 < ?cnt ?u" "?prc ?u + 1 < 2 ^ 32"
    using tally_ge [OF assms(1) t(1), of "task_refs ?u"] users_okD(4,5) [OF assms(1), of ?u] by (simp_all add: shares)
  then have "counts_ok ?cnt (?prc(?u := ?prc ?u + 1)) (add_process ?u (us_users s))"
    by (rule add_process_counts [OF users_okD(3) [OF assms(1)]])
  moreover have "phase_uid Idle (ut_uid t) (ut_user t)"
    using users_ok_phase [OF assms(1) t(1)] t(2) by simp
  ultimately show ?thesis
    using assms(1,4) refs procs t(1) by (auto simp: users_ok_def move_def add_process_def)
qed

lemma users_ok_reap:
  assumes "users_ok s" "at_phase s p t Dead"
  shows "users_ok (s\<lparr>us_users := free_uid (ut_user t) (us_users s), us_task := (us_task s)(p := None)\<rparr>)"
proof -
  let ?u = "ut_user t"
  let ?cnt = "\<lambda>v. tally (task_refs v) (us_task s)" and ?prc = "\<lambda>v. tally (task_procs v) (us_task s)"
  have t: "us_task s p = Some t" "ut_phase t = Dead"
    using assms(2) by (simp_all add: at_phase_def)
  have tot: "tally f ((us_task s)(p := None)) = tally f (us_task s) - f t" for f
    using tally_del [OF users_okD(1) [OF assms(1)] t(1), of f] by simp
  have "0 < ?cnt ?u"
    using tally_ge [OF assms(1) t(1), of "task_refs ?u"] by (simp add: shares)
  then have "counts_ok (?cnt(?u := ?cnt ?u - 1)) ?prc (free_uid ?u (us_users s))"
    "hash_ok (uidhash (free_uid ?u (us_users s)))"
    using free_counts [OF users_okD(3,2) [OF assms(1)]] by simp_all
  moreover have "(\<lambda>v. tally (task_refs v) ((us_task s)(p := None))) = ?cnt(?u := ?cnt ?u - 1)"
    "(\<lambda>v. tally (task_procs v) ((us_task s)(p := None))) = ?prc"
    unfolding tot using t(2) by (auto simp: shares fun_eq_iff)
  ultimately show ?thesis
    using assms(1) by (auto simp: users_ok_def)
qed

lemma ustep_users_ok: "ustep s s' \<Longrightarrow> users_ok s \<Longrightarrow> users_ok s'"
proof (induction rule: ustep.induct)
  case (lookup s p t u found us)
  have ph: "phase_uid Idle (ut_uid t) (ut_user t)"
    using users_ok_phase [OF lookup(3), of p t] lookup(1) by (simp add: at_phase_def)
  show ?case
  proof (cases "hashed (uidhash (us_users s)) u")
    case True
    then have "found" "us = get_uid u (us_users s)"
      using lookup(2) by (simp_all add: uid_hash_find_get)
    then show ?thesis
      using users_ok_get [OF lookup(3), of p t "t\<lparr>ut_phase := Got u\<rparr>" u] lookup(1) True ph by (simp add: shares)
  next
    case False
    then have "\<not> found" "us = us_users s"
      using lookup(2) by (simp_all add: uid_hash_find_get)
    then show ?thesis
      using users_ok_same [OF lookup(3), of p t "t\<lparr>ut_phase := Alloc u\<rparr>"] lookup(1) ph by (simp add: shares)
  qed
next
  case (find s p t u us)
  then have "hashed (uidhash (us_users s)) u" "us = get_uid u (us_users s)"
    by (simp_all add: find_user_def uid_hash_find_get split: if_splits)
  then show ?case
    using users_ok_get [OF find(3), of p t "t\<lparr>ut_phase := Held u\<rparr>" u] find(1) users_ok_phase [OF find(3), of p t]
    by (simp add: shares)
next
  case (add s p t u)
  then show ?case
    using users_ok_phase [OF add(2), of p t] by (intro users_ok_add [of s p t]) (simp_all add: shares)
next
  case (over s p t u)
  then show ?case
    using users_ok_phase [OF over(2), of p t] by (intro users_ok_drop [of s p t]) (simp_all add: shares)
next
  case (inc s p t u)
  then show ?case
    using users_ok_phase [OF inc(2), of p t] by (intro users_ok_inc [of s p t]) (simp_all add: shares)
next
  case (dec s p t u)
  then show ?case
    using users_ok_phase [OF dec(2), of p t] by (intro users_ok_dec [of s p t]) (simp_all add: shares)
next
  case (free s p t old u)
  then show ?case
    using users_ok_phase [OF free(2), of p t] by (intro users_ok_drop [of s p t]) (simp_all add: shares)
next
  case (put s p t u)
  then show ?case
    using users_ok_phase [OF put(2), of p t] by (intro users_ok_drop [of s p t]) (simp_all add: shares)
next
  case (fork_count s p t)
  then show ?case
    using users_ok_phase [OF fork_count(2), of p t] users_ok_hashed [OF fork_count(2), of p t "ut_user t"]
    by (intro users_ok_get [of s p t]) (simp_all add: shares)
next
  case (release s p t)
  then show ?case
    using users_ok_phase [OF release(2), of p t] by (intro users_ok_dec [of s p t]) (simp_all add: shares)
next
  case (fork_process s p t c)
  then show ?case by (intro users_ok_fork)
next
  case (reap s p t)
  then show ?case by (intro users_ok_reap)
next
  case (limit s p t u)
  then show ?case
    using users_ok_phase [OF limit(2), of p t] by (intro users_ok_same [of s p t]) (simp_all add: shares)
next
  case (point s p t u)
  then show ?case by (intro users_ok_same [of s p t]) (simp_all add: shares)
next
  case (no_memory s p t u)
  then show ?case
    using users_ok_phase [OF no_memory(2), of p t] by (intro users_ok_same [of s p t]) (simp_all add: shares)
next
  case (set_uid s p t u)
  then show ?case
    using users_ok_phase [OF set_uid(2), of p t] by (intro users_ok_same [of s p t]) (simp_all add: shares)
next
  case (rlimit s p t n)
  then show ?case
    using users_ok_phase [OF rlimit(2), of p t] by (intro users_ok_same [of s p t]) (simp_all add: shares)
qed

section \<open>Runs\<close>

lemma uinit_ok: "users_ok (uinit n)"
  by (auto simp: users_ok_def uinit_def root_user_def hash_ok_def counts_ok_def hashed_def tally_def
      task_refs_def task_procs_def PID_MAX_LIMIT_def)

lemma ureach_ok: "ustep\<^sup>*\<^sup>* (uinit n) s \<Longrightarrow> users_ok s"
  by (induction rule: rtranclp_induct) (auto intro: uinit_ok ustep_users_ok)

lemma bex_dom: "(\<exists>p \<in> dom m. Q (the (m p))) \<longleftrightarrow> (\<exists>p t. m p = Some t \<and> Q t)"
  by force

lemma tally_pos:
  assumes "finite (dom ts)"
  shows "0 < tally f ts \<longleftrightarrow> (\<exists>p t. ts p = Some t \<and> 0 < f t)"
proof -
  have "0 < tally f ts \<longleftrightarrow> (\<exists>p \<in> dom ts. f (the (ts p)) \<noteq> 0)"
    unfolding tally_def zero_less_iff_neq_zero using assms by (simp del: neq0_conv)
  also have "\<dots> \<longleftrightarrow> (\<exists>p t. ts p = Some t \<and> 0 < f t)"
    unfolding neq0_conv by (rule bex_dom)
  finally show ?thesis .
qed

lemma tally_idle:
  assumes "finite (dom ts)" "\<forall>t \<in> ran ts. f t = of_bool (P t)"
  shows "tally f ts = card {p. \<exists>t. ts p = Some t \<and> P t}"
proof -
  have "tally f ts = (\<Sum>p \<in> dom ts. of_bool (P (the (ts p))))"
    unfolding tally_def using assms(2) by (intro sum.cong) (auto simp: ran_def)
  also have "\<dots> = card {p \<in> dom ts. P (the (ts p))}"
    using assms(1) by (simp add: of_bool_def flip: sum.inter_filter)
  also have "{p \<in> dom ts. P (the (ts p))} = {p. \<exists>t. ts p = Some t \<and> P t}"
    by auto
  finally show ?thesis .
qed

text \<open>
  A call of \<open>set_user\<close> that no other task interrupts, as theory \<open>Creds\<close> has it, is a run
  of these steps.
\<close>

definition utask_of :: "cred \<Rightarrow> utask" where
  "utask_of c = \<lparr>ut_uid = c_uid c, ut_user = c_user c, ut_nproc = c_nproc c, ut_phase = Idle\<rparr>"

lemma alloc_uid_run:
  assumes "us_task s p = Some t" "ut_phase t = Idle" "alloc_uid mem u (us_users s) = Some us"
  shows "ustep\<^sup>*\<^sup>* s (move s p (t\<lparr>ut_phase := Got u\<rparr>) us)"
proof (cases "hashed (uidhash (us_users s)) u")
  case True
  then show ?thesis
    using assms ustep.lookup [of s p t u] by (simp add: alloc_uid_def at_phase_def uid_hash_find_get r_into_rtranclp)
next
  case False
  let ?s = "move s p (t\<lparr>ut_phase := Alloc u\<rparr>) (us_users s)"
  have "ustep s ?s"
    using assms False ustep.lookup [of s p t u] by (simp add: at_phase_def uid_hash_find_get)
  moreover have "ustep ?s (move s p (t\<lparr>ut_phase := Got u\<rparr>) us)"
    using assms False ustep.add [of ?s p "t\<lparr>ut_phase := Alloc u\<rparr>" u]
    by (simp add: at_phase_def move_def alloc_uid_def uid_hash_find_get split: if_splits)
  ultimately show ?thesis by (simp add: converse_rtranclp_into_rtranclp)
qed

lemma switch_uid_run:
  assumes "us_task s p = Some t" "ut_phase t = Under u"
  shows "ustep\<^sup>*\<^sup>* s (move s p (t\<lparr>ut_user := u, ut_uid := u, ut_phase := Idle\<rparr>)
    (free_uid (ut_user t) (sub_process (ut_user t) (add_process u (us_users s)))))"
proof -
  let ?us1 = "add_process u (us_users s)"
  let ?us2 = "sub_process (ut_user t) ?us1"
  let ?us3 = "free_uid (ut_user t) ?us2"
  let ?t1 = "t\<lparr>ut_phase := Inc u\<rparr>" and ?t2 = "t\<lparr>ut_phase := Dec u\<rparr>"
    and ?t3 = "t\<lparr>ut_user := u, ut_phase := Switched (ut_user t) u\<rparr>"
    and ?t4 = "t\<lparr>ut_user := u, ut_phase := Done u\<rparr>"
  have "ustep s (move s p ?t1 ?us1)"
    using assms ustep.inc [of s p t u] by (simp add: at_phase_def)
  moreover have "ustep (move s p ?t1 ?us1) (move s p ?t2 ?us2)"
    using ustep.dec [of "move s p ?t1 ?us1" p ?t1 u] by (simp add: at_phase_def move_def)
  moreover have "ustep (move s p ?t2 ?us2) (move s p ?t3 ?us2)"
    using ustep.point [of "move s p ?t2 ?us2" p ?t2 u] by (simp add: at_phase_def move_def)
  moreover have "ustep (move s p ?t3 ?us2) (move s p ?t4 ?us3)"
    using ustep.free [of "move s p ?t3 ?us2" p ?t3 "ut_user t" u] by (simp add: at_phase_def move_def)
  moreover have "ustep (move s p ?t4 ?us3) (move s p (t\<lparr>ut_user := u, ut_uid := u, ut_phase := Idle\<rparr>) ?us3)"
    using ustep.set_uid [of "move s p ?t4 ?us3" p ?t4 u] by (simp add: at_phase_def move_def)
  ultimately show ?thesis
    by (meson converse_rtranclp_into_rtranclp r_into_rtranclp)
qed

lemma set_user_run:
  assumes "us_task s p = Some (utask_of (cs_cur c))" "us_users s = cs_usr c"
  shows "ustep\<^sup>*\<^sup>* s (move s p (utask_of (cs_cur (snd (set_user mem u d c)))) (cs_usr (snd (set_user mem u d c))))"
proof (cases "alloc_uid mem u (cs_usr c)")
  case None
  then have "move s p (utask_of (cs_cur (snd (set_user mem u d c)))) (cs_usr (snd (set_user mem u d c))) = s"
    using assms by (simp add: set_user_def move_def fun_upd_idem)
  then show ?thesis by simp
next
  case (Some us)
  let ?t = "(utask_of (cs_cur c))\<lparr>ut_phase := Got u\<rparr>"
  have got: "ustep\<^sup>*\<^sup>* s (move s p ?t us)"
    using alloc_uid_run [OF assms(1)] Some assms(2) by (simp add: utask_of_def)
  note limit = ustep.limit [of "move s p ?t us" p ?t u]
  show ?thesis
  proof (cases "c_nproc (cs_cur c) \<le> u_processes us u \<and> u \<noteq> 0")
    case True
    let ?s1 = "move s p (?t\<lparr>ut_phase := Over u\<rparr>) us"
    have "ustep (move s p ?t us) ?s1"
      using limit True by (simp add: at_phase_def move_def nproc_reached_def utask_of_def)
    moreover have "ustep ?s1 (move s p (utask_of (cs_cur c)) (free_uid u us))"
      using ustep.over [of ?s1 p "?t\<lparr>ut_phase := Over u\<rparr>" u] by (simp add: at_phase_def move_def utask_of_def)
    moreover have "set_user mem u d c = (Inl EAGAIN, c\<lparr>cs_usr := free_uid u us\<rparr>)"
      using Some True by (simp add: set_user_def)
    ultimately show ?thesis
      using got by (simp add: rtranclp.rtrancl_into_rtrancl)
  next
    case False
    let ?t1 = "?t\<lparr>ut_phase := Under u\<rparr>"
    let ?us = "free_uid (ut_user ?t1) (sub_process (ut_user ?t1) (add_process u us))"
    have "ustep (move s p ?t us) (move s p ?t1 us)"
      using limit False by (auto simp: at_phase_def move_def nproc_reached_def utask_of_def)
    moreover have "ustep\<^sup>*\<^sup>* (move s p ?t1 us) (move s p (?t1\<lparr>ut_user := u, ut_uid := u, ut_phase := Idle\<rparr>) ?us)"
      using switch_uid_run [of "move s p ?t1 us" p ?t1 u] by (simp add: move_def)
    moreover have "utask_of (cs_cur (snd (set_user mem u d c))) = ?t1\<lparr>ut_user := u, ut_uid := u, ut_phase := Idle\<rparr>"
      "cs_usr (snd (set_user mem u d c)) = ?us"
      using Some False
      by (auto simp: set_user_def switch_uid_def Let_def utask_of_def clear_dumpable_def add_process_def sub_process_def)
    ultimately show ?thesis
      using got by (simp add: rtranclp_trans [of ustep, OF rtranclp.rtrancl_into_rtrancl])
  qed
qed

text \<open>
  C26. The accounting of users is exact in every interleaving of the tasks, in particular when
  two tasks allocate the same user at once. In every reachable state the chains of the hash
  table have no duplicates and each user is in the right one; a user structure is in the table
  exactly when a task holds a reference to it, with \<open>__count\<close> the number of those
  references and \<open>processes\<close> the number of processes accounted to it; so no structure is
  freed while a task points to it or is about to, and none is left behind. A task between two
  calls points to the structure of its real uid. When all tasks are between two calls,
  \<open>__count\<close> and \<open>processes\<close> are both the number of tasks with that real uid.
\<close>

theorem users_refcounts:
  assumes "ustep\<^sup>*\<^sup>* (uinit n) s"
  shows "hash_ok (uidhash (us_users s)) \<and>
    (\<forall>u. hashed (uidhash (us_users s)) u \<longleftrightarrow> (\<exists>p t. us_task s p = Some t \<and> 0 < task_refs u t)) \<and>
    (\<forall>u. hashed (uidhash (us_users s)) u \<longrightarrow>
      unat (u_count (us_users s) u) = tally (task_refs u) (us_task s) \<and>
      unat (u_processes (us_users s) u) = tally (task_procs u) (us_task s)) \<and>
    (\<forall>p t. us_task s p = Some t \<longrightarrow> hashed (uidhash (us_users s)) (ut_user t) \<and>
      (ut_phase t = Idle \<longrightarrow> ut_user t = ut_uid t)) \<and>
    ((\<forall>t \<in> ran (us_task s). ut_phase t = Idle) \<longrightarrow> (\<forall>u. hashed (uidhash (us_users s)) u \<longrightarrow>
      unat (u_count (us_users s) u) = card {p. \<exists>t. us_task s p = Some t \<and> ut_uid t = u} \<and>
      unat (u_processes (us_users s) u) = card {p. \<exists>t. us_task s p = Some t \<and> ut_uid t = u}))"
    (is "?hash \<and> ?in \<and> ?counts \<and> ?task \<and> ?rest")
proof (intro conjI)
  have ok: "users_ok s" by (rule ureach_ok [OF assms])
  note fin = users_okD(1) [OF ok]
  show ?hash by (rule users_okD(2) [OF ok])
  show counts: ?counts
    using users_okD(3) [OF ok] by (simp add: counts_ok_def)
  show ?in
  proof
    fix u show "hashed (uidhash (us_users s)) u \<longleftrightarrow> (\<exists>p t. us_task s p = Some t \<and> 0 < task_refs u t)"
      unfolding hashed_cnt [OF users_okD(3) [OF ok]] by (rule tally_pos [OF fin])
  qed
  have user: "ut_user t = ut_uid t" if "us_task s p = Some t" "ut_phase t = Idle" for p t
    using users_ok_phase [OF ok that(1)] that(2) by simp
  moreover have "hashed (uidhash (us_users s)) (ut_user t)" if "us_task s p = Some t" for p t
    by (rule users_ok_hashed [OF ok that]) (simp add: task_refs_def)
  ultimately show ?task by blast
  show ?rest
  proof (intro impI allI)
    fix u assume idle: "\<forall>t \<in> ran (us_task s). ut_phase t = Idle" and u: "hashed (uidhash (us_users s)) u"
    have "\<forall>t \<in> ran (us_task s). task_refs u t = of_bool (ut_uid t = u) \<and> task_procs u t = of_bool (ut_uid t = u)"
      using idle user by (auto simp: ran_def task_refs_def task_procs_def)
    then show "unat (u_count (us_users s) u) = card {p. \<exists>t. us_task s p = Some t \<and> ut_uid t = u} \<and>
      unat (u_processes (us_users s) u) = card {p. \<exists>t. us_task s p = Some t \<and> ut_uid t = u}"
      using counts u tally_idle [OF fin] by simp
  qed
qed

text \<open>
  A run in which init forks and both tasks set the same new user: each looks it up before the
  other has added it, the second finds it when it looks again.
\<close>

definition sample_task :: "phase \<Rightarrow> utask" where
  "sample_task ph = \<lparr>ut_uid = 0, ut_user = 0, ut_nproc = 100, ut_phase = ph\<rparr>"

definition race_users :: users where
  "race_users = root_user\<lparr>u_count := (u_count root_user)(0 := 2), u_processes := (u_processes root_user)(0 := 2)\<rparr>"

definition sample_race :: usys where
  "sample_race = \<lparr>us_users = alloc_uid_add 500 (alloc_uid_add 500 race_users),
     us_task = [0 \<mapsto> sample_task (Got 500), 1 \<mapsto> sample_task (Got 500)]\<rparr>"

lemma sample_race_run: "ustep\<^sup>*\<^sup>* (uinit 100) sample_race"
proof -
  define u1 where "u1 = \<lparr>us_users = get_uid 0 root_user, us_task = [0 \<mapsto> sample_task Forking]\<rparr>"
  define u2 where "u2 = \<lparr>us_users = race_users, us_task = [0 \<mapsto> sample_task Idle, 1 \<mapsto> sample_task Idle]\<rparr>"
  define u3 where "u3 = \<lparr>us_users = race_users, us_task = [0 \<mapsto> sample_task (Alloc 500), 1 \<mapsto> sample_task Idle]\<rparr>"
  define u4 where "u4 = \<lparr>us_users = race_users, us_task = [0 \<mapsto> sample_task (Alloc 500), 1 \<mapsto> sample_task (Alloc 500)]\<rparr>"
  define u5 where "u5 = \<lparr>us_users = alloc_uid_add 500 race_users,
      us_task = [0 \<mapsto> sample_task (Got 500), 1 \<mapsto> sample_task (Alloc 500)]\<rparr>"
  note defs = uinit_def u1_def u2_def u3_def u4_def u5_def sample_race_def sample_task_def at_phase_def move_def
  have "ustep (uinit 100) u1"
    using ustep.fork_count [of "uinit 100" 0 "sample_task Idle"] by (simp add: defs)
  moreover have "ustep u1 u2"
    using ustep.fork_process [of u1 0 "sample_task Forking" 1]
    by (simp add: defs PID_MAX_LIMIT_def fun_upd_twist race_users_def get_uid_def add_process_def root_user_def)
  moreover have none: "uid_hash_find 500 (uu_uidhashfn 500) race_users = (False, race_users)"
    by (simp add: uid_hash_find_def race_users_def root_user_def uu_uidhashfn_def)
  have "ustep u2 u3"
    using ustep.lookup [of u2 0 "sample_task Idle" 500 False race_users] none by (simp add: defs fun_upd_twist)
  moreover have "ustep u3 u4"
    using ustep.lookup [of u3 1 "sample_task Idle" 500 False race_users] none by (simp add: defs fun_upd_twist)
  moreover have "ustep u4 u5"
    using ustep.add [of u4 0 "sample_task (Alloc 500)" 500] by (simp add: defs fun_upd_twist)
  moreover have "ustep u5 sample_race"
    using ustep.add [of u5 1 "sample_task (Alloc 500)" 500] by (simp add: defs fun_upd_twist)
  ultimately show ?thesis
    by (meson converse_rtranclp_into_rtranclp r_into_rtranclp)
qed

theorem users_refcounts_witness:
  "ustep\<^sup>*\<^sup>* (uinit 100) sample_race \<and> hash_ok (uidhash (us_users sample_race)) \<and>
   hashed (uidhash (us_users sample_race)) 500 \<and> unat (u_count (us_users sample_race) 500) = 2 \<and>
   unat (u_processes (us_users sample_race) 500) = 0 \<and> unat (u_count (us_users sample_race) 0) = 2"
proof -
  note run = users_refcounts [OF sample_race_run]
  have t: "us_task sample_race 0 = Some (sample_task (Got 500))"
    by (simp add: sample_race_def)
  have refs: "task_refs 500 (sample_task (Got 500)) = 1" "task_refs 0 (sample_task (Got 500)) = 1"
    "task_procs 500 (sample_task (Got 500)) = 0"
    by (simp_all add: task_refs_def task_procs_def sample_task_def)
  have "tally (task_refs 500) (us_task sample_race) = 2" "tally (task_procs 500) (us_task sample_race) = 0"
    "tally (task_refs 0) (us_task sample_race) = 2"
    by (simp_all add: tally_def sample_race_def refs)
  moreover have "hashed (uidhash (us_users sample_race)) 500" "hashed (uidhash (us_users sample_race)) 0"
    using run t refs by (metis zero_less_one)+
  ultimately show ?thesis
    using run sample_race_run by simp
qed

end
