(* ===== verification/Dpath.thy ===== *)
theory Dpath
  imports Kernel_Prelude
begin

text \<open>
  Path names of directory entries: \<open>__d_path\<close>, \<open>d_path\<close> and Motorola's \<open>abs_d_path\<close> of
  \<open>fs/dcache.c\<close>, and the string comparisons of \<open>lib/string.c\<close> that the security module
  applies to the result. Directory entries and mounts are numbered; a C string is the list
  of its characters before the terminating NUL. The loop of \<open>__d_path\<close> follows parent
  pointers and does not return on a cyclic tree, where it is \<open>None\<close>.
\<close>

section \<open>Strings\<close>

definition hd0 :: "string \<Rightarrow> u8" where
  "hd0 s = (case s of [] \<Rightarrow> 0 | c # _ \<Rightarrow> of_char c)"

function strcmp :: "string \<Rightarrow> string \<Rightarrow> int" where
  "strcmp cs ct =
     (let res = hd0 cs - hd0 ct in
      if res \<noteq> 0 \<or> hd0 cs = 0 then sint res else strcmp (tl cs) (tl ct))"
  by pat_completeness auto
termination by (relation "measure (\<lambda>(cs, ct). length cs)") (auto simp: hd0_def split: list.splits)

declare strcmp.simps [simp del]

fun strncmp :: "string \<Rightarrow> string \<Rightarrow> nat \<Rightarrow> int" where
  "strncmp cs ct 0 = 0"
| "strncmp cs ct (Suc count) =
     (let res = hd0 cs - hd0 ct in
      if res \<noteq> 0 \<or> hd0 cs = 0 then sint res
      else if count = 0 then sint res else strncmp (tl cs) (tl ct) count)"

section \<open>Directory entries and mounts\<close>

text \<open>\<open>d_sb_dev\<close> is the device of the superblock, \<open>None\<close> where \<open>d_sb\<close> is NULL.\<close>

record dentry =
  d_parent :: nat
  d_name :: string
  d_unhashed :: bool
  d_sb_dev :: "u32 option"

record vfsmount =
  mnt_root :: nat
  mnt_parent :: nat
  mnt_mountpoint :: nat

record vfs =
  dentries :: "nat \<Rightarrow> dentry"
  mounts :: "nat \<Rightarrow> vfsmount"

definition IS_ROOT :: "vfs \<Rightarrow> nat \<Rightarrow> bool" where
  "IS_ROOT v x \<longleftrightarrow> x = d_parent (dentries v x)"

text \<open>
  The loop of \<open>__d_path\<close>. The path grows towards the front of the buffer: \<open>e\<close> is the text
  from \<open>end\<close> on, \<open>r\<close> the text from \<open>retval\<close> on.
\<close>

partial_function (option) d_path_loop ::
    "vfs \<Rightarrow> nat \<Rightarrow> nat \<Rightarrow> nat \<Rightarrow> nat \<Rightarrow> int \<Rightarrow> string \<Rightarrow> string \<Rightarrow> (errno + string) option" where
  "d_path_loop v root rootmnt dentry vfsmnt buflen e r =
     (if dentry = root \<and> vfsmnt = rootmnt then Some (Inr r)
      else if dentry = mnt_root (mounts v vfsmnt) \<or> IS_ROOT v dentry then
        (if mnt_parent (mounts v vfsmnt) = vfsmnt then
           (if buflen - int (length (d_name (dentries v dentry))) < 0 then Some (Inl ENAMETOOLONG)
            else Some (Inr (d_name (dentries v dentry) @ tl r)))
         else d_path_loop v root rootmnt (mnt_mountpoint (mounts v vfsmnt)) (mnt_parent (mounts v vfsmnt))
                buflen e r)
      else
        (if buflen - (int (length (d_name (dentries v dentry))) + 1) < 0 then Some (Inl ENAMETOOLONG)
         else d_path_loop v root rootmnt (d_parent (dentries v dentry)) vfsmnt
                (buflen - (int (length (d_name (dentries v dentry))) + 1))
                (''/'' @ d_name (dentries v dentry) @ e) (''/'' @ d_name (dentries v dentry) @ e)))"

definition uu_d_path :: "vfs \<Rightarrow> nat \<Rightarrow> nat \<Rightarrow> nat \<Rightarrow> nat \<Rightarrow> int \<Rightarrow> (errno + string) option" where
  "uu_d_path v dentry vfsmnt root rootmnt buflen =
     (let buflen1 = buflen - 1;
          deleted = (\<not> IS_ROOT v dentry \<and> d_unhashed (dentries v dentry));
          buflen2 = (if deleted then buflen1 - 10 else buflen1);
          e = (if deleted then '' (deleted)'' else '''')
      in if deleted \<and> buflen2 < 0 then Some (Inl ENAMETOOLONG)
         else if buflen2 < 1 then Some (Inl ENAMETOOLONG)
         else d_path_loop v root rootmnt dentry vfsmnt buflen2 e (''/'' @ e))"

text \<open>\<open>d_path\<close> is relative to the root directory of the calling process.\<close>

definition d_path :: "vfs \<Rightarrow> nat \<Rightarrow> nat \<Rightarrow> nat \<Rightarrow> nat \<Rightarrow> int \<Rightarrow> (errno + string) option" where
  "d_path v fs_root fs_rootmnt dentry vfsmnt buflen = uu_d_path v dentry vfsmnt fs_root fs_rootmnt buflen"

text \<open>\<open>abs_d_path\<close> is relative to the root directory of \<open>init_task\<close>.\<close>

definition abs_d_path :: "vfs \<Rightarrow> nat \<Rightarrow> nat \<Rightarrow> nat \<Rightarrow> nat \<Rightarrow> int \<Rightarrow> (errno + string) option" where
  "abs_d_path v init_root init_rootmnt dentry vfsmnt buflen =
     (if dentry = init_root \<and> vfsmnt = init_rootmnt then Some (Inr ''/'')
      else uu_d_path v dentry vfsmnt init_root init_rootmnt buflen)"

section \<open>Lemmas\<close>

lemma sint_diff_zero: "sint (a - b :: u8) = 0 \<longleftrightarrow> a = b"
  by (metis eq_iff_diff_eq_0 signed_0 signed_eq_0_iff)

lemma sint_zero: "sint (a :: u8) = 0 \<longleftrightarrow> a = 0" and sint_minus_zero: "sint (- a :: u8) = 0 \<longleftrightarrow> a = 0"
  using sint_diff_zero [of a 0] sint_diff_zero [of 0 a] by auto

lemma of_char_inj: "(of_char c :: u8) = of_char d \<longleftrightarrow> c = d"
proof -
  have "unat (of_char x :: u8) = of_char x" for x
  proof -
    have "unat (of_nat (of_char x) :: u8) = of_char x mod 2 ^ LENGTH(8)" by (rule unat_of_nat)
    moreover have "(of_nat (of_char x) :: u8) = of_char x" by (cases x) simp
    ultimately show ?thesis using nat_of_char_less_256 [of x] by simp
  qed
  then show ?thesis by (metis of_char_eq_iff)
qed

lemma of_char_zero: "(of_char c :: u8) = 0 \<longleftrightarrow> c = CHR 0x00"
  using of_char_inj [of c "CHR 0x00"] by simp

text \<open>A C string: no NUL inside.\<close>

definition cstring :: "string \<Rightarrow> bool" where
  "cstring s \<longleftrightarrow> CHR 0x00 \<notin> set s"

lemma cstring_simps [simp]: "cstring []" "cstring (c # s) \<longleftrightarrow> c \<noteq> CHR 0x00 \<and> cstring s"
  "cstring (a @ b) \<longleftrightarrow> cstring a \<and> cstring b"
  by (auto simp: cstring_def)

lemma hd0_simps [simp]: "hd0 [] = 0" "hd0 (c # s) = of_char c"
  by (simp_all add: hd0_def)

lemma strcmp_eq: "cstring a \<Longrightarrow> cstring b \<Longrightarrow> strcmp a b = 0 \<longleftrightarrow> a = b"
proof (induction a b rule: strcmp.induct)
  case (1 a b)
  show ?case
  proof (cases a)
    case Nil
    then show ?thesis using 1(2,3)
      by (subst strcmp.simps, cases b) (simp_all add: Let_def sint_minus_zero of_char_zero)
  next
    case (Cons c a')
    then show ?thesis using 1
      by (subst strcmp.simps, cases b)
        (simp_all add: Let_def sint_diff_zero sint_zero of_char_inj of_char_zero)
  qed
qed

lemma strncmp_prefix:
  "cstring a \<Longrightarrow> cstring b \<Longrightarrow> n \<le> length b \<Longrightarrow> strncmp a b n = 0 \<longleftrightarrow> take n a = take n b"
proof (induction n arbitrary: a b)
  case (Suc n)
  then obtain d b' where b: "b = d # b'" by (cases b) auto
  show ?case
  proof (cases a)
    case Nil
    then show ?thesis using Suc.prems
      by (simp add: b Let_def sint_minus_zero of_char_zero)
  next
    case (Cons c a')
    then show ?thesis using Suc
      by (cases n) (simp_all add: b Let_def sint_diff_zero of_char_inj of_char_zero)
  qed
qed simp

section \<open>What the path functions return\<close>

text \<open>
  The names on the way from a root directory down to an entry, crossing mount points: the
  sequence of components that a path name must spell.
\<close>

inductive path_to :: "vfs \<Rightarrow> nat \<Rightarrow> nat \<Rightarrow> nat \<Rightarrow> nat \<Rightarrow> string list \<Rightarrow> bool" for v root rootmnt where
  root: "path_to v root rootmnt root rootmnt []"
| mount: "\<not> (d = root \<and> m = rootmnt) \<Longrightarrow> d = mnt_root (mounts v m) \<or> IS_ROOT v d \<Longrightarrow>
    mnt_parent (mounts v m) \<noteq> m \<Longrightarrow>
    path_to v root rootmnt (mnt_mountpoint (mounts v m)) (mnt_parent (mounts v m)) comps \<Longrightarrow>
    path_to v root rootmnt d m comps"
| entry: "\<not> (d = root \<and> m = rootmnt) \<Longrightarrow> \<not> (d = mnt_root (mounts v m) \<or> IS_ROOT v d) \<Longrightarrow>
    path_to v root rootmnt (d_parent (dentries v d)) m comps \<Longrightarrow>
    path_to v root rootmnt d m (comps @ [d_name (dentries v d)])"

definition path_text :: "string list \<Rightarrow> string" where
  "path_text comps = concat (map (\<lambda>n. CHR ''/'' # n) comps)"

lemma path_text_simps [simp]: "path_text [] = []" "path_text (comps @ [n]) = path_text comps @ CHR ''/'' # n"
  by (simp_all add: path_text_def)

lemma d_path_loop_path:
  "path_to v root rootmnt d m comps \<Longrightarrow> 0 \<le> buflen \<Longrightarrow>
   d_path_loop v root rootmnt d m buflen e r =
     (if int (length (path_text comps)) \<le> buflen
      then Some (Inr (if comps = [] then r else path_text comps @ e)) else Some (Inl ENAMETOOLONG))"
proof (induction arbitrary: buflen e r rule: path_to.induct)
  case root
  then show ?case by (subst d_path_loop.simps) simp
next
  case (mount d m comps)
  then show ?case by (subst d_path_loop.simps) auto
next
  case (entry d m comps)
  show ?case
  proof (cases "buflen - (int (length (d_name (dentries v d))) + 1) < 0")
    case True
    then show ?thesis using entry.hyps by (subst d_path_loop.simps) auto
  next
    case False
    then show ?thesis using entry.hyps entry.IH [OF False [unfolded not_less]]
      by (subst d_path_loop.simps) auto
  qed
qed

lemma uu_d_path_path:
  assumes "path_to v root rootmnt d m comps" "IS_ROOT v d \<or> \<not> d_unhashed (dentries v d)" "1 < buflen"
  shows "uu_d_path v d m root rootmnt buflen =
     (if int (length (path_text comps)) < buflen
      then Some (Inr (if comps = [] then ''/'' else path_text comps)) else Some (Inl ENAMETOOLONG))"
  using assms d_path_loop_path [OF assms(1), of "buflen - 1" "[]" "''/''"]
  by (auto simp: uu_d_path_def)

lemma d_path_path:
  assumes "path_to v root rootmnt d m comps" "IS_ROOT v d \<or> \<not> d_unhashed (dentries v d)" "1 < buflen"
  shows "d_path v root rootmnt d m buflen =
      (if int (length (path_text comps)) < buflen
       then Some (Inr (if comps = [] then ''/'' else path_text comps)) else Some (Inl ENAMETOOLONG)) \<and>
    abs_d_path v root rootmnt d m buflen = d_path v root rootmnt d m buflen"
proof -
  have "comps = []" if "d = root" "m = rootmnt" using assms(1) that by cases auto
  then show ?thesis
    using uu_d_path_path [OF assms] assms(3) by (auto simp: d_path_def abs_d_path_def)
qed

text \<open>
  C38. For a directory entry that is still linked below a root directory, \<open>d_path\<close> and
  \<open>abs_d_path\<close> return: they yield the names on the way from that root, each after a slash,
  when these and the terminating NUL fit the buffer, and \<open>ENAMETOOLONG\<close> otherwise.
\<close>

theorem d_path_correct:
  assumes "path_to v root rootmnt d m comps" "IS_ROOT v d \<or> \<not> d_unhashed (dentries v d)" "1 < buflen"
  shows "d_path v root rootmnt d m buflen =
      (if int (length (path_text comps)) < buflen
       then Some (Inr (if comps = [] then ''/'' else path_text comps)) else Some (Inl ENAMETOOLONG)) \<and>
    abs_d_path v root rootmnt d m buflen = d_path v root rootmnt d m buflen"
  using d_path_path [OF assms] .

section \<open>Example\<close>

text \<open>A tree with \<open>/bin/tcmd\<close>: entries 0 (root), 1 (\<open>bin\<close>) and 2 (\<open>tcmd\<close>) on mount 0.\<close>

definition sample_vfs :: vfs where
  "sample_vfs = \<lparr>dentries = (\<lambda>d. if d = 2 then \<lparr>d_parent = 1, d_name = ''tcmd'', d_unhashed = False, d_sb_dev = Some 7\<rparr>
       else if d = 1 then \<lparr>d_parent = 0, d_name = ''bin'', d_unhashed = False, d_sb_dev = Some 7\<rparr>
       else \<lparr>d_parent = 0, d_name = ''/'', d_unhashed = False, d_sb_dev = Some 7\<rparr>),
     mounts = (\<lambda>m. \<lparr>mnt_root = 0, mnt_parent = 0, mnt_mountpoint = 0\<rparr>)\<rparr>"

lemma sample_path: "path_to sample_vfs 0 0 2 0 [''bin'', ''tcmd'']"
proof -
  have "path_to sample_vfs 0 0 0 0 []" by (rule path_to.root)
  then have "path_to sample_vfs 0 0 1 0 ([] @ [''bin''])"
    using path_to.entry [of 1 0 0 0 sample_vfs "[]"] by (simp add: sample_vfs_def IS_ROOT_def)
  then show ?thesis
    using path_to.entry [of 2 0 0 0 sample_vfs "[''bin'']"] by (simp add: sample_vfs_def IS_ROOT_def)
qed

theorem d_path_correct_witness:
  "d_path sample_vfs 0 0 2 0 23 = Some (Inr ''/bin/tcmd'') \<and> abs_d_path sample_vfs 0 0 2 0 9 = Some (Inl ENAMETOOLONG)"
  using d_path_correct [OF sample_path, of 23] d_path_correct [OF sample_path, of 9]
  by (simp add: sample_vfs_def path_text_def)

end
