(* ===== verification/MotSecurity.thy ===== *)
theory MotSecurity
  imports Creds Dpath
begin

text \<open>
  Motorola's security module, \<open>security/motsecurity.c\<close>, with the configuration options
  \<open>SECURE_CLOCK\<close>, \<open>SECURE_DRM\<close> and \<open>SECURE_MOUNT\<close> set as in \<open>motorola_ljap_defconfig\<close>: the table of protected files and the hooks that guard them, and
  the capability and domain that \<open>execve\<close> gives to listed programs, with the credential part
  of \<open>fs/exec.c\<close> around it. The list of allowed mounts is in theory \<open>MotMounts\<close>.

  A hook yields \<open>None\<close> where it dereferences a bad pointer or does not return, and otherwise
  an error or success.
\<close>

section \<open>Protected files\<close>

definition JANUS_DRM_WRITE :: u32 where "JANUS_DRM_WRITE = 0x1"
definition JANUS_DRM_READ :: u32 where "JANUS_DRM_READ = 0x2"
definition JANUS_DRM_RW :: u32 where "JANUS_DRM_RW = JANUS_DRM_WRITE OR JANUS_DRM_READ"
definition SECURE_CLOCK_READ :: u32 where "SECURE_CLOCK_READ = 0x4"
definition SECURE_CLOCK_WRITE :: u32 where "SECURE_CLOCK_WRITE = 0x8"
definition SECURE_CLOCK_RW :: u32 where "SECURE_CLOCK_RW = SECURE_CLOCK_WRITE OR SECURE_CLOCK_READ"
definition OMA2_DRM_READ :: u32 where "OMA2_DRM_READ = 0x10"
definition OMA2_DRM_WRITE :: u32 where "OMA2_DRM_WRITE = 0x20"
definition OMA2_DRM_RW :: u32 where "OMA2_DRM_RW = OMA2_DRM_WRITE OR OMA2_DRM_READ"
definition USER_APPS_AUTH_READ :: u32 where "USER_APPS_AUTH_READ = 0x40"
definition USER_APPS_AUTH_WRITE :: u32 where "USER_APPS_AUTH_WRITE = 0x80"
definition USER_APPS_AUTH_RW :: u32 where "USER_APPS_AUTH_RW = USER_APPS_AUTH_READ OR USER_APPS_AUTH_WRITE"

definition DRM_WRITE :: u32 where
  "DRM_WRITE = JANUS_DRM_WRITE OR SECURE_CLOCK_WRITE OR OMA2_DRM_WRITE OR USER_APPS_AUTH_WRITE"

definition DRM_READ :: u32 where
  "DRM_READ = JANUS_DRM_READ OR SECURE_CLOCK_READ OR OMA2_DRM_READ OR USER_APPS_AUTH_READ"

record mot_file_perms =
  filepath :: string
  domain :: u32

record mot_dir_perms =
  perms :: mot_file_perms
  files :: "mot_file_perms list"

definition etc_janus_files :: "mot_file_perms list" where
  "etc_janus_files =
    [\<lparr>filepath = ''/etc/pds/janus/hashsdidmap.dat'', domain = JANUS_DRM_RW\<rparr>,
     \<lparr>filepath = ''/etc/pds/janus/hashsdidmap.bak'', domain = JANUS_DRM_RW\<rparr>]"

definition etc_security_files :: "mot_file_perms list" where
  "etc_security_files =
    [\<lparr>filepath = ''/etc/pds/security/ivtcounter.dat'', domain = JANUS_DRM_RW OR OMA2_DRM_RW OR SECURE_CLOCK_RW OR USER_APPS_AUTH_RW\<rparr>,
     \<lparr>filepath = ''/etc/pds/security/ivtcounter.bak'', domain = JANUS_DRM_RW OR OMA2_DRM_RW OR SECURE_CLOCK_RW OR USER_APPS_AUTH_RW\<rparr>,
     \<lparr>filepath = ''/etc/pds/security/ivtkey.dat'', domain = JANUS_DRM_RW OR OMA2_DRM_RW OR SECURE_CLOCK_RW OR USER_APPS_AUTH_RW\<rparr>,
     \<lparr>filepath = ''/etc/pds/security/ivtkey.bak'', domain = JANUS_DRM_RW OR OMA2_DRM_RW OR SECURE_CLOCK_RW OR USER_APPS_AUTH_RW\<rparr>,
     \<lparr>filepath = ''/etc/pds/security/keyring.dat'', domain = JANUS_DRM_RW OR OMA2_DRM_RW\<rparr>,
     \<lparr>filepath = ''/etc/pds/security/keyring.bak'', domain = JANUS_DRM_RW OR OMA2_DRM_RW\<rparr>,
     \<lparr>filepath = ''/etc/pds/security/keymaptable.dat'', domain = JANUS_DRM_RW OR OMA2_DRM_RW\<rparr>,
     \<lparr>filepath = ''/etc/pds/security/keymaptable.bak'', domain = JANUS_DRM_RW OR OMA2_DRM_RW\<rparr>,
     \<lparr>filepath = ''/etc/pds/security/janusCertTemplate.dat'', domain = JANUS_DRM_RW\<rparr>,
     \<lparr>filepath = ''/etc/pds/security/janusCertTemplate.bak'', domain = JANUS_DRM_RW\<rparr>,
     \<lparr>filepath = ''/etc/pds/security/janusDeviceCert.dat'', domain = JANUS_DRM_RW\<rparr>,
     \<lparr>filepath = ''/etc/pds/security/janusDeviceCert.bak'', domain = JANUS_DRM_RW\<rparr>,
     \<lparr>filepath = ''/etc/pds/security/ivt.dat'', domain = JANUS_DRM_RW OR OMA2_DRM_RW OR SECURE_CLOCK_RW OR USER_APPS_AUTH_RW\<rparr>,
     \<lparr>filepath = ''/etc/pds/security/ivt.bak'', domain = JANUS_DRM_RW OR OMA2_DRM_RW OR SECURE_CLOCK_RW OR USER_APPS_AUTH_RW\<rparr>,
     \<lparr>filepath = ''/etc/pds/security/omaDRMmotorola.dat'', domain = OMA2_DRM_RW\<rparr>,
     \<lparr>filepath = ''/etc/pds/security/omaDRMmotorola.bak'', domain = OMA2_DRM_RW\<rparr>,
     \<lparr>filepath = ''/etc/pds/security/omaDRMcmla.dat'', domain = OMA2_DRM_RW\<rparr>,
     \<lparr>filepath = ''/etc/pds/security/omaDRMcmla.bak'', domain = OMA2_DRM_RW\<rparr>,
     \<lparr>filepath = ''/etc/pds/security/omaDRMfrancetelecom.dat'', domain = OMA2_DRM_RW\<rparr>,
     \<lparr>filepath = ''/etc/pds/security/omaDRMfrancetelecom.bak'', domain = OMA2_DRM_RW\<rparr>,
     \<lparr>filepath = ''/etc/pds/security/ivtpdsFScounter.dat'', domain = JANUS_DRM_RW OR OMA2_DRM_RW OR SECURE_CLOCK_RW OR USER_APPS_AUTH_RW\<rparr>,
     \<lparr>filepath = ''/etc/pds/security/ivtpdsFScounter.bak'', domain = JANUS_DRM_RW OR OMA2_DRM_RW OR SECURE_CLOCK_RW OR USER_APPS_AUTH_RW\<rparr>]"

definition ezxlocal_tpa_files :: "mot_file_perms list" where
  "ezxlocal_tpa_files =
    [\<lparr>filepath = ''/ezxlocal/etc/tpa'', domain = JANUS_DRM_RW OR OMA2_DRM_RW OR SECURE_CLOCK_RW OR USER_APPS_AUTH_RW\<rparr>,
     \<lparr>filepath = ''/ezxlocal/etc/tpa/bctr.dat'', domain = JANUS_DRM_RW OR OMA2_DRM_RW OR SECURE_CLOCK_RW OR USER_APPS_AUTH_RW\<rparr>,
     \<lparr>filepath = ''/ezxlocal/etc/tpa/ivt.dat'', domain = JANUS_DRM_RW OR OMA2_DRM_RW OR SECURE_CLOCK_RW OR USER_APPS_AUTH_RW\<rparr>,
     \<lparr>filepath = ''/ezxlocal/etc/tpa/ivt.temp'', domain = JANUS_DRM_RW OR OMA2_DRM_RW OR SECURE_CLOCK_RW OR USER_APPS_AUTH_RW\<rparr>,
     \<lparr>filepath = ''/ezxlocal/etc/tpa/ivt.lock'', domain = JANUS_DRM_RW OR OMA2_DRM_RW OR SECURE_CLOCK_RW OR USER_APPS_AUTH_RW\<rparr>,
     \<lparr>filepath = ''/ezxlocal/etc/tpa/keymgr.lock'', domain = JANUS_DRM_RW OR OMA2_DRM_RW OR USER_APPS_AUTH_RW\<rparr>,
     \<lparr>filepath = ''/ezxlocal/etc/tpa/tpa.log'', domain = JANUS_DRM_RW OR SECURE_CLOCK_RW OR OMA2_DRM_RW\<rparr>,
     \<lparr>filepath = ''/ezxlocal/etc/tpa/persistent'', domain = JANUS_DRM_WRITE OR SECURE_CLOCK_WRITE OR OMA2_DRM_WRITE OR USER_APPS_AUTH_WRITE\<rparr>,
     \<lparr>filepath = ''/ezxlocal/etc/tpa/persistent/ivtcounter.lock'', domain = JANUS_DRM_RW OR OMA2_DRM_RW OR SECURE_CLOCK_RW OR USER_APPS_AUTH_RW\<rparr>,
     \<lparr>filepath = ''/ezxlocal/etc/tpa/persistent/ivtkey.lock'', domain = JANUS_DRM_RW OR OMA2_DRM_RW OR SECURE_CLOCK_RW OR USER_APPS_AUTH_RW\<rparr>,
     \<lparr>filepath = ''/ezxlocal/etc/tpa/persistent/janusTimeStamp.dat'', domain = JANUS_DRM_RW\<rparr>,
     \<lparr>filepath = ''/ezxlocal/etc/tpa/persistent/janusTimeStamp.bak'', domain = JANUS_DRM_RW\<rparr>,
     \<lparr>filepath = ''/ezxlocal/etc/tpa/persistent/simPinStore.dat'', domain = JANUS_DRM_RW\<rparr>,
     \<lparr>filepath = ''/ezxlocal/etc/tpa/persistent/simPinStore.bak'', domain = JANUS_DRM_RW\<rparr>,
     \<lparr>filepath = ''/ezxlocal/etc/tpa/persistent/keyring.lock'', domain = JANUS_DRM_RW OR OMA2_DRM_RW\<rparr>,
     \<lparr>filepath = ''/ezxlocal/etc/tpa/persistent/keymaptable.lock'', domain = JANUS_DRM_RW OR OMA2_DRM_RW\<rparr>,
     \<lparr>filepath = ''/ezxlocal/etc/tpa/persistent/janusCertTemplate.lock'', domain = JANUS_DRM_RW\<rparr>,
     \<lparr>filepath = ''/ezxlocal/etc/tpa/persistent/janusDeviceCert.lock'', domain = JANUS_DRM_RW\<rparr>,
     \<lparr>filepath = ''/ezxlocal/etc/tpa/persistent/janusTimeStamp.lock'', domain = JANUS_DRM_RW\<rparr>,
     \<lparr>filepath = ''/ezxlocal/etc/tpa/persistent/simPinStore.lock'', domain = JANUS_DRM_RW\<rparr>,
     \<lparr>filepath = ''/ezxlocal/etc/tpa/persistent/ivt.lock'', domain = JANUS_DRM_RW OR OMA2_DRM_RW OR SECURE_CLOCK_RW OR USER_APPS_AUTH_RW\<rparr>,
     \<lparr>filepath = ''/ezxlocal/etc/tpa/persistent/secclkJanusOffset.dat'', domain = SECURE_CLOCK_RW\<rparr>,
     \<lparr>filepath = ''/ezxlocal/etc/tpa/persistent/secclkNitzOffset.dat'', domain = SECURE_CLOCK_RW\<rparr>,
     \<lparr>filepath = ''/ezxlocal/etc/tpa/persistent/secclkAlarm.dat'', domain = SECURE_CLOCK_RW\<rparr>,
     \<lparr>filepath = ''/ezxlocal/etc/tpa/persistent/secclkDrift.dat'', domain = SECURE_CLOCK_RW\<rparr>,
     \<lparr>filepath = ''/ezxlocal/etc/tpa/persistent/secclkLastRtcVal.dat'', domain = SECURE_CLOCK_RW\<rparr>,
     \<lparr>filepath = ''/ezxlocal/etc/tpa/persistent/secclkOMA2DRMOffset.dat'', domain = SECURE_CLOCK_RW\<rparr>,
     \<lparr>filepath = ''/ezxlocal/etc/tpa/persistent/secclkUserOffset.dat'', domain = SECURE_CLOCK_RW\<rparr>,
     \<lparr>filepath = ''/ezxlocal/etc/tpa/persistent/secclkJanusOffset.lock'', domain = SECURE_CLOCK_RW\<rparr>,
     \<lparr>filepath = ''/ezxlocal/etc/tpa/persistent/secclkNitzOffset.lock'', domain = SECURE_CLOCK_RW\<rparr>,
     \<lparr>filepath = ''/ezxlocal/etc/tpa/persistent/secclkAlarm.lock'', domain = SECURE_CLOCK_RW\<rparr>,
     \<lparr>filepath = ''/ezxlocal/etc/tpa/persistent/secclkDrift.lock'', domain = SECURE_CLOCK_RW\<rparr>,
     \<lparr>filepath = ''/ezxlocal/etc/tpa/persistent/secclkLastRtcVal.lock'', domain = SECURE_CLOCK_RW\<rparr>,
     \<lparr>filepath = ''/ezxlocal/etc/tpa/persistent/secclkOMA2DRMOffset.lock'', domain = SECURE_CLOCK_RW\<rparr>,
     \<lparr>filepath = ''/ezxlocal/etc/tpa/persistent/secclkUserOffset.lock'', domain = SECURE_CLOCK_RW\<rparr>,
     \<lparr>filepath = ''/ezxlocal/etc/tpa/persistent/secclkJanusOffset.bak'', domain = SECURE_CLOCK_RW\<rparr>,
     \<lparr>filepath = ''/ezxlocal/etc/tpa/persistent/secclkNitzOffset.bak'', domain = SECURE_CLOCK_RW\<rparr>,
     \<lparr>filepath = ''/ezxlocal/etc/tpa/persistent/secclkAlarm.bak'', domain = SECURE_CLOCK_RW\<rparr>,
     \<lparr>filepath = ''/ezxlocal/etc/tpa/persistent/secclkDrift.bak'', domain = SECURE_CLOCK_RW\<rparr>,
     \<lparr>filepath = ''/ezxlocal/etc/tpa/persistent/secclkLastRtcVal.bak'', domain = SECURE_CLOCK_RW\<rparr>,
     \<lparr>filepath = ''/ezxlocal/etc/tpa/persistent/secclkOMA2DRMOffset.bak'', domain = SECURE_CLOCK_RW\<rparr>,
     \<lparr>filepath = ''/ezxlocal/etc/tpa/persistent/secclkUserOffset.bak'', domain = SECURE_CLOCK_RW\<rparr>,
     \<lparr>filepath = ''/ezxlocal/etc/tpa/persistent/omaDRMmotorola.lock'', domain = OMA2_DRM_RW\<rparr>,
     \<lparr>filepath = ''/ezxlocal/etc/tpa/persistent/omaDRMcmla.lock'', domain = OMA2_DRM_RW\<rparr>,
     \<lparr>filepath = ''/ezxlocal/etc/tpa/persistent/omaDRMfrancetelecom.lock'', domain = OMA2_DRM_RW\<rparr>]"

definition ezxlocal_oma2_files :: "mot_file_perms list" where
  "ezxlocal_oma2_files =
    [\<lparr>filepath = ''/ezxlocal/download/appwrite/drm/oadb/data/AssetRO'', domain = OMA2_DRM_RW\<rparr>,
     \<lparr>filepath = ''/ezxlocal/download/appwrite/drm/oadb/data/BlackList'', domain = OMA2_DRM_RW\<rparr>,
     \<lparr>filepath = ''/ezxlocal/download/appwrite/drm/oadb/data/ConsentWhiteList'', domain = OMA2_DRM_RW\<rparr>,
     \<lparr>filepath = ''/ezxlocal/download/appwrite/drm/oadb/data/DCFMetadata'', domain = OMA2_DRM_RW\<rparr>,
     \<lparr>filepath = ''/ezxlocal/download/appwrite/drm/oadb/data/DomainContext'', domain = OMA2_DRM_RW\<rparr>,
     \<lparr>filepath = ''/ezxlocal/download/appwrite/drm/oadb/data/DomainRO'', domain = OMA2_DRM_RW\<rparr>,
     \<lparr>filepath = ''/ezxlocal/download/appwrite/drm/oadb/data/OCSPResponder'', domain = OMA2_DRM_RW\<rparr>,
     \<lparr>filepath = ''/ezxlocal/download/appwrite/drm/oadb/data/RICertificate'', domain = OMA2_DRM_RW\<rparr>,
     \<lparr>filepath = ''/ezxlocal/download/appwrite/drm/oadb/data/RIContext'', domain = OMA2_DRM_RW\<rparr>,
     \<lparr>filepath = ''/ezxlocal/download/appwrite/drm/oadb/data/RIRO'', domain = OMA2_DRM_RW\<rparr>,
     \<lparr>filepath = ''/ezxlocal/download/appwrite/drm/oadb/data/Replay'', domain = OMA2_DRM_RW\<rparr>,
     \<lparr>filepath = ''/ezxlocal/download/appwrite/drm/oadb/data/ReplayInfo'', domain = OMA2_DRM_RW\<rparr>,
     \<lparr>filepath = ''/ezxlocal/download/appwrite/drm/oadb/data/ReplayNoTimestamp'', domain = OMA2_DRM_RW\<rparr>,
     \<lparr>filepath = ''/ezxlocal/download/appwrite/drm/oadb/data/ReplaySort'', domain = OMA2_DRM_RW\<rparr>,
     \<lparr>filepath = ''/ezxlocal/download/appwrite/drm/oadb/data/RiDomain'', domain = OMA2_DRM_RW\<rparr>,
     \<lparr>filepath = ''/ezxlocal/download/appwrite/drm/oadb/data/RightsObject'', domain = OMA2_DRM_RW\<rparr>,
     \<lparr>filepath = ''/ezxlocal/download/appwrite/drm/oadb/data/RightsObjectXML'', domain = OMA2_DRM_RW\<rparr>,
     \<lparr>filepath = ''/ezxlocal/download/appwrite/drm/oadb/data/TrustAnchor'', domain = OMA2_DRM_RW\<rparr>,
     \<lparr>filepath = ''/ezxlocal/download/appwrite/drm/oadb/data/WhiteList'', domain = OMA2_DRM_RW\<rparr>]"

definition protected_dirs :: "mot_dir_perms list" where
  "protected_dirs =
    [\<lparr>perms = \<lparr>filepath = ''/etc/pds/janus'', domain = JANUS_DRM_WRITE\<rparr>, files = etc_janus_files\<rparr>,
     \<lparr>perms = \<lparr>filepath = ''/etc/pds/security'',
        domain = JANUS_DRM_WRITE OR SECURE_CLOCK_WRITE OR OMA2_DRM_WRITE OR USER_APPS_AUTH_WRITE\<rparr>,
      files = etc_security_files\<rparr>,
     \<lparr>perms = \<lparr>filepath = ''/ezxlocal/etc'',
        domain = JANUS_DRM_WRITE OR SECURE_CLOCK_WRITE OR OMA2_DRM_WRITE OR USER_APPS_AUTH_WRITE\<rparr>,
      files = ezxlocal_tpa_files\<rparr>,
     \<lparr>perms = \<lparr>filepath = ''/ezxlocal/download/appwrite/drm/oadb/data'', domain = OMA2_DRM_WRITE\<rparr>,
      files = ezxlocal_oma2_files\<rparr>]"

text \<open>
  What the hooks read of the rest of the kernel: the directory tree, the root directories of
  \<open>init_task\<close> and of the caller, the device of the root file system, the mount of each
  superblock, and whether a page can be allocated.
\<close>

record env =
  e_vfs :: vfs
  e_init_root :: nat
  e_init_rootmnt :: nat
  e_fs_root :: nat
  e_fs_rootmnt :: nat
  ROOT_DEV :: u32
  s_vfsmount :: "u32 \<Rightarrow> nat option"
  free_page :: bool

definition PAGE_SIZE :: int where "PAGE_SIZE = 4096"

definition on_rootfs :: "env \<Rightarrow> nat \<Rightarrow> bool" where
  "on_rootfs env dentry \<longleftrightarrow>
     (case d_sb_dev (dentries (e_vfs env) dentry) of None \<Rightarrow> True | Some dev \<Rightarrow> dev = ROOT_DEV env)"

definition env_abs_d_path :: "env \<Rightarrow> nat \<Rightarrow> nat \<Rightarrow> (errno + string) option" where
  "env_abs_d_path env dentry mnt =
     abs_d_path (e_vfs env) (e_init_root env) (e_init_rootmnt env) dentry mnt PAGE_SIZE"

fun search_files :: "string \<Rightarrow> mot_file_perms list \<Rightarrow> mot_file_perms option" where
  "search_files path [] = None"
| "search_files path (f # fs) = (if strcmp path (filepath f) = 0 then Some f else search_files path fs)"

fun search_dirs :: "string \<Rightarrow> mot_dir_perms list \<Rightarrow> mot_file_perms option" where
  "search_dirs path [] = None"
| "search_dirs path (d # ds) =
     (let dirname = filepath (perms d) in
      if strncmp path dirname (length dirname) = 0 then
        if strcmp path dirname = 0 then Some (perms d)
        else (case search_files path (files d) of Some f \<Rightarrow> Some f | None \<Rightarrow> search_dirs path ds)
      else search_dirs path ds)"

definition protected_file_info :: "env \<Rightarrow> nat \<Rightarrow> nat option \<Rightarrow> (errno + mot_file_perms option) option" where
  "protected_file_info env dentry rootmnt =
     (case rootmnt of
        None \<Rightarrow> Some (Inr None)
      | Some mnt \<Rightarrow>
          if \<not> free_page env then Some (Inl ENOMEM)
          else (case env_abs_d_path env dentry mnt of
                  None \<Rightarrow> None
                | Some (Inl e) \<Rightarrow> Some (Inl e)
                | Some (Inr path) \<Rightarrow> Some (Inr (search_dirs path protected_dirs))))"

text \<open>The info of an entry through the mount of its superblock: NULL superblocks oops.\<close>

definition dentry_info :: "env \<Rightarrow> nat \<Rightarrow> (errno + mot_file_perms option) option" where
  "dentry_info env dentry =
     (case d_sb_dev (dentries (e_vfs env) dentry) of
        None \<Rightarrow> None
      | Some dev \<Rightarrow> protected_file_info env dentry (s_vfsmount env dev))"

section \<open>The hooks on inodes\<close>

definition MAY_WRITE :: u32 where "MAY_WRITE = 2"
definition MAY_READ :: u32 where "MAY_READ = 4"

definition denied :: "u32 \<Rightarrow> u32 \<Rightarrow> u32 \<Rightarrow> bool" where
  "denied d sec m \<longleftrightarrow> d AND m \<noteq> 0 \<and> (d AND sec) AND m = 0"

type_synonym hook = "(errno + unit) option"

definition mot_security_inode_permission ::
    "env \<Rightarrow> u32 \<Rightarrow> (nat option \<times> nat option) option \<Rightarrow> cred \<Rightarrow> hook" where
  "mot_security_inode_permission env access nd t =
     (case nd of
        Some (Some dentry, Some mnt) \<Rightarrow>
          (case protected_file_info env dentry (Some mnt) of
             None \<Rightarrow> None
           | Some (Inl e) \<Rightarrow> Some (Inl e)
           | Some (Inr None) \<Rightarrow> Some (Inr ())
           | Some (Inr (Some fp)) \<Rightarrow>
               if access AND MAY_WRITE \<noteq> 0 \<and> denied (domain fp) (c_security t) DRM_WRITE then Some (Inl EPERM)
               else if access AND MAY_READ \<noteq> 0 \<and> denied (domain fp) (c_security t) DRM_READ then Some (Inl EPERM)
               else Some (Inr ()))
      | _ \<Rightarrow> Some (Inr ()))"

definition mot_security_inode_link :: "env \<Rightarrow> nat \<Rightarrow> nat \<Rightarrow> hook" where
  "mot_security_inode_link env old_dentry new_dentry =
     (case (dentry_info env old_dentry, dentry_info env new_dentry) of
        (Some fp1, Some fp2) \<Rightarrow>
          (case fp1 of Inl e \<Rightarrow> Some (Inl e)
           | Inr f1 \<Rightarrow> (case fp2 of Inl e \<Rightarrow> Some (Inl e)
               | Inr f2 \<Rightarrow> if f1 \<noteq> None \<or> f2 \<noteq> None then Some (Inl EPERM) else Some (Inr ())))
      | _ \<Rightarrow> None)"

definition mot_security_inode_create :: "env \<Rightarrow> nat \<Rightarrow> cred \<Rightarrow> hook" where
  "mot_security_inode_create env dentry t =
     (case dentry_info env dentry of
        None \<Rightarrow> None
      | Some (Inl e) \<Rightarrow> Some (Inl e)
      | Some (Inr None) \<Rightarrow> Some (Inr ())
      | Some (Inr (Some fp)) \<Rightarrow>
          if denied (domain fp) (c_security t) DRM_WRITE then Some (Inl EPERM) else Some (Inr ()))"

definition mot_security_inode_symlink :: "env \<Rightarrow> nat \<Rightarrow> cred \<Rightarrow> hook" where
  "mot_security_inode_symlink env dentry t = mot_security_inode_create env dentry t"

definition mot_security_inode_unlink :: "env \<Rightarrow> nat \<Rightarrow> cred \<Rightarrow> hook" where
  "mot_security_inode_unlink env dentry t =
     (case dentry_info env dentry of
        None \<Rightarrow> None
      | Some (Inl e) \<Rightarrow> Some (Inl e)
      | Some (Inr None) \<Rightarrow> Some (Inr ())
      | Some (Inr (Some fp)) \<Rightarrow>
          if denied (domain fp) (c_security t) DRM_WRITE then Some (Inl EPERM) else Some (Inr ()))"

definition mot_security_inode_rename :: "env \<Rightarrow> nat \<Rightarrow> nat \<Rightarrow> cred \<Rightarrow> hook" where
  "mot_security_inode_rename env old_dentry new_dentry t =
     (case (dentry_info env old_dentry, dentry_info env new_dentry) of
        (Some (Inl e), Some _) \<Rightarrow> Some (Inl e)
      | (Some (Inr _), Some (Inl e)) \<Rightarrow> Some (Inl e)
      | (Some (Inr None), Some (Inr None)) \<Rightarrow> Some (Inr ())
      | (Some (Inr (Some _)), Some (Inr None)) \<Rightarrow> Some (Inl EPERM)
      | (Some (Inr None), Some (Inr (Some fp2))) \<Rightarrow>
          if denied (domain fp2) (c_security t) DRM_WRITE then Some (Inl EPERM) else Some (Inr ())
      | (Some (Inr (Some fp1)), Some (Inr (Some fp2))) \<Rightarrow>
          if domain fp2 \<noteq> domain fp1 then Some (Inl EPERM)
          else if denied (domain fp1) (c_security t) DRM_READ then Some (Inl EPERM)
          else if denied (domain fp2) (c_security t) DRM_WRITE then Some (Inl EPERM)
          else Some (Inr ())
      | _ \<Rightarrow> None)"

definition mot_security_inode_mknod :: "env \<Rightarrow> nat \<Rightarrow> cred \<Rightarrow> hook" where
  "mot_security_inode_mknod env dentry t =
     (case dentry_info env dentry of
        None \<Rightarrow> None
      | Some (Inl e) \<Rightarrow> Some (Inl e)
      | Some (Inr None) \<Rightarrow> Some (Inr ())
      | Some (Inr (Some fp)) \<Rightarrow>
          if denied (domain fp) (c_security t) DRM_WRITE then Some (Inl EPERM) else Some (Inr ()))"

text \<open>The hook is compiled only with the option \<open>DRM_COREDUMP\<close>, which the configuration leaves out.\<close>

definition mot_security_coredump :: "cred \<Rightarrow> u32" where
  "mot_security_coredump t = c_security t AND DRM_READ"

section \<open>Execution of programs\<close>

text \<open>
  \<open>secure_clock_paths\<close> are the programs that may set the secure clock, \<open>secure_drm_paths\<close>
  those that get a domain.
\<close>

definition secure_clock_paths :: "string list" where
  "secure_clock_paths = [''/usr/local/bin/secclkd'', ''/bin/tcmd'']"

definition MAXLEN :: nat where "MAXLEN = 23"

definition secure_drm_paths :: "mot_file_perms list" where
  "secure_drm_paths =
    [\<lparr>filepath = ''/bin/modem_services'', domain = JANUS_DRM_RW\<rparr>,
     \<lparr>filepath = ''/usr/local/bin/generate_ivt'', domain = JANUS_DRM_RW OR SECURE_CLOCK_RW\<rparr>,
     \<lparr>filepath = ''/usr/bin/mediaplayer'', domain = JANUS_DRM_RW\<rparr>,
     \<lparr>filepath = ''/usr/SYSqtapp/downloadmanager/downloadmanager'', domain = JANUS_DRM_RW\<rparr>,
     \<lparr>filepath = ''/usr/SYSqtapp/mediaplayer/mediaplayer'', domain = JANUS_DRM_RW\<rparr>,
     \<lparr>filepath = ''/usr/SYSqtapp/mediafinder/mediafinder'', domain = JANUS_DRM_RW\<rparr>,
     \<lparr>filepath = ''/usr/bin/mediafinder'', domain = JANUS_DRM_RW\<rparr>,
     \<lparr>filepath = ''/usr/bin/mfmsp/mfmsp'', domain = JANUS_DRM_RW\<rparr>,
     \<lparr>filepath = ''/usr/SYSqtapp/mystuff/mystuff'', domain = JANUS_DRM_RW\<rparr>,
     \<lparr>filepath = ''/usr/SYSjava/kvm'', domain = JANUS_DRM_RW\<rparr>,
     \<lparr>filepath = ''/usr/SYSqtapp/mtp/mtpmgr'', domain = JANUS_DRM_RW\<rparr>,
     \<lparr>filepath = ''/usr/SYSqtapp/messaging/messaging'', domain = JANUS_DRM_RW\<rparr>,
     \<lparr>filepath = ''/usr/local/bin/secclkd'', domain = SECURE_CLOCK_RW\<rparr>,
     \<lparr>filepath = ''/bin/tcmd'', domain = JANUS_DRM_RW OR SECURE_CLOCK_RW OR OMA2_DRM_RW\<rparr>,
     \<lparr>filepath = ''/usr/SYSqtapp/drmfs/drmfs'', domain = OMA2_DRM_RW\<rparr>,
     \<lparr>filepath = ''/usr/SYSqtapp/drmdaemon/udadaemon'', domain = OMA2_DRM_RW\<rparr>,
     \<lparr>filepath = ''/usr/SYSqtapp/email/email'', domain = USER_APPS_AUTH_RW\<rparr>,
     \<lparr>filepath = ''/usr/SYSqtapp/motosync/motosync'', domain = USER_APPS_AUTH_RW\<rparr>,
     \<lparr>filepath = ''/usr/SYSqtapp/motosync/airsync'', domain = USER_APPS_AUTH_RW\<rparr>,
     \<lparr>filepath = ''/usr/SYSqtapp/provision/as_prov'', domain = USER_APPS_AUTH_RW\<rparr>]"

fun clock_match :: "string \<Rightarrow> string list \<Rightarrow> bool" where
  "clock_match path [] = False"
| "clock_match path (p # ps) =
     (if p = [] then False
      else if strncmp path p (if MAXLEN < length p then MAXLEN else length p) = 0 then True
      else clock_match path ps)"

definition raise_clock :: "binprm \<Rightarrow> cred \<Rightarrow> binprm \<times> cred" where
  "raise_clock b t =
     (b\<lparr>b_effective := cap_raise (b_effective b) CAP_SECURE_CLOCK,
        b_inheritable := cap_raise (b_inheritable b) CAP_SECURE_CLOCK\<rparr>,
      t\<lparr>c_permitted := cap_raise (c_permitted t) CAP_SECURE_CLOCK,
        c_inheritable := cap_raise (c_inheritable t) CAP_SECURE_CLOCK\<rparr>)"

text \<open>
  \<open>mot_security_bprm_set_security\<close>: the program is given by its entry, \<open>None\<close> where
  \<open>f_dentry\<close> is NULL, and its mount. It yields the error, if any, the new \<open>binprm\<close> and the new
  credentials of the caller.
\<close>

definition set_clock :: "env \<Rightarrow> nat option \<Rightarrow> nat \<Rightarrow> binprm \<Rightarrow> cred \<Rightarrow> (binprm \<times> cred) option" where
  "set_clock env f_dentry f_vfsmnt b t =
     (case f_dentry of
        None \<Rightarrow> Some (b, t)
      | Some d \<Rightarrow>
          if on_rootfs env d then
            (case d_path (e_vfs env) (e_fs_root env) (e_fs_rootmnt env) d f_vfsmnt (int MAXLEN) of
               None \<Rightarrow> None
             | Some (Inl _) \<Rightarrow> Some (b, t)
             | Some (Inr path) \<Rightarrow>
                 if clock_match path secure_clock_paths then Some (raise_clock b t) else Some (b, t))
          else Some (b, t))"

definition set_drm :: "env \<Rightarrow> nat option \<Rightarrow> nat \<Rightarrow> binprm \<Rightarrow> (errno option \<times> binprm) option" where
  "set_drm env f_dentry f_vfsmnt b =
     (let b1 = b\<lparr>b_security := 0\<rparr> in
      case f_dentry of
        None \<Rightarrow> Some (None, b1)
      | Some d \<Rightarrow>
          if on_rootfs env d then
            (if \<not> free_page env then Some (Some ENOMEM, b1)
             else (case env_abs_d_path env d f_vfsmnt of
                     None \<Rightarrow> None
                   | Some (Inl _) \<Rightarrow> Some (None, b1)
                   | Some (Inr path) \<Rightarrow>
                       (case List.find (\<lambda>f. strcmp (filepath f) path = 0) secure_drm_paths of
                          None \<Rightarrow> Some (None, b1)
                        | Some f \<Rightarrow> Some (None, b1\<lparr>b_security := domain f\<rparr>))))
          else Some (None, b1))"

definition mot_security_bprm_set_security ::
    "env \<Rightarrow> nat option \<Rightarrow> nat \<Rightarrow> binprm \<Rightarrow> cred \<Rightarrow> (errno option \<times> binprm \<times> cred) option" where
  "mot_security_bprm_set_security env f_dentry f_vfsmnt b t =
     (case set_clock env f_dentry f_vfsmnt (cap_bprm_set_security t b) t of
        None \<Rightarrow> None
      | Some (b1, t1) \<Rightarrow>
          (case set_drm env f_dentry f_vfsmnt b1 of
             None \<Rightarrow> None
           | Some (r, b2) \<Rightarrow> Some (r, b2, t1)))"

definition mot_security_bprm_apply_creds :: "kernel_cap_t \<Rightarrow> binprm \<Rightarrow> u32 \<Rightarrow> cred \<Rightarrow> binprm \<times> cred" where
  "mot_security_bprm_apply_creds bset b unsafe t =
     (let (b1, t1) = cap_bprm_apply_creds bset b unsafe t in (b1, t1\<lparr>c_security := b_security b1\<rparr>))"

text \<open>
  The program file: its inode and the facts \<open>fs/exec.c\<close> reads of it; \<open>p_read\<close> is the error
  of \<open>kernel_read\<close>, \<open>p_nodump\<close> whether the file is not readable by the caller or the loader
  enforces no dump.
\<close>

record program =
  p_dentry :: nat
  p_mnt :: nat
  p_mode :: u32
  p_uid :: u32
  p_gid :: u32
  p_f_op :: bool
  p_nosuid :: bool
  p_read :: "errno option"
  p_nodump :: bool

definition S_ISUID :: u32 where "S_ISUID = 0x800"
definition S_ISGID :: u32 where "S_ISGID = 0x400"
definition S_IXGRP :: u32 where "S_IXGRP = 0x8"

text \<open>The user and group of the new program, from its set-uid and set-gid bits.\<close>

definition bprm_fill_ids :: "program \<Rightarrow> binprm \<Rightarrow> cred \<Rightarrow> binprm" where
  "bprm_fill_ids f b t =
     (let b1 = b\<lparr>e_uid := c_euid t, e_gid := c_egid t\<rparr>;
          b2 = (if \<not> p_nosuid f \<and> p_mode f AND S_ISUID \<noteq> 0 then b1\<lparr>e_uid := p_uid f\<rparr> else b1)
      in (if \<not> p_nosuid f \<and> p_mode f AND (S_ISGID OR S_IXGRP) = S_ISGID OR S_IXGRP
          then b2\<lparr>e_gid := p_gid f\<rparr> else b2))"

definition prepare_binprm :: "env \<Rightarrow> program \<Rightarrow> binprm \<Rightarrow> cred \<Rightarrow> (errno option \<times> binprm \<times> cred) option" where
  "prepare_binprm env f b t =
     (if p_mode f AND 0x49 = 0 then Some (Some EACCES, b, t)
      else if \<not> p_f_op f then Some (Some EACCES, b, t)
      else (case mot_security_bprm_set_security env (Some (p_dentry f)) (p_mnt f) (bprm_fill_ids f b t) t of
              None \<Rightarrow> None
            | Some (Some e, b4, t1) \<Rightarrow> Some (Some e, b4, t1)
            | Some (None, b4, t1) \<Rightarrow> Some (p_read f, b4, t1)))"

text \<open>The state that makes an execution unsafe: tracing and shared structures.\<close>

record exec_ctx =
  x_ptraced :: bool
  x_ptrace_cap :: bool
  x_fs_count :: int
  x_files_count :: int
  x_sighand_count :: int

definition unsafe_exec :: "exec_ctx \<Rightarrow> u32" where
  "unsafe_exec p =
     (let u1 = (if x_ptraced p then (if x_ptrace_cap p then LSM_UNSAFE_PTRACE_CAP else LSM_UNSAFE_PTRACE) else 0)
      in if x_fs_count p > 1 \<or> x_files_count p > 1 \<or> x_sighand_count p > 1 then u1 OR LSM_UNSAFE_SHARE else u1)"

definition compute_creds :: "kernel_cap_t \<Rightarrow> exec_ctx \<Rightarrow> binprm \<Rightarrow> cred \<Rightarrow> binprm \<times> cred" where
  "compute_creds bset x b t = mot_security_bprm_apply_creds bset b (unsafe_exec x) t"

text \<open>The effect of \<open>flush_old_exec\<close> on the credentials.\<close>

definition flush_dumpable :: "program \<Rightarrow> binprm \<Rightarrow> cred \<Rightarrow> cred" where
  "flush_dumpable f b t =
     (let t1 = (if c_euid t = c_uid t \<and> c_egid t = c_gid t then t\<lparr>c_dumpable := True\<rparr> else t) in
      if e_uid b \<noteq> c_euid t1 \<or> e_gid b \<noteq> c_egid t1 \<or> p_nodump f then t1\<lparr>c_dumpable := False\<rparr> else t1)"

text \<open>
  The credential part of \<open>do_execve\<close>. \<open>late\<close> is an error of the steps between
  \<open>prepare_binprm\<close> and the point of no return: copying the arguments, or finding a loader
  for the image. The image is one that its loader takes itself: a script, for which
  \<open>prepare_binprm\<close> runs a second time on the interpreter, is not modelled.
\<close>

definition exec_creds ::
    "env \<Rightarrow> kernel_cap_t \<Rightarrow> exec_ctx \<Rightarrow> program \<Rightarrow> errno option \<Rightarrow> cred \<Rightarrow> ((errno + unit) \<times> cred) option" where
  "exec_creds env bset x f late t =
     (case prepare_binprm env f
             \<lparr>e_uid = 0, e_gid = 0, b_inheritable = 0, b_permitted = 0, b_effective = 0, b_security = 0\<rparr> t of
        None \<Rightarrow> None
      | Some (Some e, b, t1) \<Rightarrow> Some (Inl e, t1)
      | Some (None, b, t1) \<Rightarrow>
          (case late of
             Some e \<Rightarrow> Some (Inl e, t1)
           | None \<Rightarrow> Some (Inr (), snd (compute_creds bset x b (flush_dumpable f b t1)))))"

section \<open>The table of protected files\<close>

definition protected_table :: "mot_file_perms list" where
  "protected_table = concat (map (\<lambda>d. perms d # files d) protected_dirs)"

lemmas drm_masks = JANUS_DRM_WRITE_def JANUS_DRM_READ_def JANUS_DRM_RW_def SECURE_CLOCK_READ_def
  SECURE_CLOCK_WRITE_def SECURE_CLOCK_RW_def OMA2_DRM_READ_def OMA2_DRM_WRITE_def OMA2_DRM_RW_def
  USER_APPS_AUTH_READ_def USER_APPS_AUTH_WRITE_def USER_APPS_AUTH_RW_def DRM_WRITE_def DRM_READ_def

lemmas drm_tables = protected_dirs_def etc_janus_files_def etc_security_files_def ezxlocal_tpa_files_def
  ezxlocal_oma2_files_def

definition table_ok :: "mot_dir_perms list \<Rightarrow> bool" where
  "table_ok ds \<longleftrightarrow> list_all (\<lambda>d. cstring (filepath (perms d)) \<and>
     list_all (\<lambda>f. cstring (filepath f) \<and>
       take (length (filepath (perms d))) (filepath f) = filepath (perms d)) (files d)) ds"

lemma protected_table_ok: "table_ok protected_dirs"
  by (simp add: table_ok_def drm_tables)

lemma protected_writes: "fp \<in> set protected_table \<Longrightarrow> domain fp AND DRM_WRITE \<noteq> 0"
proof -
  have "list_all (\<lambda>fp. domain fp AND DRM_WRITE \<noteq> 0) protected_table"
    by (simp add: protected_table_def drm_tables drm_masks)
  then show "fp \<in> set protected_table \<Longrightarrow> domain fp AND DRM_WRITE \<noteq> 0" by (simp add: list_all_iff)
qed

lemma search_files_find:
  "cstring path \<Longrightarrow> list_all (\<lambda>f. cstring (filepath f)) fs \<Longrightarrow>
   search_files path fs = List.find (\<lambda>f. filepath f = path) fs"
  by (induction fs) (auto simp: strcmp_eq)

lemma find_append: "List.find P (xs @ ys) = (case List.find P xs of Some x \<Rightarrow> Some x | None \<Rightarrow> List.find P ys)"
  by (induction xs) auto

lemma search_dirs_find:
  assumes "cstring path" "table_ok ds"
  shows "search_dirs path ds = List.find (\<lambda>f. filepath f = path) (concat (map (\<lambda>d. perms d # files d) ds))"
  using assms(2)
proof (induction ds)
  case (Cons d ds)
  let ?dir = "filepath (perms d)"
  have cs: "cstring ?dir" "list_all (\<lambda>f. cstring (filepath f)) (files d)"
    and pre: "\<And>f. f \<in> set (files d) \<Longrightarrow> take (length ?dir) (filepath f) = ?dir"
    using Cons.prems by (auto simp: table_ok_def list_all_iff)
  have IH: "search_dirs path ds = List.find (\<lambda>f. filepath f = path) (concat (map (\<lambda>d. perms d # files d) ds))"
    using Cons by (simp add: table_ok_def)
  have pfx: "strncmp path ?dir (length ?dir) = 0 \<longleftrightarrow> take (length ?dir) path = ?dir"
    using strncmp_prefix [OF assms(1) cs(1)] by simp
  show ?case
  proof (cases "take (length ?dir) path = ?dir")
    case True
    then show ?thesis
      using pfx IH search_files_find [OF assms(1) cs(2)] strcmp_eq [OF assms(1) cs(1)]
      by (auto simp: Let_def find_append split: option.split)
  next
    case False
    then have "?dir \<noteq> path" by auto
    moreover have "List.find (\<lambda>f. filepath f = path) (files d) = None"
      using pre False by (auto simp: find_None_iff)
    ultimately show ?thesis using False pfx IH by (simp add: Let_def find_append)
  qed
qed simp

text \<open>
  C37. The search of the protected directories by prefix and then by file is the lookup of the
  exact path in one flat table of all protected directories and files.
\<close>

theorem protected_lookup:
  assumes "cstring path"
  shows "search_dirs path protected_dirs = List.find (\<lambda>f. filepath f = path) protected_table"
  unfolding protected_table_def by (rule search_dirs_find [OF assms protected_table_ok])

section \<open>Guarded files\<close>

text \<open>
  An entry \<open>d\<close> on mount \<open>m\<close> whose absolute path is \<open>path\<close>: it is linked below the root of
  \<open>init_task\<close>, its superblock has that mount in \<open>s_vfsmount\<close> (which is not NULL), the path fits
  a page and a page is free.
\<close>

definition at_path :: "env \<Rightarrow> nat \<Rightarrow> nat \<Rightarrow> string list \<Rightarrow> string \<Rightarrow> bool" where
  "at_path env d m comps path \<longleftrightarrow>
     path_to (e_vfs env) (e_init_root env) (e_init_rootmnt env) d m comps \<and>
     \<not> d_unhashed (dentries (e_vfs env) d) \<and> comps \<noteq> [] \<and> path = path_text comps \<and> cstring path \<and>
     int (length path) < PAGE_SIZE \<and> free_page env \<and>
     (case d_sb_dev (dentries (e_vfs env) d) of None \<Rightarrow> False | Some dev \<Rightarrow> s_vfsmount env dev = Some m)"

lemma at_path_abs:
  assumes "at_path env d m comps path"
  shows "env_abs_d_path env d m = Some (Inr path)"
  using assms d_path_path [of "e_vfs env" "e_init_root env" "e_init_rootmnt env" d m comps PAGE_SIZE]
  by (auto simp: at_path_def env_abs_d_path_def PAGE_SIZE_def)

lemma at_path_info:
  assumes "at_path env d m comps path"
  shows "dentry_info env d = Some (Inr (List.find (\<lambda>f. filepath f = path) protected_table))"
    and "protected_file_info env d (Some m) = Some (Inr (List.find (\<lambda>f. filepath f = path) protected_table))"
  using assms at_path_abs [OF assms] search_dirs_find [OF _ protected_table_ok, of path]
  by (auto simp: at_path_def dentry_info_def protected_file_info_def protected_table_def split: option.splits)

lemma protected_find:
  assumes "path \<in> filepath ` set protected_table"
  obtains fp where "List.find (\<lambda>f. filepath f = path) protected_table = Some fp" "fp \<in> set protected_table"
proof (cases "List.find (\<lambda>f. filepath f = path) protected_table")
  case None
  then show thesis using assms by (auto simp: find_None_iff)
next
  case (Some fp)
  then have "fp \<in> set protected_table" by (auto simp: find_Some_iff)
  with Some show thesis by (rule that)
qed

text \<open>
  C32. For an entry whose path is in the table, a task that holds no write domain is refused
  by each of these hooks: permission to write to the file or directory reached by a path
  walk, \<open>create\<close> and \<open>mkdir\<close>, \<open>symlink\<close>, \<open>unlink\<close> and \<open>rmdir\<close>, \<open>mknod\<close>, a link from or to it, and
  a rename of it or onto it, whatever the other file of a link or rename is. The module has no
  hook for changes of mode, owner or times, and guards no name that is not in the table.
\<close>

theorem drm_write_denied:
  assumes "at_path env d m comps path" "path \<in> filepath ` set protected_table"
    "c_security t AND DRM_WRITE = 0" "access AND MAY_WRITE \<noteq> 0"
    "dentry_info env other = Some (Inr g)"
  shows "mot_security_inode_permission env access (Some (Some d, Some m)) t = Some (Inl EPERM) \<and>
    mot_security_inode_create env d t = Some (Inl EPERM) \<and>
    mot_security_inode_symlink env d t = Some (Inl EPERM) \<and>
    mot_security_inode_unlink env d t = Some (Inl EPERM) \<and>
    mot_security_inode_mknod env d t = Some (Inl EPERM) \<and>
    mot_security_inode_link env d other = Some (Inl EPERM) \<and>
    mot_security_inode_link env other d = Some (Inl EPERM) \<and>
    mot_security_inode_rename env d other t = Some (Inl EPERM) \<and>
    mot_security_inode_rename env other d t = Some (Inl EPERM)"
proof -
  obtain fp where fp: "List.find (\<lambda>f. filepath f = path) protected_table = Some fp" "fp \<in> set protected_table"
    using protected_find [OF assms(2)] by blast
  have w: "denied x (c_security t) DRM_WRITE" if "x AND DRM_WRITE \<noteq> 0" for x
    using that assms(3) by (simp add: denied_def and.assoc)
  have d: "denied (domain fp) (c_security t) DRM_WRITE"
    using w protected_writes [OF fp(2)] by blast
  note info = at_path_info [OF assms(1), unfolded fp(1)]
  have r: "mot_security_inode_rename env d other t = Some (Inl EPERM) \<and>
      mot_security_inode_rename env other d t = Some (Inl EPERM)"
    using d by (cases g) (auto simp: mot_security_inode_rename_def info assms(5))
  show ?thesis
    using d r assms(4,5)
    by (simp add: mot_security_inode_permission_def mot_security_inode_create_def
        mot_security_inode_symlink_def mot_security_inode_unlink_def mot_security_inode_mknod_def
        mot_security_inode_link_def info)
qed

section \<open>What execve grants\<close>

lemma apply_creds_security: "c_security (snd (mot_security_bprm_apply_creds bset b u t)) = b_security b"
  by (simp add: mot_security_bprm_apply_creds_def cap_bprm_apply_creds_def Let_def capable_iff split_beta)

text \<open>The parts of \<open>exec_creds\<close> for a program on the root file system that runs.\<close>

definition bprm0 :: binprm where
  "bprm0 = \<lparr>e_uid = 0, e_gid = 0, b_inheritable = 0, b_permitted = 0, b_effective = 0, b_security = 0\<rparr>"

lemma set_security_cases:
  assumes "mot_security_bprm_set_security env d m b t = Some (r, b', t')"
  obtains b1 where "set_clock env d m (cap_bprm_set_security t b) t = Some (b1, t')"
    "set_drm env d m b1 = Some (r, b')"
proof (cases "set_clock env d m (cap_bprm_set_security t b) t")
  case None
  then show thesis using assms by (simp add: mot_security_bprm_set_security_def)
next
  case (Some c)
  obtain b1 t1 where c: "c = (b1, t1)" by (cases c)
  show thesis
  proof (cases "set_drm env d m b1")
    case None
    then show thesis using assms Some c by (simp add: mot_security_bprm_set_security_def)
  next
    case (Some e)
    then show thesis
      using assms \<open>set_clock env d m (cap_bprm_set_security t b) t = Some c\<close> c that [of b1]
      by (cases e) (simp add: mot_security_bprm_set_security_def)
  qed
qed

lemma prepare_cases:
  assumes "prepare_binprm env f b t = Some (None, b', t')"
  obtains b1 where
    "set_clock env (Some (p_dentry f)) (p_mnt f) (cap_bprm_set_security t (bprm_fill_ids f b t)) t = Some (b1, t')"
    "set_drm env (Some (p_dentry f)) (p_mnt f) b1 = Some (None, b')"
proof -
  let ?m = "mot_security_bprm_set_security env (Some (p_dentry f)) (p_mnt f) (bprm_fill_ids f b t) t"
  have p: "(case ?m of None \<Rightarrow> None | Some (Some e, b4, t1) \<Rightarrow> Some (Some e, b4, t1)
      | Some (None, b4, t1) \<Rightarrow> Some (p_read f, b4, t1)) = Some (None, b', t')"
    using assms unfolding prepare_binprm_def by (simp split: if_splits)
  have "?m = Some (None, b', t')"
  proof (cases ?m)
    case None
    then show ?thesis using p by simp
  next
    case (Some r)
    obtain e b4 t1 where r: "r = (e, b4, t1)" by (cases r)
    then show ?thesis using p Some by (cases e) simp_all
  qed
  then show thesis by (rule set_security_cases) (rule that)
qed

lemma exec_ok_cases:
  assumes "exec_creds env bset x f late t = Some (res, t')"
  obtains (fail) b where "res = Inl (the late)" "late \<noteq> None" "prepare_binprm env f bprm0 t = Some (None, b, t')"
  | (early) e b where "res = Inl e" "prepare_binprm env f bprm0 t = Some (Some e, b, t')"
  | (run) b t1 where "res = Inr ()" "late = None" "prepare_binprm env f bprm0 t = Some (None, b, t1)"
    "t' = snd (compute_creds bset x b (flush_dumpable f b t1))"
proof (cases "prepare_binprm env f bprm0 t")
  case None
  then show thesis using assms by (simp add: exec_creds_def bprm0_def)
next
  case (Some r)
  obtain e b t1 where r: "r = (e, b, t1)" by (cases r)
  note eq = assms [unfolded exec_creds_def bprm0_def [symmetric] Some r option.case prod.case]
  show thesis
  proof (cases e)
    case None
    with eq Some r show thesis by (cases late) (simp_all add: fail [of b] run [of b t1])
  next
    case (Some e')
    then show thesis using eq \<open>prepare_binprm env f bprm0 t = Some r\<close> r early [of e' b] by simp
  qed
qed

lemma set_drm_domain:
  assumes "set_drm env (Some d) m b = Some (None, b')" "env_abs_d_path env d m = Some (Inr path)" "cstring path"
  shows "b_security b' = (if on_rootfs env d
    then (case List.find (\<lambda>f. filepath f = path) secure_drm_paths of None \<Rightarrow> 0 | Some f \<Rightarrow> domain f) else 0)"
proof -
  have "list_all (\<lambda>f. cstring (filepath f)) secure_drm_paths" by (simp add: secure_drm_paths_def)
  then have "List.find (\<lambda>f. strcmp (filepath f) path = 0) secure_drm_paths =
      List.find (\<lambda>f. filepath f = path) secure_drm_paths"
    using assms(3) by (intro find_cong) (auto simp: list_all_iff strcmp_eq)
  then show ?thesis
    using assms(1,2) by (auto simp: set_drm_def Let_def split: if_splits option.splits)
qed

text \<open>
  C34. The domain of a task after a successful \<open>execve\<close> is the one listed for exactly the
  absolute path of the program, if that program is on the root file system, and no domain
  otherwise: no domain survives the execution of another program.
\<close>

theorem exec_domain:
  assumes "exec_creds env bset x f None t = Some (Inr (), t')"
    "env_abs_d_path env (p_dentry f) (p_mnt f) = Some (Inr path)" "cstring path"
  shows "c_security t' = (if on_rootfs env (p_dentry f)
    then (case List.find (\<lambda>f. filepath f = path) secure_drm_paths of None \<Rightarrow> 0 | Some f \<Rightarrow> domain f) else 0)"
  using assms(1)
proof (cases rule: exec_ok_cases)
  case (run b t1)
  obtain b1 where "set_drm env (Some (p_dentry f)) (p_mnt f) b1 = Some (None, b)"
    using prepare_cases [OF run(3)] by metis
  then show ?thesis
    using set_drm_domain assms(2,3) run(4) by (simp add: compute_creds_def apply_creds_security)
qed simp_all

lemma clock_match_Cons:
  assumes "cstring path" "cstring p" "p \<noteq> []" "length p \<le> MAXLEN"
  shows "clock_match path (p # ps) \<longleftrightarrow> take (length p) path = p \<or> clock_match path ps"
  using strncmp_prefix [OF assms(1,2), of "length p"] assms(3,4) by simp

lemma clock_match_prefix:
  assumes "cstring path"
  shows "clock_match path secure_clock_paths \<longleftrightarrow>
    take 22 path = ''/usr/local/bin/secclkd'' \<or> take 9 path = ''/bin/tcmd''"
proof -
  have "clock_match path (''/bin/tcmd'' # []) \<longleftrightarrow> take 9 path = ''/bin/tcmd''"
    by (subst clock_match_Cons [OF assms]) (simp_all add: MAXLEN_def eval_nat_numeral)
  moreover have "clock_match path (''/usr/local/bin/secclkd'' # ps) \<longleftrightarrow>
      take 22 path = ''/usr/local/bin/secclkd'' \<or> clock_match path ps" for ps
    by (subst clock_match_Cons [OF assms]) (simp_all add: MAXLEN_def eval_nat_numeral)
  ultimately show ?thesis by (simp only: secure_clock_paths_def)
qed

lemma apply_effective:
  assumes "c_pid t \<noteq> 1"
  shows "c_effective (snd (cap_bprm_apply_creds bset b u t)) \<in>
    {((b_permitted b AND bset) OR (b_inheritable b AND c_inheritable t)) AND b_effective b,
     (((b_permitted b AND bset) OR (b_inheritable b AND c_inheritable t)) AND c_permitted t) AND b_effective b}"
  using assms by (simp add: cap_bprm_apply_creds_def Let_def capable_iff cap_intersect_def cap_combine_def)

lemma cap_set_full_clock: "\<not> bit cap_set_full CAP_SECURE_CLOCK"
  by (simp add: cap_set_full_def bit_not_iff bit_CAP_TO_MASK CAP_SECURE_CLOCK_def)

lemma bprm_set_clock:
  "\<not> bit (b_permitted (cap_bprm_set_security t b)) CAP_SECURE_CLOCK"
  "\<not> bit (b_inheritable (cap_bprm_set_security t b)) CAP_SECURE_CLOCK"
  by (simp_all add: cap_bprm_set_security_def Let_def cap_set_full_clock)

lemma bit_cap_raise: "bit (cap_raise c CAP_SECURE_CLOCK) CAP_SECURE_CLOCK"
  by (simp add: cap_raise_def bit_or_iff bit_CAP_TO_MASK CAP_SECURE_CLOCK_def)

lemma set_drm_caps:
  "set_drm env d m b = Some (r, b') \<Longrightarrow> b_permitted b' = b_permitted b \<and> b_inheritable b' = b_inheritable b \<and>
     b_effective b' = b_effective b"
  by (cases d) (auto simp: set_drm_def Let_def split: if_splits option.splits sum.splits)

lemma set_clock_path:
  assumes "d_path (e_vfs env) (e_fs_root env) (e_fs_rootmnt env) d m (int MAXLEN) = Some (Inr path)"
  shows "set_clock env (Some d) m b t =
    (if on_rootfs env d \<and> clock_match path secure_clock_paths then Some (raise_clock b t) else Some (b, t))"
  using assms by (simp add: set_clock_def)

lemma flush_dumpable_same [simp]:
  "c_inheritable (flush_dumpable f b t) = c_inheritable t" "c_permitted (flush_dumpable f b t) = c_permitted t"
  "c_pid (flush_dumpable f b t) = c_pid t"
  by (simp_all add: flush_dumpable_def Let_def)

lemma compute_effective:
  assumes "c_pid t \<noteq> 1"
  shows "c_effective (snd (compute_creds bset x b (flush_dumpable f b t))) \<in>
    {((b_permitted b AND bset) OR (b_inheritable b AND c_inheritable t)) AND b_effective b,
     (((b_permitted b AND bset) OR (b_inheritable b AND c_inheritable t)) AND c_permitted t) AND b_effective b}"
  using apply_effective [of "flush_dumpable f b t" bset b "unsafe_exec x"] assms
  by (simp add: compute_creds_def mot_security_bprm_apply_creds_def split_beta)

text \<open>
  The path that \<open>d_path\<close> yields in a buffer of \<open>MAXLEN\<close> bytes: longer paths are an error, and
  a match with the first listed path is an equality.
\<close>

lemma set_clock_linked:
  assumes "path_to (e_vfs env) (e_fs_root env) (e_fs_rootmnt env) d m comps"
    "IS_ROOT (e_vfs env) d \<or> \<not> d_unhashed (dentries (e_vfs env) d)" "cstring (path_text comps)"
  shows "set_clock env (Some d) m b t =
    (if on_rootfs env d \<and> length (path_text comps) < MAXLEN \<and>
        (path_text comps = ''/usr/local/bin/secclkd'' \<or> take 9 (path_text comps) = ''/bin/tcmd'')
     then Some (raise_clock b t) else Some (b, t))"
proof -
  let ?p = "path_text comps"
  have dp: "d_path (e_vfs env) (e_fs_root env) (e_fs_rootmnt env) d m (int MAXLEN) =
      (if length ?p < MAXLEN then Some (Inr (if comps = [] then ''/'' else ?p)) else Some (Inl ENAMETOOLONG))"
    using d_path_path [OF assms(1,2), of "int MAXLEN"] by (simp add: MAXLEN_def)
  show ?thesis
  proof (cases "length ?p < MAXLEN")
    case True
    have "take 22 ?p = ''/usr/local/bin/secclkd'' \<longleftrightarrow> ?p = ''/usr/local/bin/secclkd''"
      using True by (auto simp: MAXLEN_def)
    then have "clock_match (if comps = [] then ''/'' else ?p) secure_clock_paths \<longleftrightarrow>
        ?p = ''/usr/local/bin/secclkd'' \<or> take 9 ?p = ''/bin/tcmd''"
      using clock_match_prefix [OF assms(3)] clock_match_prefix [of "''/''"] by simp
    then show ?thesis
      using set_clock_path [of env d m "if comps = [] then ''/'' else ?p" b t] dp True by simp
  next
    case False
    then show ?thesis using dp by (simp add: set_clock_def)
  qed
qed

text \<open>
  C35. A linked program that \<open>execve\<close> starts, other than in \<open>init\<close>, can use \<open>CAP_SECURE_CLOCK\<close>
  exactly if it is on the root file system and its path, as seen from the root directory of
  the caller, is the first listed path or begins with the second one, \<open>/bin/tcmd\<close>, and has at
  most 22 characters: a file next to \<open>/bin/tcmd\<close> whose name begins with \<open>tcmd\<close> and is not too
  long gets the capability too. A longer path does not fit the buffer and grants nothing.
\<close>

theorem exec_secure_clock:
  assumes "exec_creds env bset x f None t = Some (Inr (), t')" "c_pid t \<noteq> 1"
    "path_to (e_vfs env) (e_fs_root env) (e_fs_rootmnt env) (p_dentry f) (p_mnt f) comps"
    "IS_ROOT (e_vfs env) (p_dentry f) \<or> \<not> d_unhashed (dentries (e_vfs env) (p_dentry f))"
    "cstring (path_text comps)"
  shows "cap_raised (c_effective t') CAP_SECURE_CLOCK \<longleftrightarrow>
    on_rootfs env (p_dentry f) \<and> length (path_text comps) \<le> 22 \<and>
    (path_text comps = ''/usr/local/bin/secclkd'' \<or> take 9 (path_text comps) = ''/bin/tcmd'')"
  using assms(1)
proof (cases rule: exec_ok_cases)
  case (run b t1)
  let ?b = "cap_bprm_set_security t (bprm_fill_ids f bprm0 t)"
  let ?raise = "on_rootfs env (p_dentry f) \<and> length (path_text comps) < MAXLEN \<and>
    (path_text comps = ''/usr/local/bin/secclkd'' \<or> take 9 (path_text comps) = ''/bin/tcmd'')"
  obtain b1 where sc: "set_clock env (Some (p_dentry f)) (p_mnt f) ?b t = Some (b1, t1)"
    and sd: "set_drm env (Some (p_dentry f)) (p_mnt f) b1 = Some (None, b)"
    by (rule prepare_cases [OF run(3)])
  have b: "b_permitted b = b_permitted b1" "b_inheritable b = b_inheritable b1" "b_effective b = b_effective b1"
    using set_drm_caps [OF sd] by simp_all
  have bt: "(b1, t1) = (if ?raise then raise_clock ?b t else (?b, t))"
    using sc unfolding set_clock_linked [OF assms(3-5)] by (metis option.inject)
  then have pid: "c_pid t1 \<noteq> 1" using assms(2) by (simp add: raise_clock_def split: if_splits)
  note e = compute_effective [OF pid, of bset x b f, folded run(4), unfolded b]
  have "bit (c_effective t') CAP_SECURE_CLOCK \<longleftrightarrow> ?raise"
  proof (cases ?raise)
    case True
    with bt have "bit (b_inheritable b1) CAP_SECURE_CLOCK \<and> bit (b_effective b1) CAP_SECURE_CLOCK \<and>
        bit (c_inheritable t1) CAP_SECURE_CLOCK \<and> bit (c_permitted t1) CAP_SECURE_CLOCK"
      by (simp add: raise_clock_def bit_cap_raise)
    then show ?thesis using e True by (auto simp: bit_and_iff bit_or_iff)
  next
    case False
    then have "\<not> bit (b_permitted b1) CAP_SECURE_CLOCK" "\<not> bit (b_inheritable b1) CAP_SECURE_CLOCK"
      using bt bprm_set_clock by auto
    then show ?thesis using e False by (auto simp: bit_and_iff bit_or_iff)
  qed
  then show ?thesis by (auto simp: cap_raised_bit MAXLEN_def)
qed simp_all

section \<open>A failed execve\<close>





section \<open>Examples\<close>

definition sample_env :: env where
  "sample_env = \<lparr>e_vfs = sample_vfs, e_init_root = 0, e_init_rootmnt = 0, e_fs_root = 0, e_fs_rootmnt = 0,
     ROOT_DEV = 7, s_vfsmount = \<lambda>_. Some 0, free_page = True\<rparr>"

lemma sample_at: "at_path sample_env 2 0 [''bin'', ''tcmd''] ''/bin/tcmd''"
  using sample_path
  by (simp add: at_path_def sample_env_def PAGE_SIZE_def path_text_def) (simp add: sample_vfs_def)

definition janus_env :: env where
  "janus_env = sample_env\<lparr>e_vfs := \<lparr>dentries = (\<lambda>d.
     if d = 3 then \<lparr>d_parent = 2, d_name = ''janus'', d_unhashed = False, d_sb_dev = Some 7\<rparr>
     else if d = 2 then \<lparr>d_parent = 1, d_name = ''pds'', d_unhashed = False, d_sb_dev = Some 7\<rparr>
     else if d = 1 then \<lparr>d_parent = 0, d_name = ''etc'', d_unhashed = False, d_sb_dev = Some 7\<rparr>
     else \<lparr>d_parent = 0, d_name = ''/'', d_unhashed = False, d_sb_dev = Some 7\<rparr>),
     mounts = (\<lambda>m. \<lparr>mnt_root = 0, mnt_parent = 0, mnt_mountpoint = 0\<rparr>)\<rparr>\<rparr>"

lemma janus_at: "at_path janus_env 3 0 [''etc'', ''pds'', ''janus''] ''/etc/pds/janus''"
  and etc_at: "at_path janus_env 1 0 [''etc''] ''/etc''"
proof -
  let ?v = "e_vfs janus_env"
  have "path_to ?v 0 0 0 0 []" by (rule path_to.root)
  then have 1: "path_to ?v 0 0 1 0 [''etc'']"
    using path_to.entry [of 1 0 0 0 ?v "[]"] by (simp add: janus_env_def IS_ROOT_def)
  then have "path_to ?v 0 0 2 0 [''etc'', ''pds'']"
    using path_to.entry [of 2 0 0 0 ?v "[''etc'']"] by (simp add: janus_env_def IS_ROOT_def)
  then have 3: "path_to ?v 0 0 3 0 [''etc'', ''pds'', ''janus'']"
    using path_to.entry [of 3 0 0 0 ?v "[''etc'', ''pds'']"] by (simp add: janus_env_def IS_ROOT_def)
  show "at_path janus_env 3 0 [''etc'', ''pds'', ''janus''] ''/etc/pds/janus''"
    using 3 by (simp add: at_path_def janus_env_def sample_env_def path_text_def PAGE_SIZE_def)
  show "at_path janus_env 1 0 [''etc''] ''/etc''"
    using 1 by (simp add: at_path_def janus_env_def sample_env_def path_text_def PAGE_SIZE_def)
qed

definition root_cred :: cred where
  "root_cred = \<lparr>c_pid = 100, c_uid = 0, c_euid = 0, c_suid = 0, c_fsuid = 0, c_gid = 0, c_egid = 0,
     c_sgid = 0, c_fsgid = 0, c_effective = 0x1ff, c_inheritable = 0, c_permitted = 0x1ff, c_keep = False,
     c_superpriv = False, c_dumpable = True, c_nproc = 10, c_user = 0, c_security = 0\<rparr>"

theorem protected_lookup_witness:
  "search_dirs ''/etc/pds/janus'' protected_dirs = Some \<lparr>filepath = ''/etc/pds/janus'', domain = JANUS_DRM_WRITE\<rparr>"
  using protected_lookup [of "''/etc/pds/janus''"] by (simp add: protected_table_def protected_dirs_def)

theorem drm_write_denied_witness:
  "mot_security_inode_unlink janus_env 3 root_cred = Some (Inl EPERM) \<and>
   mot_security_inode_rename janus_env 1 3 root_cred = Some (Inl EPERM)"
  using drm_write_denied [OF janus_at, of root_cred 2 1, OF _ _ _ at_path_info(1) [OF etc_at]]
  by (simp add: protected_table_def protected_dirs_def root_cred_def MAY_WRITE_def)

definition tcmd_program :: program where
  "tcmd_program = \<lparr>p_dentry = 2, p_mnt = 0, p_mode = 0x1ed, p_uid = 0, p_gid = 0, p_f_op = True,
     p_nosuid = False, p_read = None, p_nodump = False\<rparr>"

definition calm :: exec_ctx where
  "calm = \<lparr>x_ptraced = False, x_ptrace_cap = False, x_fs_count = 1, x_files_count = 1, x_sighand_count = 1\<rparr>"

lemma tcmd_paths:
  "d_path (e_vfs sample_env) (e_fs_root sample_env) (e_fs_rootmnt sample_env) 2 0 (int MAXLEN) = Some (Inr ''/bin/tcmd'')"
  "env_abs_d_path sample_env 2 0 = Some (Inr ''/bin/tcmd'')"
  "on_rootfs sample_env 2"
proof -
  show "d_path (e_vfs sample_env) (e_fs_root sample_env) (e_fs_rootmnt sample_env) 2 0 (int MAXLEN) = Some (Inr ''/bin/tcmd'')"
    using d_path_path [OF sample_path, of 23]
    by (simp add: sample_env_def MAXLEN_def path_text_def) (simp add: sample_vfs_def)
  show "env_abs_d_path sample_env 2 0 = Some (Inr ''/bin/tcmd'')" by (rule at_path_abs [OF sample_at])
  show "on_rootfs sample_env 2" by (simp add: on_rootfs_def sample_env_def sample_vfs_def)
qed

lemma tcmd_exec_env:
  assumes "free_page env" "env_abs_d_path env 2 0 = Some (Inr p)" "on_rootfs env 2"
    "\<And>b. set_clock env (Some 2) 0 b root_cred \<noteq> None"
  shows "exec_creds env bset calm tcmd_program late root_cred =
     Some (fst (the (exec_creds env bset calm tcmd_program late root_cred)),
           snd (the (exec_creds env bset calm tcmd_program late root_cred)))"
  "fst (the (exec_creds env bset calm tcmd_program None root_cred)) = Inr ()"
proof -
  let ?b = "cap_bprm_set_security root_cred (bprm_fill_ids tcmd_program bprm0 root_cred)"
  obtain q where q: "set_clock env (Some 2) 0 ?b root_cred = Some q"
    using assms(4) [of ?b] by blast
  obtain b1 t1 where bt: "q = (b1, t1)" by (cases q)
  have d: "set_drm env (Some 2) 0 b1 \<noteq> None \<and> fst (the (set_drm env (Some 2) 0 b1)) = None"
    by (simp add: set_drm_def assms(1-3) Let_def split: option.split)
  then obtain r where r: "set_drm env (Some 2) 0 b1 = Some r" "fst r = None"
    by (cases "set_drm env (Some 2) 0 b1") simp_all
  have "mot_security_bprm_set_security env (Some 2) 0 (bprm_fill_ids tcmd_program bprm0 root_cred) root_cred =
      Some (None, snd r, t1)"
    using r by (cases r) (simp add: mot_security_bprm_set_security_def q bt)
  then have "prepare_binprm env tcmd_program bprm0 root_cred = Some (None, snd r, t1)"
    by (simp add: prepare_binprm_def) (simp add: tcmd_program_def)
  then show "exec_creds env bset calm tcmd_program late root_cred =
     Some (fst (the (exec_creds env bset calm tcmd_program late root_cred)),
           snd (the (exec_creds env bset calm tcmd_program late root_cred)))"
    "fst (the (exec_creds env bset calm tcmd_program None root_cred)) = Inr ()"
    unfolding exec_creds_def bprm0_def [symmetric] by (simp_all split: option.split)
qed

lemma tcmd_exec:
  "exec_creds sample_env bset calm tcmd_program late root_cred =
     Some (fst (the (exec_creds sample_env bset calm tcmd_program late root_cred)),
           snd (the (exec_creds sample_env bset calm tcmd_program late root_cred)))"
  "fst (the (exec_creds sample_env bset calm tcmd_program None root_cred)) = Inr ()"
proof -
  have "free_page sample_env" by (simp add: sample_env_def)
  moreover have "set_clock sample_env (Some 2) 0 b root_cred \<noteq> None" for b
    unfolding set_clock_path [OF tcmd_paths(1)] by simp
  ultimately show "exec_creds sample_env bset calm tcmd_program late root_cred =
     Some (fst (the (exec_creds sample_env bset calm tcmd_program late root_cred)),
           snd (the (exec_creds sample_env bset calm tcmd_program late root_cred)))"
    "fst (the (exec_creds sample_env bset calm tcmd_program None root_cred)) = Inr ()"
    using tcmd_exec_env [OF _ tcmd_paths(2,3)] by blast+
qed

lemma tcmd_run:
  "exec_creds sample_env bset calm tcmd_program None root_cred =
     Some (Inr (), snd (the (exec_creds sample_env bset calm tcmd_program None root_cred)))"
  using tcmd_exec(1) [of bset None] unfolding tcmd_exec(2) .

theorem exec_domain_witness:
  "c_security (snd (the (exec_creds sample_env CAP_INIT_EFF_SET calm tcmd_program None root_cred))) =
     JANUS_DRM_RW OR SECURE_CLOCK_RW OR OMA2_DRM_RW"
  using exec_domain [OF tcmd_run, of "''/bin/tcmd''" CAP_INIT_EFF_SET] tcmd_paths(2,3)
  by (simp add: tcmd_program_def) (simp add: secure_drm_paths_def)

text \<open>The same program under the longer name \<open>/bin/tcmd_of_the_factory\<close>.\<close>

definition long_env :: env where
  "long_env = sample_env\<lparr>e_vfs := sample_vfs\<lparr>dentries := (dentries sample_vfs)(2 :=
     (dentries sample_vfs 2)\<lparr>d_name := ''tcmd_of_the_factory''\<rparr>)\<rparr>\<rparr>"

lemma long_env_path: "path_to (e_vfs long_env) 0 0 2 0 [''bin'', ''tcmd_of_the_factory'']"
proof -
  let ?v = "e_vfs long_env"
  have "path_to ?v 0 0 0 0 []" by (rule path_to.root)
  then have "path_to ?v 0 0 1 0 [''bin'']"
    using path_to.entry [of 1 0 0 0 ?v "[]"] by (simp add: long_env_def sample_vfs_def IS_ROOT_def)
  then show ?thesis
    using path_to.entry [of 2 0 0 0 ?v "[''bin'']"] by (simp add: long_env_def sample_vfs_def IS_ROOT_def)
qed

lemma long_env_run:
  "exec_creds long_env bset calm tcmd_program None root_cred =
     Some (Inr (), snd (the (exec_creds long_env bset calm tcmd_program None root_cred)))"
proof -
  have d: "\<not> d_unhashed (dentries (e_vfs long_env) 2)" and page: "free_page long_env" and root: "on_rootfs long_env 2"
    by (simp_all add: long_env_def sample_env_def sample_vfs_def on_rootfs_def)
  have path: "path_to (e_vfs long_env) (e_init_root long_env) (e_init_rootmnt long_env) 2 0 [''bin'', ''tcmd_of_the_factory'']"
    "path_to (e_vfs long_env) (e_fs_root long_env) (e_fs_rootmnt long_env) 2 0 [''bin'', ''tcmd_of_the_factory'']"
    using long_env_path by (simp_all add: long_env_def sample_env_def)
  have abs: "env_abs_d_path long_env 2 0 = Some (Inr ''/bin/tcmd_of_the_factory'')"
    using d_path_path [OF path(1), of PAGE_SIZE] d
    by (simp add: env_abs_d_path_def PAGE_SIZE_def path_text_def)
  have "set_clock long_env (Some 2) 0 b root_cred \<noteq> None" for b
    using set_clock_linked [OF path(2)] d by (simp add: path_text_def)
  note run = tcmd_exec_env [OF page abs root this]
  show ?thesis using run(1) [of bset None] unfolding run(2) .
qed

theorem exec_secure_clock_witness:
  "cap_raised (c_effective (snd (the (exec_creds sample_env CAP_INIT_EFF_SET calm tcmd_program None root_cred))))
     CAP_SECURE_CLOCK \<and>
   \<not> cap_raised (c_effective (snd (the (exec_creds long_env CAP_INIT_EFF_SET calm tcmd_program None root_cred))))
     CAP_SECURE_CLOCK"
proof -
  have p: "c_pid root_cred \<noteq> 1" "p_dentry tcmd_program = 2" "p_mnt tcmd_program = 0"
    by (simp_all add: root_cred_def tcmd_program_def)
  have "path_to (e_vfs sample_env) (e_fs_root sample_env) (e_fs_rootmnt sample_env) 2 0 [''bin'', ''tcmd'']"
    "path_to (e_vfs long_env) (e_fs_root long_env) (e_fs_rootmnt long_env) 2 0 [''bin'', ''tcmd_of_the_factory'']"
    using sample_path long_env_path by (simp_all add: sample_env_def long_env_def)
  moreover have "\<not> d_unhashed (dentries (e_vfs sample_env) 2)" "\<not> d_unhashed (dentries (e_vfs long_env) 2)"
    by (simp_all add: long_env_def sample_env_def sample_vfs_def)
  ultimately show ?thesis
    using exec_secure_clock [OF tcmd_run, of "[''bin'', ''tcmd'']" CAP_INIT_EFF_SET]
      exec_secure_clock [OF long_env_run, of "[''bin'', ''tcmd_of_the_factory'']" CAP_INIT_EFF_SET] tcmd_paths(3) p
    by (simp add: path_text_def)
qed


end
