(* ===== verification/MotMounts.thy ===== *)
theory MotMounts
  imports MotSecurity "HOL-Library.Multiset"
begin

text \<open>
  The allowed mounts of Motorola's security module: the list and its lock in
  \<open>security/motsecurity.c\<close>, the \<open>sb_mount\<close> hook, and the sysfs attributes of
  \<open>security/motsecurity_sysfs.c\<close> through which user space fills and locks the list. The
  flag \<open>mounts_locked\<close> is read and set without the semaphore of the list, so the runs
  interleave the sections of the handlers.
\<close>

section \<open>Mounts\<close>

record motsec_mount =
  mm_device :: string
  mm_mount_point :: string
  mm_fs_type :: string

record motsec =
  mounts_locked :: bool
  allowed_mounts :: "motsec_mount list"

definition mot_security_init :: motsec where
  "mot_security_init = \<lparr>mounts_locked = False, allowed_mounts = []\<rparr>"

text \<open>
  \<open>motsec_add_allowed_mount\<close> tests the flag and allocates, and then appends to the list under
  its semaphore; other tasks can run in between.
\<close>

definition motsec_add_check :: "bool \<Rightarrow> motsec \<Rightarrow> errno + unit" where
  "motsec_add_check mem s =
     (if mounts_locked s then Inl EPERM else if \<not> mem then Inl ENOMEM else Inr ())"

definition motsec_add_tail :: "motsec_mount \<Rightarrow> motsec \<Rightarrow> motsec" where
  "motsec_add_tail new_mount s = s\<lparr>allowed_mounts := allowed_mounts s @ [new_mount]\<rparr>"

definition motsec_add_allowed_mount ::
    "bool \<Rightarrow> string \<Rightarrow> string \<Rightarrow> string \<Rightarrow> motsec \<Rightarrow> (errno + unit) \<times> motsec" where
  "motsec_add_allowed_mount mem dev mount fs_type s =
     (case motsec_add_check mem s of
        Inl e \<Rightarrow> (Inl e, s)
      | Inr _ \<Rightarrow> (Inr (), motsec_add_tail \<lparr>mm_device = dev, mm_mount_point = mount, mm_fs_type = fs_type\<rparr> s))"

text \<open>
  A pointer argument is \<open>None\<close> where it is NULL or an error pointer: \<open>strcmp\<close> on it oopses.
\<close>

fun motsec_check_mount_allowed ::
    "string option \<Rightarrow> string option \<Rightarrow> string option \<Rightarrow> motsec_mount list \<Rightarrow> hook" where
  "motsec_check_mount_allowed dev mount fs_type [] = Some (Inl EPERM)"
| "motsec_check_mount_allowed dev mount fs_type (cur # ms) =
     (case dev of None \<Rightarrow> None
      | Some d \<Rightarrow> if strcmp d (mm_device cur) \<noteq> 0 then motsec_check_mount_allowed dev mount fs_type ms else
     (case mount of None \<Rightarrow> None
      | Some m \<Rightarrow> if strcmp m (mm_mount_point cur) \<noteq> 0 then motsec_check_mount_allowed dev mount fs_type ms else
     (case fs_type of None \<Rightarrow> None
      | Some f \<Rightarrow> if strcmp f (mm_fs_type cur) \<noteq> 0 then motsec_check_mount_allowed dev mount fs_type ms
                 else Some (Inr ()))))"

definition motsec_lock_mounts :: "motsec \<Rightarrow> motsec" where
  "motsec_lock_mounts s = s\<lparr>mounts_locked := True\<rparr>"

definition motsec_mounts_locked :: "motsec \<Rightarrow> bool" where
  "motsec_mounts_locked s = mounts_locked s"

text \<open>The state is \<open>s\<close> when the hook tests the flag and \<open>s'\<close> when it walks the list.\<close>

definition mot_security_sb_mount ::
    "env \<Rightarrow> string option \<Rightarrow> nat \<Rightarrow> nat \<Rightarrow> string option \<Rightarrow> motsec \<Rightarrow> motsec \<Rightarrow> hook" where
  "mot_security_sb_mount env dev_name nd_dentry nd_mnt type s s' =
     (if \<not> mounts_locked s then Some (Inr ())
      else if \<not> free_page env then Some (Inl ENOMEM)
      else (case env_abs_d_path env nd_dentry nd_mnt of
              None \<Rightarrow> None
            | Some (Inl _) \<Rightarrow> motsec_check_mount_allowed dev_name None type (allowed_mounts s')
            | Some (Inr path) \<Rightarrow> motsec_check_mount_allowed dev_name (Some path) type (allowed_mounts s')))"

subsection \<open>The sysfs attributes\<close>

text \<open>A store handler yields the number of bytes it took.\<close>

definition motsec_mounts_locked_store :: "string \<Rightarrow> nat \<Rightarrow> motsec \<Rightarrow> (errno + nat) \<times> motsec" where
  "motsec_mounts_locked_store buff cnt s =
     (if cnt \<noteq> 2 \<or> buff ! 1 \<noteq> CHR 0x0A \<or> buff ! 0 \<noteq> CHR ''1'' then (Inl EINVAL, s)
      else (Inr cnt, motsec_lock_mounts s))"

text \<open>
  The scanner of \<open>motsec_allowed_mounts_store\<close>: \<open>fs\<close> and \<open>fe\<close> hold the positions where the
  fields start and end.
\<close>

function scan_fields ::
    "string \<Rightarrow> nat \<Rightarrow> nat \<Rightarrow> nat \<Rightarrow> (nat \<Rightarrow> nat option) \<Rightarrow> (nat \<Rightarrow> nat) \<Rightarrow>
     errno + (nat \<times> nat \<times> (nat \<Rightarrow> nat option) \<times> (nat \<Rightarrow> nat))" where
  "scan_fields buff cnt pos i f_start f_end =
     (if i < 3 \<and> pos < cnt then
        if buff ! pos = CHR '' '' \<or> buff ! pos = CHR 0x0A \<or> buff ! pos = CHR 0x00 then
          (if f_start i = None then Inl EINVAL
           else if buff ! pos = CHR 0x0A then Inr (i + 1, pos + 1, f_start, f_end(i := pos))
           else scan_fields buff cnt (pos + 1) (i + 1) f_start (f_end(i := pos)))
        else scan_fields buff cnt (pos + 1) i
               (if f_start i = None then f_start(i \<mapsto> pos) else f_start) f_end
      else Inr (i, pos, f_start, f_end))"
  by pat_completeness auto
termination by (relation "measure (\<lambda>(b, cnt, pos, i, fs, fe). cnt - pos)") auto

declare scan_fields.simps [simp del]

text \<open>
  \<open>mount_fields\<close> is the part of the handler before the call of \<open>motsec_add_allowed_mount\<close>: the
  three fields and the position reached.
\<close>

definition mount_fields :: "(nat \<Rightarrow> bool) \<Rightarrow> string \<Rightarrow> nat \<Rightarrow> errno + (string \<times> string \<times> string \<times> nat)" where
  "mount_fields mem buff cnt =
     (case scan_fields buff cnt 0 0 (\<lambda>_. None) (\<lambda>_. 0) of
        Inl e \<Rightarrow> Inl e
      | Inr (i, pos, f_start, f_end) \<Rightarrow>
          if i \<noteq> 3 then Inl EINVAL
          else if \<not> (mem 0 \<and> mem 1 \<and> mem 2) then Inl ENOMEM
          else
            let field = (\<lambda>i. take (f_end i - the (f_start i)) (drop (the (f_start i)) buff)) in
            Inr (field 0, field 1, field 2, pos))"

definition motsec_allowed_mounts_store ::
    "(nat \<Rightarrow> bool) \<Rightarrow> bool \<Rightarrow> string \<Rightarrow> nat \<Rightarrow> motsec \<Rightarrow> (errno + nat) \<times> motsec" where
  "motsec_allowed_mounts_store mem mem_mount buff cnt s =
     (case mount_fields mem buff cnt of
        Inl e \<Rightarrow> (Inl e, s)
      | Inr (dev, mount, fs_type, pos) \<Rightarrow>
          (case motsec_add_allowed_mount mem_mount dev mount fs_type s of
             (Inl e, s1) \<Rightarrow> (Inl e, s1)
           | (Inr _, s1) \<Rightarrow> (Inr pos, s1)))"

section \<open>Runs\<close>

text \<open>
  The state changes only through the two store handlers. \<open>ms_pending\<close> holds the mounts of the
  stores that have passed the test of the flag and have not yet appended.
\<close>

record msys =
  ms_sec :: motsec
  ms_pending :: "motsec_mount multiset"

inductive motsec_step :: "msys \<Rightarrow> msys \<Rightarrow> bool" where
  lock: "motsec_mounts_locked_store buff cnt (ms_sec s) = (r, m) \<Longrightarrow> motsec_step s (s\<lparr>ms_sec := m\<rparr>)"
| check: "cnt \<le> length buff \<Longrightarrow> mount_fields mem buff cnt = Inr (dev, mount, fs_type, pos) \<Longrightarrow>
    motsec_add_check mm (ms_sec s) = Inr () \<Longrightarrow>
    motsec_step s (s\<lparr>ms_pending :=
      add_mset \<lparr>mm_device = dev, mm_mount_point = mount, mm_fs_type = fs_type\<rparr> (ms_pending s)\<rparr>)"
| append: "c \<in># ms_pending s \<Longrightarrow>
    motsec_step s (s\<lparr>ms_sec := motsec_add_tail c (ms_sec s), ms_pending := ms_pending s - {#c#}\<rparr>)"

definition msys_init :: msys where
  "msys_init = \<lparr>ms_sec = mot_security_init, ms_pending = {#}\<rparr>"

definition motsec_reachable :: "msys \<Rightarrow> bool" where
  "motsec_reachable s \<longleftrightarrow> motsec_step\<^sup>*\<^sup>* msys_init s"

definition mount_ok :: "motsec_mount \<Rightarrow> bool" where
  "mount_ok c \<longleftrightarrow> cstring (mm_device c) \<and> cstring (mm_mount_point c) \<and> cstring (mm_fs_type c)"

section \<open>The list of allowed mounts\<close>

lemma check_mount_iff:
  assumes "list_all mount_ok ms" "cstring d" "cstring m" "cstring f"
  shows "motsec_check_mount_allowed (Some d) (Some m) (Some f) ms =
    (if \<lparr>mm_device = d, mm_mount_point = m, mm_fs_type = f\<rparr> \<in> set ms then Some (Inr ()) else Some (Inl EPERM))"
  using assms(1)
proof (induction ms)
  case (Cons c ms)
  then have eqs: "strcmp d (mm_device c) = 0 \<longleftrightarrow> d = mm_device c"
    "strcmp m (mm_mount_point c) = 0 \<longleftrightarrow> m = mm_mount_point c"
    "strcmp f (mm_fs_type c) = 0 \<longleftrightarrow> f = mm_fs_type c"
    using assms(2-4) by (simp_all add: mount_ok_def strcmp_eq)
  have "\<lparr>mm_device = d, mm_mount_point = m, mm_fs_type = f\<rparr> = c \<longleftrightarrow>
      d = mm_device c \<and> m = mm_mount_point c \<and> f = mm_fs_type c" by (cases c) auto
  then show ?case using Cons eqs by auto
qed simp

lemma check_mount_fault:
  assumes "list_all mount_ok ms" "pred_option cstring dev" "pred_option cstring m"
  shows "motsec_check_mount_allowed dev m ty ms = None \<longleftrightarrow> dev = None \<and> ms \<noteq> [] \<or>
    (\<exists>c \<in> set ms. dev = Some (mm_device c) \<and> (m = None \<or> m = Some (mm_mount_point c) \<and> ty = None))"
  using assms(1)
proof (induction ms)
  case (Cons c ms)
  have "strcmp d (mm_device c) = 0 \<longleftrightarrow> d = mm_device c" if "dev = Some d" for d
    using Cons.prems assms(2) that by (simp add: mount_ok_def strcmp_eq)
  moreover have "strcmp p (mm_mount_point c) = 0 \<longleftrightarrow> p = mm_mount_point c" if "m = Some p" for p
    using Cons.prems assms(3) that by (simp add: mount_ok_def strcmp_eq)
  ultimately show ?case
    using Cons by (cases dev; cases m; cases ty) auto
qed simp

section \<open>The scanner\<close>

definition field_char :: "char \<Rightarrow> bool" where
  "field_char c \<longleftrightarrow> c \<noteq> CHR '' '' \<and> c \<noteq> CHR 0x0A \<and> c \<noteq> CHR 0x00"

definition scan_inv ::
    "string \<Rightarrow> nat \<Rightarrow> nat \<Rightarrow> nat \<Rightarrow> (nat \<Rightarrow> nat option) \<Rightarrow> (nat \<Rightarrow> nat) \<Rightarrow> bool" where
  "scan_inv buff cnt pos i fs fe \<longleftrightarrow> i \<le> 3 \<and> pos \<le> cnt \<and>
     (\<forall>j < i. \<exists>a. fs j = Some a \<and> fe j \<le> cnt \<and> (\<forall>k. a \<le> k \<and> k < fe j \<longrightarrow> field_char (buff ! k))) \<and>
     (\<forall>a. fs i = Some a \<longrightarrow> (\<forall>k. a \<le> k \<and> k < pos \<longrightarrow> field_char (buff ! k))) \<and>
     (\<forall>j > i. fs j = None)"

lemma scan_inv_end:
  assumes "scan_inv buff cnt pos i fs fe" "i < 3" "pos < cnt" "fs i \<noteq> None"
  shows "scan_inv buff cnt (pos + 1) (i + 1) fs (fe(i := pos))"
  unfolding scan_inv_def
proof (intro conjI allI impI)
  fix j assume "j < i + 1"
  then show "\<exists>a. fs j = Some a \<and> (fe(i := pos)) j \<le> cnt \<and>
      (\<forall>k. a \<le> k \<and> k < (fe(i := pos)) j \<longrightarrow> field_char (buff ! k))"
    using assms by (cases "j = i") (auto simp: scan_inv_def)
qed (use assms in \<open>auto simp: scan_inv_def\<close>)

lemma scan_inv_char:
  assumes "scan_inv buff cnt pos i fs fe" "i < 3" "pos < cnt" "field_char (buff ! pos)"
  shows "scan_inv buff cnt (pos + 1) i (if fs i = None then fs(i \<mapsto> pos) else fs) fe"
  using assms by (auto simp: scan_inv_def less_Suc_eq)

lemma scan_fields_inv:
  "scan_fields buff cnt pos i fs fe = Inr (i', pos', fs', fe') \<Longrightarrow> scan_inv buff cnt pos i fs fe \<Longrightarrow>
   scan_inv buff cnt pos' i' fs' fe'"
proof (induction buff cnt pos i fs fe rule: scan_fields.induct)
  case (1 buff cnt pos i fs fe)
  show ?case
  proof (cases "i < 3 \<and> pos < cnt")
    case False
    then have "scan_fields buff cnt pos i fs fe = Inr (i, pos, fs, fe)"
      by (subst scan_fields.simps) (rule if_not_P)
    then show ?thesis using "1.prems" by simp
  next
    case True
    show ?thesis
    proof (cases "field_char (buff ! pos)")
      case True
      then show ?thesis
        using 1 \<open>i < 3 \<and> pos < cnt\<close> scan_inv_char [of buff cnt pos i fs fe]
        by (simp add: scan_fields.simps [of buff cnt pos] field_char_def)
    next
      case False
      then have "fs i \<noteq> None"
        using "1.prems"(1) True by (auto simp: scan_fields.simps [of buff cnt pos] field_char_def split: if_splits)
      then show ?thesis
        using 1 True False scan_inv_end [of buff cnt pos i fs fe]
        by (auto simp: scan_fields.simps [of buff cnt pos] field_char_def fun_upd_def split: if_splits)
    qed
  qed
qed

lemma field_cstring:
  assumes "fe \<le> length buff" "\<And>k. a \<le> k \<Longrightarrow> k < fe \<Longrightarrow> field_char (buff ! k)"
  shows "cstring (take (fe - a) (drop a buff))"
  using assms by (auto simp: cstring_def field_char_def in_set_conv_nth)

lemma mount_fields_ok:
  assumes "mount_fields mem buff cnt = Inr (dev, mount, ty, p)" "cnt \<le> length buff"
  shows "mount_ok \<lparr>mm_device = dev, mm_mount_point = mount, mm_fs_type = ty\<rparr>"
proof -
  obtain i pos fs fe where scan: "scan_fields buff cnt 0 0 (\<lambda>_. None) (\<lambda>_. 0) = Inr (i, pos, fs, fe)"
    using assms(1) by (auto simp: mount_fields_def split: sum.splits)
  have "scan_inv buff cnt 0 0 (\<lambda>_. None) (\<lambda>_. 0)" by (simp add: scan_inv_def)
  from scan_fields_inv [OF scan this] have inv: "scan_inv buff cnt pos i fs fe" .
  have "cstring (take (fe j - the (fs j)) (drop (the (fs j)) buff))" if ij: "i = 3" "j < 3" for j
  proof -
    obtain a where "fs j = Some a" "fe j \<le> cnt" "\<forall>k. a \<le> k \<and> k < fe j \<longrightarrow> field_char (buff ! k)"
      using inv [unfolded scan_inv_def, THEN conjunct2, THEN conjunct2, THEN conjunct1] ij by blast
    then show ?thesis using field_cstring [of "fe j" buff a] assms(2) by simp
  qed
  then show ?thesis
    using assms(1) scan by (auto simp: mount_fields_def mount_ok_def Let_def split: if_splits)
qed

text \<open>A store that no other task interrupts is a run of these steps.\<close>

lemma store_run:
  assumes "cnt \<le> length buff"
  shows "motsec_step\<^sup>*\<^sup>* s (s\<lparr>ms_sec := snd (motsec_allowed_mounts_store mem mm buff cnt (ms_sec s))\<rparr>)"
proof (cases "\<exists>dev mount ty pos. mount_fields mem buff cnt = Inr (dev, mount, ty, pos) \<and> motsec_add_check mm (ms_sec s) = Inr ()")
  case True
  then obtain dev mount ty pos where f: "mount_fields mem buff cnt = Inr (dev, mount, ty, pos)"
    "motsec_add_check mm (ms_sec s) = Inr ()" by blast
  let ?c = "\<lparr>mm_device = dev, mm_mount_point = mount, mm_fs_type = ty\<rparr>"
  let ?s = "s\<lparr>ms_pending := add_mset ?c (ms_pending s)\<rparr>"
  have "motsec_step s ?s" by (rule motsec_step.check [OF assms f])
  moreover have "motsec_step ?s (s\<lparr>ms_sec := motsec_add_tail ?c (ms_sec s)\<rparr>)"
    using motsec_step.append [of ?c ?s] by simp
  ultimately show ?thesis
    using f by (simp add: motsec_allowed_mounts_store_def motsec_add_allowed_mount_def converse_rtranclp_into_rtranclp)
next
  case False
  then have "snd (motsec_allowed_mounts_store mem mm buff cnt (ms_sec s)) = ms_sec s"
    by (auto simp: motsec_allowed_mounts_store_def motsec_add_allowed_mount_def split: sum.splits)
  then show ?thesis by simp
qed

definition msys_ok :: "msys \<Rightarrow> bool" where
  "msys_ok s \<longleftrightarrow> list_all mount_ok (allowed_mounts (ms_sec s)) \<and> (\<forall>c \<in># ms_pending s. mount_ok c)"

lemma motsec_step_ok: "motsec_step s s' \<Longrightarrow> msys_ok s \<Longrightarrow> msys_ok s'"
proof (induction rule: motsec_step.induct)
  case (lock buff cnt s r m)
  then show ?case by (auto simp: msys_ok_def motsec_mounts_locked_store_def motsec_lock_mounts_def split: if_splits)
next
  case (check cnt buff mem dev mount fs_type pos mm s)
  then show ?case using mount_fields_ok [OF check(2,1)] by (simp add: msys_ok_def)
next
  case (append c s)
  then show ?case by (auto simp: msys_ok_def motsec_add_tail_def dest: in_diffD)
qed

lemma reachable_ok: "motsec_reachable s \<Longrightarrow> msys_ok s"
  unfolding motsec_reachable_def
  by (induction rule: rtranclp_induct) (auto simp: msys_ok_def msys_init_def mot_security_init_def dest: motsec_step_ok)

lemma locked_step:
  assumes "motsec_step s s'" "mounts_locked (ms_sec s)"
  shows "mounts_locked (ms_sec s') \<and>
    (\<exists>new. allowed_mounts (ms_sec s') = allowed_mounts (ms_sec s) @ new \<and> mset new + ms_pending s' = ms_pending s)"
  using assms
proof (induction rule: motsec_step.induct)
  case (lock buff cnt s r m)
  then show ?case by (auto simp: motsec_mounts_locked_store_def motsec_lock_mounts_def split: if_splits)
next
  case (check cnt buff mem dev mount fs_type pos mm s)
  then show ?case by (simp add: motsec_add_check_def)
next
  case (append c s)
  then show ?case by (simp add: motsec_add_tail_def)
qed

lemma locked_run:
  assumes "motsec_step\<^sup>*\<^sup>* s s'" "mounts_locked (ms_sec s)"
  shows "mounts_locked (ms_sec s') \<and>
    (\<exists>new. allowed_mounts (ms_sec s') = allowed_mounts (ms_sec s) @ new \<and> mset new + ms_pending s' = ms_pending s)"
  using assms(1)
proof (induction rule: rtranclp_induct)
  case base
  then show ?case using assms(2) by simp
next
  case (step s1 s2)
  then obtain new where "allowed_mounts (ms_sec s1) = allowed_mounts (ms_sec s) @ new"
    "mset new + ms_pending s1 = ms_pending s" "mounts_locked (ms_sec s1)" by blast
  moreover obtain new' where "allowed_mounts (ms_sec s2) = allowed_mounts (ms_sec s1) @ new'"
    "mset new' + ms_pending s2 = ms_pending s1" "mounts_locked (ms_sec s2)"
    using locked_step [OF step.hyps(2)] calculation(3) by blast
  ultimately show ?case
    by (intro conjI exI [of _ "new @ new'"]) (simp_all add: union_assoc)
qed

text \<open>
  C33. Once the flag is set it stays set, and of what user space writes to the sysfs attributes
  only the stores that had passed the test of the flag before can still change the list: each
  of them appends its mount once. When none is under way the state does not change any more.
  The hook then admits a mount exactly if device, absolute mount point and file system type
  are one of the triples listed at the time it walks the list.
\<close>

theorem mount_policy:
  assumes "motsec_reachable s" "mounts_locked (ms_sec s)" "motsec_step\<^sup>*\<^sup>* s s'" "motsec_step\<^sup>*\<^sup>* s' s''"
    "at_path env d m comps path" "cstring dev" "cstring ty"
  shows "mounts_locked (ms_sec s') \<and>
    (\<exists>new. allowed_mounts (ms_sec s') = allowed_mounts (ms_sec s) @ new \<and> mset new + ms_pending s' = ms_pending s) \<and>
    (ms_pending s = {#} \<longrightarrow> s' = s) \<and>
    mot_security_sb_mount env (Some dev) d m (Some ty) (ms_sec s') (ms_sec s'') =
      (if \<lparr>mm_device = dev, mm_mount_point = path, mm_fs_type = ty\<rparr> \<in> set (allowed_mounts (ms_sec s''))
       then Some (Inr ()) else Some (Inl EPERM))"
proof -
  have s': "mounts_locked (ms_sec s')" "\<exists>new. allowed_mounts (ms_sec s') = allowed_mounts (ms_sec s) @ new \<and>
      mset new + ms_pending s' = ms_pending s"
    using locked_run [OF assms(3,2)] by simp_all
  have "motsec_reachable s''"
    using assms(1,3,4) unfolding motsec_reachable_def by simp
  then have ok: "list_all mount_ok (allowed_mounts (ms_sec s''))"
    using reachable_ok by (simp add: msys_ok_def)
  have "cstring path" "free_page env" using assms(5) unfolding at_path_def by blast+
  then have "mot_security_sb_mount env (Some dev) d m (Some ty) (ms_sec s') (ms_sec s'') =
      (if \<lparr>mm_device = dev, mm_mount_point = path, mm_fs_type = ty\<rparr> \<in> set (allowed_mounts (ms_sec s''))
       then Some (Inr ()) else Some (Inl EPERM))"
    using s'(1) at_path_abs [OF assms(5)] check_mount_iff [OF ok assms(6) _ assms(7)]
    by (simp add: mot_security_sb_mount_def)
  moreover have "ms_pending s = {#} \<longrightarrow> s' = s"
    using s' assms(2) by auto
  ultimately show ?thesis using s' by blast
qed

text \<open>
  C40. Once the flag is set, and a page is available for the path, the hook dereferences a bad
  pointer exactly in these cases: the call has no device name and the list is not empty; or a
  listed mount has the device of the call and either the path of the mount point does not fit
  the page (an error pointer) or it is the mount point of that entry and the call has no type.
\<close>

theorem mount_null_oops:
  assumes "motsec_reachable s" "mounts_locked (ms_sec s)" "motsec_step\<^sup>*\<^sup>* s s'" "free_page env"
    "env_abs_d_path env d m = Some r" "\<forall>p. r = Inr p \<longrightarrow> cstring p" "pred_option cstring dev"
  shows "mot_security_sb_mount env dev d m ty (ms_sec s) (ms_sec s') = None \<longleftrightarrow>
    dev = None \<and> allowed_mounts (ms_sec s') \<noteq> [] \<or>
    (\<exists>c \<in> set (allowed_mounts (ms_sec s')). dev = Some (mm_device c) \<and>
       (isl r \<or> r = Inr (mm_mount_point c) \<and> ty = None))"
proof -
  have "motsec_reachable s'"
    using assms(1,3) unfolding motsec_reachable_def by simp
  then have ok: "list_all mount_ok (allowed_mounts (ms_sec s'))"
    using reachable_ok by (simp add: msys_ok_def)
  show ?thesis
    using check_mount_fault [OF ok assms(7), of "case r of Inl _ \<Rightarrow> None | Inr p \<Rightarrow> Some p" ty] assms(2,4,5,6)
    by (cases r) (simp_all add: mot_security_sb_mount_def)
qed

section \<open>The format of the attribute\<close>

lemma scan_word:
  assumes "i < 3" "pos + length w \<le> cnt" "\<And>k. k < length w \<Longrightarrow> buff ! (pos + k) = w ! k"
    "list_all field_char w" "w \<noteq> [] \<or> fs i \<noteq> None"
  shows "scan_fields buff cnt pos i fs fe =
    scan_fields buff cnt (pos + length w) i (if fs i = None then fs(i \<mapsto> pos) else fs) fe"
  using assms(2-5)
proof (induction w arbitrary: pos fs)
  case (Cons c w)
  let ?fs = "if fs i = None then fs(i \<mapsto> pos) else fs"
  have c: "buff ! pos = c" "field_char c" using Cons.prems(2) [of 0] Cons.prems(3) by simp_all
  have "scan_fields buff cnt pos i fs fe = scan_fields buff cnt (pos + 1) i ?fs fe"
    using c Cons.prems(1) assms(1) by (subst scan_fields.simps) (simp add: field_char_def)
  also have "\<dots> = scan_fields buff cnt (pos + 1 + length w) i ?fs fe"
    using Cons.IH [of "pos + 1" ?fs] Cons.prems(1,3) Cons.prems(2) [of "Suc k" for k] by simp
  finally show ?case by simp
qed auto

lemma scan_sep:
  assumes "i < 3" "pos < cnt" "buff ! pos = CHR '' ''" "fs i \<noteq> None"
  shows "scan_fields buff cnt pos i fs fe = scan_fields buff cnt (pos + 1) (i + 1) fs (fe(i := pos))"
  using assms by (subst scan_fields.simps) auto

lemma scan_newline:
  assumes "i < 3" "pos < cnt" "buff ! pos = CHR 0x0A" "fs i \<noteq> None"
  shows "scan_fields buff cnt pos i fs fe = Inr (i + 1, pos + 1, fs, fe(i := pos))"
  using assms by (subst scan_fields.simps) auto

lemma fields_line:
  assumes "a \<noteq> []" "b \<noteq> []" "c \<noteq> []" "list_all field_char (a @ b @ c)"
    "mem 0" "mem 1" "mem 2" "buff = a @ '' '' @ b @ '' '' @ c @ [CHR 0x0A]"
  shows "mount_fields mem buff (length buff) = Inr (a, b, c, length buff)"
proof -
  let ?n = "length buff"
  let ?p = "length a" and ?q = "length a + 1 + length b" and ?r = "length a + 1 + length b + 1 + length c"
  let ?fs = "[0 \<mapsto> 0, 1 \<mapsto> ?p + 1, 2 \<mapsto> ?q + 1]"
  have n: "?n = ?r + 1" by (simp add: assms(8))
  have good: "list_all field_char a" "list_all field_char b" "list_all field_char c" using assms(4) by simp_all
  have ca: "buff ! (0 + k) = a ! k" if "k < length a" for k using that by (simp add: assms(8) nth_append)
  have sa: "buff ! ?p = CHR '' ''" by (simp add: assms(8) nth_append)
  have cb: "buff ! (?p + 1 + k) = b ! k" if "k < length b" for k using that by (simp add: assms(8) nth_append)
  have sb: "buff ! ?q = CHR '' ''" by (simp add: assms(8) nth_append)
  have cc: "buff ! (?q + 1 + k) = c ! k" if "k < length c" for k using that by (simp add: assms(8) nth_append)
  have sc: "buff ! ?r = CHR 0x0A" by (simp add: assms(8) nth_append)
  have "scan_fields buff ?n 0 0 (\<lambda>_. None) (\<lambda>_. 0) = scan_fields buff ?n ?p 0 [0 \<mapsto> 0] (\<lambda>_. 0)"
    using scan_word [of 0 0 a ?n buff "\<lambda>_. None"] ca good assms(1) n by simp
  also have "\<dots> = scan_fields buff ?n (?p + 1) 1 [0 \<mapsto> 0] ((\<lambda>_. 0)(0 := ?p))"
    using scan_sep [of 0 ?p ?n buff "[0 \<mapsto> 0]"] sa n by simp
  also have "\<dots> = scan_fields buff ?n ?q 1 [0 \<mapsto> 0, 1 \<mapsto> ?p + 1] ((\<lambda>_. 0)(0 := ?p))"
    using scan_word [of 1 "?p + 1" b ?n buff "[0 \<mapsto> 0]"] cb good assms(2) n by simp
  also have "\<dots> = scan_fields buff ?n (?q + 1) 2 [0 \<mapsto> 0, 1 \<mapsto> ?p + 1] ((\<lambda>_. 0)(0 := ?p, 1 := ?q))"
    using scan_sep [of 1 ?q ?n buff "[0 \<mapsto> 0, 1 \<mapsto> ?p + 1]"] sb n by (simp add: eval_nat_numeral)
  also have "\<dots> = scan_fields buff ?n ?r 2 ?fs ((\<lambda>_. 0)(0 := ?p, 1 := ?q))"
    using scan_word [of 2 "?q + 1" c ?n buff "[0 \<mapsto> 0, 1 \<mapsto> ?p + 1]"] cc good assms(3) n by simp
  also have "\<dots> = Inr (3, ?n, ?fs, (\<lambda>_. 0)(0 := ?p, 1 := ?q, 2 := ?r))"
    using scan_newline [of 2 ?r ?n buff ?fs] sc n by (simp add: eval_nat_numeral)
  finally have scan: "scan_fields buff ?n 0 0 (\<lambda>_. None) (\<lambda>_. 0) =
      Inr (3, ?n, ?fs, (\<lambda>_. 0)(0 := ?p, 1 := ?q, 2 := ?r))" .
  have f: "take ?p (drop 0 buff) = a" "take (length b) (drop (?p + 1) buff) = b"
    "take (length c) (drop (?q + 1) buff) = c" by (simp_all add: assms(8))
  show ?thesis
    using f assms(5-7) unfolding mount_fields_def scan by (simp add: Let_def)
qed

lemma store_line:
  assumes "a \<noteq> []" "b \<noteq> []" "c \<noteq> []" "list_all field_char (a @ b @ c)" "\<not> mounts_locked s"
    "mem 0" "mem 1" "mem 2" "buff = a @ '' '' @ b @ '' '' @ c @ [CHR 0x0A]"
  shows "motsec_allowed_mounts_store mem True buff (length buff) s =
    (Inr (length buff), s\<lparr>allowed_mounts :=
       allowed_mounts s @ [\<lparr>mm_device = a, mm_mount_point = b, mm_fs_type = c\<rparr>]\<rparr>)"
  using fields_line [where mem = mem, OF assms(1-4,6-9)] assms(5)
  by (simp add: motsec_allowed_mounts_store_def motsec_add_allowed_mount_def motsec_add_check_def motsec_add_tail_def)

text \<open>
  C39. Writing the line \<open>device mount_point type\<close> to \<open>allowed_mounts\<close> while the list is
  unlocked takes the whole line and appends exactly that mount to the list.
\<close>

theorem allowed_mounts_roundtrip:
  assumes "a \<noteq> []" "b \<noteq> []" "c \<noteq> []" "list_all field_char (a @ b @ c)" "\<not> mounts_locked s"
    "mem 0" "mem 1" "mem 2" "buff = a @ '' '' @ b @ '' '' @ c @ [CHR 0x0A]"
  shows "motsec_allowed_mounts_store mem True buff (length buff) s =
    (Inr (length buff), s\<lparr>allowed_mounts :=
       allowed_mounts s @ [\<lparr>mm_device = a, mm_mount_point = b, mm_fs_type = c\<rparr>]\<rparr>)"
  using store_line [OF assms] .

section \<open>Examples\<close>

definition sample_motsec :: motsec where
  "sample_motsec = \<lparr>mounts_locked = False,
     allowed_mounts = [\<lparr>mm_device = ''a'', mm_mount_point = ''/bin/tcmd'', mm_fs_type = ''ext2''\<rparr>]\<rparr>"

definition sample_line :: string where
  "sample_line = ''a'' @ '' '' @ ''/bin/tcmd'' @ '' '' @ ''ext2'' @ [CHR 0x0A]"

lemma sample_store:
  "motsec_allowed_mounts_store (\<lambda>_. True) True sample_line (length sample_line) mot_security_init =
    (Inr (length sample_line), sample_motsec)"
  using store_line [OF _ _ _ _ _ _ _ _ sample_line_def, of mot_security_init "\<lambda>_. True"]
  by (simp add: field_char_def mot_security_init_def sample_motsec_def)

theorem allowed_mounts_roundtrip_witness:
  "motsec_allowed_mounts_store (\<lambda>_. True) True sample_line (length sample_line) mot_security_init =
    (Inr (length sample_line), sample_motsec)"
  using allowed_mounts_roundtrip [OF _ _ _ _ _ _ _ _ sample_line_def, of mot_security_init "\<lambda>_. True"]
  by (simp add: field_char_def mot_security_init_def sample_motsec_def)

text \<open>
  A run in which one mount is listed and a second store has passed the test of the flag when
  the list is locked, and appends afterwards.
\<close>

definition late_mount :: motsec_mount where
  "late_mount = \<lparr>mm_device = ''b'', mm_mount_point = ''/bin/tcmd'', mm_fs_type = ''ext2''\<rparr>"

definition sample_locked :: msys where
  "sample_locked = \<lparr>ms_sec = motsec_lock_mounts sample_motsec, ms_pending = {#late_mount#}\<rparr>"

definition sample_late :: msys where
  "sample_late = \<lparr>ms_sec = motsec_add_tail late_mount (motsec_lock_mounts sample_motsec), ms_pending = {#}\<rparr>"

lemma sample_reachable: "motsec_reachable sample_locked"
proof -
  let ?line = "''b'' @ '' '' @ ''/bin/tcmd'' @ '' '' @ ''ext2'' @ [CHR 0x0A]"
  have "motsec_step\<^sup>*\<^sup>* msys_init \<lparr>ms_sec = sample_motsec, ms_pending = {#}\<rparr>"
    using store_run [of "length sample_line" sample_line msys_init "\<lambda>_. True" True] sample_store
    by (simp add: msys_init_def)
  moreover have "motsec_step \<lparr>ms_sec = sample_motsec, ms_pending = {#}\<rparr> \<lparr>ms_sec = sample_motsec, ms_pending = {#late_mount#}\<rparr>"
  proof -
    have "mount_fields (\<lambda>_. True) ?line (length ?line) = Inr (''b'', ''/bin/tcmd'', ''ext2'', length ?line)"
      by (rule fields_line) (simp_all add: field_char_def)
    from motsec_step.check [OF order_refl this, of True "\<lparr>ms_sec = sample_motsec, ms_pending = {#}\<rparr>"]
    show ?thesis by (simp add: motsec_add_check_def sample_motsec_def late_mount_def)
  qed
  moreover have "motsec_step \<lparr>ms_sec = sample_motsec, ms_pending = {#late_mount#}\<rparr> sample_locked"
    using motsec_step.lock [of "[CHR ''1'', CHR 0x0A]" 2 "\<lparr>ms_sec = sample_motsec, ms_pending = {#late_mount#}\<rparr>"]
    by (simp add: motsec_mounts_locked_store_def sample_locked_def)
  ultimately show ?thesis unfolding motsec_reachable_def by (meson rtranclp.rtrancl_into_rtrancl)
qed

lemma sample_late_step: "motsec_step sample_locked sample_late"
  using motsec_step.append [of late_mount sample_locked] by (simp add: sample_locked_def sample_late_def)

theorem mount_policy_witness:
  "mounts_locked (ms_sec sample_late) \<and>
   mot_security_sb_mount sample_env (Some ''a'') 2 0 (Some ''ext2'') (ms_sec sample_locked) (ms_sec sample_locked) = Some (Inr ()) \<and>
   mot_security_sb_mount sample_env (Some ''b'') 2 0 (Some ''ext2'') (ms_sec sample_locked) (ms_sec sample_locked) = Some (Inl EPERM) \<and>
   mot_security_sb_mount sample_env (Some ''b'') 2 0 (Some ''ext2'') (ms_sec sample_late) (ms_sec sample_late) = Some (Inr ())"
proof -
  have locked: "mounts_locked (ms_sec sample_locked)"
    by (simp add: sample_locked_def motsec_lock_mounts_def)
  note here = mount_policy [OF sample_reachable locked rtranclp.rtrancl_refl rtranclp.rtrancl_refl sample_at]
  note late = mount_policy [OF sample_reachable locked r_into_rtranclp [of motsec_step, OF sample_late_step] rtranclp.rtrancl_refl sample_at]
  show ?thesis
    using here [of "''a''" "''ext2''"] here [of "''b''" "''ext2''"] late [of "''b''" "''ext2''"]
    by (simp add: sample_locked_def sample_late_def motsec_lock_mounts_def motsec_add_tail_def sample_motsec_def late_mount_def)
qed

text \<open>
  A store whose task is preempted between the test of the flag and the append takes effect
  after the list has been locked: the hook refuses the mount and then admits it.
\<close>

lemma mount_added_after_lock:
  "\<exists>s s'. motsec_reachable s \<and> mounts_locked (ms_sec s) \<and> motsec_step s s' \<and>
     mot_security_sb_mount sample_env (Some ''b'') 2 0 (Some ''ext2'') (ms_sec s) (ms_sec s) = Some (Inl EPERM) \<and>
     mot_security_sb_mount sample_env (Some ''b'') 2 0 (Some ''ext2'') (ms_sec s') (ms_sec s') = Some (Inr ())"
proof (intro exI conjI)
  show "mounts_locked (ms_sec sample_locked)"
    by (simp add: sample_locked_def motsec_lock_mounts_def)
  have "free_page sample_env" using sample_at unfolding at_path_def by blast
  then have hook: "mot_security_sb_mount sample_env (Some d) 2 0 (Some f) s s =
      motsec_check_mount_allowed (Some d) (Some ''/bin/tcmd'') (Some f) (allowed_mounts s)"
    if "mounts_locked s" for d f s
    using that at_path_abs [OF sample_at] by (simp add: mot_security_sb_mount_def)
  show "mot_security_sb_mount sample_env (Some ''b'') 2 0 (Some ''ext2'') (ms_sec sample_locked) (ms_sec sample_locked) = Some (Inl EPERM)"
    by (subst hook) (simp_all add: sample_locked_def motsec_lock_mounts_def sample_motsec_def strcmp_eq)
  show "mot_security_sb_mount sample_env (Some ''b'') 2 0 (Some ''ext2'') (ms_sec sample_late) (ms_sec sample_late) = Some (Inr ())"
    by (subst hook) (simp_all add: sample_late_def motsec_lock_mounts_def motsec_add_tail_def sample_motsec_def late_mount_def strcmp_eq)
qed (rule sample_reachable sample_late_step)+

text \<open>An entry whose name alone exceeds a page.\<close>

definition long_vfs :: vfs where
  "long_vfs = sample_vfs\<lparr>dentries := (dentries sample_vfs)(3 :=
     \<lparr>d_parent = 0, d_name = replicate 5000 CHR ''x'', d_unhashed = False, d_sb_dev = Some 7\<rparr>)\<rparr>"

lemma long_path:
  "env_abs_d_path (sample_env\<lparr>e_vfs := long_vfs\<rparr>) 3 0 = Some (Inl ENAMETOOLONG)"
  "env_abs_d_path (sample_env\<lparr>e_vfs := long_vfs\<rparr>) 0 0 = Some (Inr ''/'')"
proof -
  have "path_to long_vfs 0 0 0 0 []" by (rule path_to.root)
  then have "path_to long_vfs 0 0 3 0 ([] @ [replicate 5000 CHR ''x''])"
    using path_to.entry [of 3 0 0 0 long_vfs "[]"] by (simp add: long_vfs_def sample_vfs_def IS_ROOT_def)
  from d_path_path [OF this, of PAGE_SIZE]
  show "env_abs_d_path (sample_env\<lparr>e_vfs := long_vfs\<rparr>) 3 0 = Some (Inl ENAMETOOLONG)"
    by (simp add: env_abs_d_path_def sample_env_def PAGE_SIZE_def path_text_def) (simp add: long_vfs_def)
  show "env_abs_d_path (sample_env\<lparr>e_vfs := long_vfs\<rparr>) 0 0 = Some (Inr ''/'')"
    by (simp add: env_abs_d_path_def sample_env_def abs_d_path_def)
qed

theorem mount_null_oops_witness:
  "mot_security_sb_mount (sample_env\<lparr>e_vfs := long_vfs\<rparr>) None 0 0 None (ms_sec sample_locked) (ms_sec sample_late) = None \<and>
   mot_security_sb_mount (sample_env\<lparr>e_vfs := long_vfs\<rparr>) (Some ''b'') 3 0 None (ms_sec sample_locked) (ms_sec sample_late) = None \<and>
   mot_security_sb_mount (sample_env\<lparr>e_vfs := long_vfs\<rparr>) (Some ''b'') 3 0 None (ms_sec sample_locked) (ms_sec sample_locked) \<noteq> None"
proof -
  have locked: "mounts_locked (ms_sec sample_locked)" and page: "free_page (sample_env\<lparr>e_vfs := long_vfs\<rparr>)"
    by (simp_all add: sample_locked_def motsec_lock_mounts_def sample_env_def)
  note late = mount_null_oops [OF sample_reachable locked r_into_rtranclp [of motsec_step, OF sample_late_step] page]
  note here = mount_null_oops [OF sample_reachable locked rtranclp.rtrancl_refl page]
  have "cstring ''/''" by simp
  then show ?thesis
    using late [OF long_path(2), of None None] late [OF long_path(1), of "Some ''b''" None]
      here [OF long_path(1), of "Some ''b''" None]
    by (simp add: sample_locked_def sample_late_def motsec_lock_mounts_def motsec_add_tail_def sample_motsec_def late_mount_def)
qed

end
