(* ===== verification/Spec2Isabelle.thy ===== *)
theory Spec2Isabelle
  imports Rwsem Kfifo Bitmap Vsscanf Uid16 GroupRuns Rlimit UserRuns MotMounts
begin

text \<open>
  Verification of parts of the Motorola MAGX kernel (Linux 2.6.10 with Motorola's changes,
  \<open>src/linux-2.6.x\<close>), in the configuration of \<open>arch/arm/configs/motorola_ljap_defconfig\<close>: a
  32-bit ARM, \<open>CONFIG_SECURITY\<close> with Motorola's security module, \<open>SECURE_CLOCK\<close>,
  \<open>SECURE_DRM\<close> and \<open>SECURE_MOUNT\<close>.

  \<^bold>\<open>Parts.\<close> The development covers kernel libraries and the credential and security code
  that decides what a process may do. The libraries stand alone; the security code uses them
  as follows. System calls of \<open>kernel/sys.c\<close> and \<open>kernel/capability.c\<close> change the ids and
  capability sets of a task, ask \<open>capable\<close> for privileges and call the hooks of
  \<open>security/commoncap.c\<close>; \<open>set_user\<close> keeps the per-user counters of \<open>kernel/user.c\<close>;
  \<open>setgroups\<close> replaces the group object of a task, which \<open>fork\<close> shares.
  \<open>execve\<close> (\<open>fs/exec.c\<close>) calls the hooks of \<open>security/motsecurity.c\<close>, which look up path
  names built by \<open>fs/dcache.c\<close> in their tables; user space fills the list of allowed mounts
  through \<open>security/motsecurity_sysfs.c\<close>.

  \<^bold>\<open>Theories.\<close>

  \<^item> \<open>Kernel_Prelude\<close>: machine words, error numbers, shared list and word lemmas.

  \<^item> \<open>Rwsem\<close>: the spinlock-based read/write semaphore, \<open>lib/rwsem-spinlock.c\<close>. The record
  \<open>rwsem_sys\<close> holds the semaphore, its queue and the tasks; each section under the
  \<open>wait_lock\<close> is a step of the relation \<open>rwsem_step\<close>. Writers are exclusive, a release never
  oopses, no wake-up is lost, and \<open>up_write\<close> serves the queue in order. The field \<open>activity\<close>
  is an unbounded integer: it counts holders, of which there are fewer than tasks.

  \<^item> \<open>Bitops\<close>, \<open>Bitmap\<close>: the bit searches and population counts of \<open>include/linux/bitops.h\<close>
  and \<open>include/asm-arm/bitops.h\<close>, and the bitmaps of \<open>lib/bitmap.c\<close> over a memory of 32-bit
  words in which bitmaps may overlap. A bitmap denotes a set of bit numbers; the operations
  are those of sets (locale \<open>bitmap_binop\<close> for the four binary ones).

  \<^item> \<open>Kfifo\<close>: \<open>kernel/kfifo.c\<close>, with indices that wrap at 32 bits. It refines a bounded queue
  (locale \<open>bounded_fifo\<close>, interpreted for the unlocked and the locked operations), also along
  whole runs of calls.

  \<^item> \<open>Ctype\<close>, \<open>Vsprintf\<close>, \<open>Vsscanf\<close>: \<open>lib/ctype.c\<close> and \<open>lib/vsprintf.c\<close>, number parsing,
  formatted output and input, over a byte memory with 32-bit addresses. Output is bounded by
  the size of the buffer (locale \<open>bounded_printer\<close>), except for a NULL buffer; the text of a
  number that is printed to memory is read back by the parsers and by \<open>sscanf\<close>.

  \<^item> \<open>Creds\<close>, \<open>CredRuns\<close>: capability sets, \<open>commoncap.c\<close>, the user structures and the system
  calls on ids and capabilities; then runs of a system of tasks that make these calls in any
  order (relation \<open>cred_step\<close>, without \<open>execve\<close>): unprivileged tasks are confined, \<open>setuid\<close>
  gives up root and capability sets stay consistent. A step is a whole call.

  \<^item> \<open>UserRuns\<close>: the user structures when tasks interleave between the sections of \<open>alloc_uid\<close>,
  \<open>set_user\<close> and \<open>switch_uid\<close>, fork, end and look up users (relation \<open>ustep\<close>; the phase of a
  task is the point it has reached in a call). The hash table holds exactly the referenced
  structures, with exact counts; an uninterrupted \<open>set_user\<close> of \<open>Creds\<close> is a run of these
  steps.

  \<^item> \<open>Uid16\<close>: the 16-bit id calls of \<open>kernel/uid16.c\<close>; each is a step of the same runs.

  \<^item> \<open>SuppGroups\<close>, \<open>GroupCalls\<close>, \<open>GroupRuns\<close>: supplementary groups of \<open>kernel/sys.c\<close>, with the
  16-bit variants of \<open>kernel/uid16.c\<close>. The record \<open>gsys\<close> holds the reference-counted objects,
  the pages in use and the tasks. The blocks of an object denote a list of ids; the shell sort
  yields its sorted permutation and the binary search finds exactly the members when the ids
  lie within half of the range, which it does not otherwise. The locales \<open>groups_reader\<close> and
  \<open>groups_writer\<close> state what the system calls need of the copies from and to user space; they
  are interpreted for the 32-bit and the 16-bit copies. In every run (relation \<open>gstep\<close>) the
  references and pages are counted exactly and no call fails to return.

  \<^item> \<open>Rlimit\<close>: the resource limits of \<open>kernel/sys.c\<close>. Soft limits stay below hard ones, and
  hard limits rise only with \<open>CAP_SYS_RESOURCE\<close>.

  \<^item> \<open>Dpath\<close>: \<open>__d_path\<close>, \<open>d_path\<close> and \<open>abs_d_path\<close> over a tree of entries and mounts.

  \<^item> \<open>MotSecurity\<close>, \<open>MotMounts\<close>: the tables and hooks of Motorola's module, the credential part
  of \<open>execve\<close>, and the allowed mounts with the parser of their sysfs attribute. The flag that
  locks the mounts is not guarded by the lock of the list, so the relation \<open>motsec_step\<close>
  separates the test of the flag from the append: a store that passed the test appends its
  mount even after the lock, and nothing else changes the list then.

  \<^bold>\<open>Conventions.\<close> Fallible code returns \<open>Inl e\<close> for the error \<open>e\<close>; \<open>None\<close> stands for an
  oops, a \<open>BUG\<close> or a call that does not return. A C name \<open>__f\<close> is \<open>uu_f\<close>. Code between taking
  and releasing a lock is one step; where other tasks can run between two such sections and
  that matters (semaphores, user structures, allowed mounts) each section is a step of its
  own. Allocation failure is a Boolean argument. Loops are
  recursive functions with a termination proof; \<open>d_path_loop\<close>, which follows pointers, and
  \<open>groups_sort_shift\<close> are \<open>partial_function\<close>s, proved to return on every entry that is linked
  below the root and for every positive stride.
  No fuel is used.

  \<^bold>\<open>Findings\<close> that theorems establish: \<open>find_next_bit\<close> skips bits, \<open>bitmap_shift_right\<close>
  leaves unused bits, \<open>scnprintf\<close> returns -1 for size 0, \<open>snprintf\<close> writes through a NULL
  buffer, \<open>capset\<close> on a process group skips its processes, \<open>groups_search\<close> misses members
  when ids are far apart, \<open>CAP_SECURE_CLOCK\<close> is granted by path prefix (for paths of at most
  22 characters) and survives a failed \<open>execve\<close>, the mount hook dereferences unchecked
  pointers, and a mount can be added after the list is locked.

  \<^bold>\<open>Not modelled.\<close> Device drivers, file systems, network protocols and architecture code,
  which are almost all of the tree: hardware access, assembly and protocol state without a
  contract in the sources. The scheduler, timers, memory management and IPC; the loading of
  an executable image and the interpreter of a script; keyrings; the references to user
  structures that signals, shared memory and message queues hold; the remaining functions of \<open>lib/string.c\<close>; the text
  conversions of bitmaps; attributes that only print.
\<close>

end
